(* ===== verification/Net80211_Prelude.thy ===== *)
theory Net80211_Prelude
  imports Main "HOL-Library.Word"
begin

text \<open>
  Shared vocabulary of the development: the machine integer types of the C sources,
  buffers as byte lists with the two primitives the code uses on them (copy into a
  buffer at an offset, byte-wise exclusive or), \<open>size_t\<close> subtraction, and
  the little- and big-endian codecs of 32-bit words.  The lemmas here are the ones the
  component theories share; they go to the simpset or to the collections
  \<open>buf_simps\<close> (facts about buffer writes) and \<open>codec_simps\<close> (the codecs).
\<close>

unbundle bit_operations_syntax

named_theorems buf_simps "lengths, reads and writes of byte buffers"
named_theorems codec_simps "conversions between words and their byte encodings"

type_synonym u8 = "8 word"
type_synonym u16 = "16 word"
type_synonym u32 = "32 word"
type_synonym u64 = "64 word"
type_synonym bytes = "8 word list"

subsection \<open>Flag words\<close>

text \<open>\<open>x & mask\<close> used as a condition, and the two ways the code changes flags.\<close>

definition has_flag :: "'a::len word \<Rightarrow> 'a word \<Rightarrow> bool" where
  "has_flag x f \<longleftrightarrow> x AND f \<noteq> 0"

definition set_flag :: "'a::len word \<Rightarrow> 'a word \<Rightarrow> 'a word" where
  "set_flag x f = x OR f"

definition clear_flag :: "'a::len word \<Rightarrow> 'a word \<Rightarrow> 'a word" where
  "clear_flag x f = x AND NOT f"

lemma has_flag_clear_same [simp]: "\<not> has_flag (clear_flag x f) f"
  by (auto simp: has_flag_def clear_flag_def bit_eq_iff bit_simps)

lemma has_flag_set_same [simp]: "has_flag (set_flag x f) f \<longleftrightarrow> f \<noteq> 0"
proof -
  have "(x OR f) AND f = f"
    by (auto simp: bit_eq_iff bit_simps)
  then show ?thesis by (simp add: has_flag_def set_flag_def)
qed

lemma has_flag_set_disjoint: "f AND g = 0 \<Longrightarrow> has_flag (set_flag x f) g = has_flag x g"
  by (simp add: has_flag_def set_flag_def bit.conj_disj_distrib2)

lemma has_flag_clear_disjoint:
  assumes "f AND g = 0"
  shows "has_flag (clear_flag x f) g = has_flag x g"
proof -
  have "(x AND NOT f) AND g = x AND g"
    using assms by (auto simp: bit_eq_iff bit_simps)
  then show ?thesis by (simp add: has_flag_def clear_flag_def)
qed

subsection \<open>Size arithmetic\<close>

text \<open>Subtraction of \<open>size_t\<close> values (64 bits) wraps around, it does not stop at 0.\<close>

definition size_sub :: "nat \<Rightarrow> nat \<Rightarrow> nat" where
  "size_sub a b = (if b \<le> a then a - b else 2 ^ 64 - (b - a))"

lemma size_sub_le [simp]: "b \<le> a \<Longrightarrow> size_sub a b = a - b"
  by (simp add: size_sub_def)

text \<open>Subtraction of 32-bit unsigned values, as in \<open>m->m_len - off\<close> with an unsigned \<open>off\<close>.\<close>

definition uint_sub :: "nat \<Rightarrow> nat \<Rightarrow> nat" where
  "uint_sub a b = (if b \<le> a then a - b else 2 ^ 32 - (b - a))"

lemma uint_sub_le [simp]: "b \<le> a \<Longrightarrow> uint_sub a b = a - b"
  by (simp add: uint_sub_def)

subsection \<open>Loops that thread a state through the bytes of a buffer\<close>

fun map_state :: "('s \<Rightarrow> 'a \<Rightarrow> 's \<times> 'b) \<Rightarrow> 's \<Rightarrow> 'a list \<Rightarrow> 's \<times> 'b list" where
  "map_state f s [] = (s, [])"
| "map_state f s (x # xs) =
     (case f s x of (s', y) \<Rightarrow> case map_state f s' xs of (s'', ys) \<Rightarrow> (s'', y # ys))"

lemma map_state_append:
  "map_state f s (xs @ ys) =
     (case map_state f s xs of (s', us) \<Rightarrow>
      case map_state f s' ys of (s'', vs) \<Rightarrow> (s'', us @ vs))"
  by (induction f s xs rule: map_state.induct) (auto split: prod.split)

lemma length_map_state [simp]: "length (snd (map_state f s xs)) = length xs"
  by (induction f s xs rule: map_state.induct) (auto split: prod.split)

lemma length_map_stateD: "map_state f s xs = (s', ys) \<Longrightarrow> length ys = length xs"
  using length_map_state [of f s xs] by simp

text \<open>If one step undoes another step for step, so does the loop.\<close>

lemma map_state_inverse:
  assumes "\<And>s x s' y. f s x = (s', y) \<Longrightarrow> g s y = (s', x)"
  shows "map_state f s xs = (s', ys) \<Longrightarrow> map_state g s ys = (s', xs)"
  by (induction xs arbitrary: s ys) (auto split: prod.splits dest: assms)

text \<open>Tables given row by row.\<close>

lemma nth_concat_rows:
  assumes "\<forall>r \<in> set rows. length r = n" "a < length rows" "b < n"
  shows "concat rows ! (a * n + b) = rows ! a ! b"
  using assms
proof (induction rows arbitrary: a)
  case (Cons r rows)
  then show ?case by (cases a) (auto simp: nth_append add.assoc)
qed simp

subsection \<open>Buffers\<close>

text \<open>\<open>memcpy(buf + i, src, length src)\<close>.\<close>

definition put_at :: "nat \<Rightarrow> 'a list \<Rightarrow> 'a list \<Rightarrow> 'a list" where
  "put_at i src buf = take i buf @ src @ drop (i + length src) buf"

lemma length_put_at [simp, buf_simps]:
  "i + length src \<le> length buf \<Longrightarrow> length (put_at i src buf) = length buf"
  by (simp add: put_at_def)

lemma put_at_Nil [simp, buf_simps]: "put_at i [] buf = buf"
  by (simp add: put_at_def)

lemma take_put_at [simp, buf_simps]:
  "i \<le> length buf \<Longrightarrow> n \<le> i \<Longrightarrow> take n (put_at i src buf) = take n buf"
  by (simp add: put_at_def min_def)

lemma drop_put_at_end [simp, buf_simps]:
  "i \<le> length buf \<Longrightarrow> i + length src \<le> n \<Longrightarrow> drop n (put_at i src buf) = drop n buf"
  by (simp add: put_at_def)

lemma drop_put_at [buf_simps]:
  "i \<le> length buf \<Longrightarrow> n \<le> i \<Longrightarrow> drop n (put_at i src buf) = put_at (i - n) src (drop n buf)"
  by (simp add: put_at_def drop_take add.commute)

lemma read_put_at [simp, buf_simps]:
  "i \<le> length buf \<Longrightarrow> length src = n \<Longrightarrow> take n (drop i (put_at i src buf)) = src"
  by (simp add: put_at_def)

lemma nth_put_at [buf_simps]:
  assumes "i + length src \<le> length buf" "k < length buf"
  shows "put_at i src buf ! k =
    (if i \<le> k \<and> k < i + length src then src ! (k - i) else buf ! k)"
  using assms by (auto simp: put_at_def nth_append)

lemma put_at_nth_same:
  "i + n \<le> length buf \<Longrightarrow> put_at i (take n (drop i buf)) buf = buf"
  by (rule nth_equalityI) (auto simp: nth_put_at)

lemma append_take_drop_append [simp]: "take k xs @ drop k xs @ ys = xs @ ys"
  by (simp flip: append_assoc)

lemma put_at_append:
  "i + length xs + length ys \<le> length buf \<Longrightarrow>
   put_at (i + length xs) ys (put_at i xs buf) = put_at i (xs @ ys) buf"
  by (simp add: put_at_def ac_simps)

lemma take_drop_put_at_mid:
  assumes "d + n \<le> length buf" "i + length src \<le> n"
  shows "take n (drop d (put_at (d + i) src buf)) = put_at i src (take n (drop d buf))"
  using assms by (intro nth_equalityI) (auto simp: nth_put_at)

text \<open>The byte-wise exclusive or of two buffers, as long as the shorter one.\<close>

definition xor_bytes :: "'a::len word list \<Rightarrow> 'a word list \<Rightarrow> 'a word list" where
  "xor_bytes xs ys = map2 (XOR) xs ys"

lemma length_xor_bytes [simp, buf_simps]:
  "length (xor_bytes xs ys) = min (length xs) (length ys)"
  by (simp add: xor_bytes_def)

lemma nth_xor_bytes [simp]:
  "i < length xs \<Longrightarrow> i < length ys \<Longrightarrow> xor_bytes xs ys ! i = xs ! i XOR ys ! i"
  by (simp add: xor_bytes_def)

lemma xor_bytes_Nil [simp]: "xor_bytes [] ys = []" "xor_bytes xs [] = []"
  by (simp_all add: xor_bytes_def)

lemma xor_bytes_Cons [simp]:
  "xor_bytes (x # xs) (y # ys) = (x XOR y) # xor_bytes xs ys"
  by (simp add: xor_bytes_def)

lemma xor_word_cancel [simp]:
  "(y :: 'a::len word) XOR (y XOR x) = x" "(x XOR y) XOR y = x" "(y XOR x) XOR y = x"
  by (simp_all add: ac_simps)

lemma xor_bytes_cancel:
  "length xs \<le> length ks \<Longrightarrow> xor_bytes ks (xor_bytes ks xs) = xs"
  by (rule nth_equalityI) (simp_all add: min_absorb2)

lemma xor_bytes_commute: "xor_bytes xs ys = xor_bytes ys xs"
  by (rule nth_equalityI) (simp_all add: min.commute xor.commute)

lemma take_xor_bytes [simp]: "take n (xor_bytes xs ys) = xor_bytes (take n xs) (take n ys)"
  by (simp add: xor_bytes_def take_map take_zip)

lemma drop_xor_bytes [simp]: "drop n (xor_bytes xs ys) = xor_bytes (drop n xs) (drop n ys)"
  by (simp add: xor_bytes_def drop_map drop_zip)

subsection \<open>Byte encodings of 32-bit words\<close>

text \<open>
  \<open>le32dec(p)\<close> and \<open>be32dec(p)\<close> of the four bytes at the start of a buffer, and their
  inverses.  The decoders read positions 0 to 3; every caller passes at least four bytes.
\<close>

definition le32dec :: "bytes \<Rightarrow> u32" where
  "le32dec p = ucast (p ! 0) OR push_bit 8 (ucast (p ! 1)) OR
     push_bit 16 (ucast (p ! 2)) OR push_bit 24 (ucast (p ! 3))"

definition le32enc :: "u32 \<Rightarrow> bytes" where
  "le32enc v = [ucast v, ucast (drop_bit 8 v), ucast (drop_bit 16 v), ucast (drop_bit 24 v)]"

definition be32dec :: "bytes \<Rightarrow> u32" where
  "be32dec p = ucast (p ! 3) OR push_bit 8 (ucast (p ! 2)) OR
     push_bit 16 (ucast (p ! 1)) OR push_bit 24 (ucast (p ! 0))"

definition be32enc :: "u32 \<Rightarrow> bytes" where
  "be32enc v = [ucast (drop_bit 24 v), ucast (drop_bit 16 v), ucast (drop_bit 8 v), ucast v]"

lemma length_enc [simp, codec_simps]: "length (le32enc v) = 4" "length (be32enc v) = 4"
  by (simp_all add: le32enc_def be32enc_def)

lemma bit_u8_ge [simp]: "8 \<le> n \<Longrightarrow> \<not> bit (x :: u8) n"
  by (auto dest: bit_imp_le_length)

lemma nat_lt_32_cases:
  assumes "n < (32 :: nat)"
  obtains i where "n = i" "i < 8" | i where "n = 8 + i" "i < 8"
    | i where "n = 16 + i" "i < 8" | i where "n = 24 + i" "i < 8"
proof -
  consider "n < 8" | "8 \<le> n \<and> n < 16" | "16 \<le> n \<and> n < 24" | "24 \<le> n \<and> n < 32"
    using assms by linarith
  then show ?thesis
  proof cases
    case 1
    then show ?thesis using that(1) by blast
  next
    case 2
    then show ?thesis by (intro that(2) [of "n - 8"]) linarith+
  next
    case 3
    then show ?thesis by (intro that(3) [of "n - 16"]) linarith+
  next
    case 4
    then show ?thesis by (intro that(4) [of "n - 24"]) linarith+
  qed
qed

lemma le32dec_enc [simp, codec_simps]: "le32dec (le32enc v) = v"
  by (rule bit_word_eqI, simp, erule nat_lt_32_cases)
    (simp_all add: le32dec_def le32enc_def bit_simps)

lemma be32dec_enc [simp, codec_simps]: "be32dec (be32enc v) = v"
  by (rule bit_word_eqI, simp, erule nat_lt_32_cases)
    (simp_all add: be32dec_def be32enc_def bit_simps)

lemma le32enc_dec4: "le32enc (le32dec [a, b, c, d]) = [a, b, c, d]"
  by (auto simp: le32dec_def le32enc_def bit_simps intro!: bit_word_eqI)

lemma be32enc_dec4: "be32enc (be32dec [a, b, c, d]) = [a, b, c, d]"
  by (auto simp: be32dec_def be32enc_def bit_simps intro!: bit_word_eqI)

lemma length_4_cases:
  assumes "length xs = 4"
  obtains a b c d where "xs = [a, b, c, d]"
  using assms by (auto simp: numeral_eq_Suc length_Suc_conv)

lemma le32enc_dec [codec_simps]: "length p = 4 \<Longrightarrow> le32enc (le32dec p) = p"
  by (elim length_4_cases) (simp add: le32enc_dec4)

lemma le32enc_xor: "le32enc (a XOR b) = xor_bytes (le32enc a) (le32enc b)"
  by (auto simp: le32enc_def bit_simps intro!: bit_word_eqI)

end
