(* ===== verification/Mbuf.thy ===== *)
theory Mbuf
  imports Net80211_Prelude
begin

text \<open>
  The packet buffers of the port (\<open>port/net/embox/bsd_mbuf.c\<close>,
  \<open>compat/netbsd/sys/mbuf.h\<close>) and the append routine of
  \<open>net80211/ieee80211_netbsd.c\<close>.

  A chain linked by \<open>m_next\<close> is the list of its buffers and the null pointer is the
  empty list.  Every buffer owns one cluster: \<open>m_cluster\<close> is the cluster's contents,
  \<open>m_data\<close> the offset of the data pointer in it, so \<open>m_cluster_size\<close> is the length of
  \<open>m_cluster\<close>.  \<open>sysmalloc\<close> belongs to the host operating system: its result is a
  parameter, \<open>None\<close> for the null pointer and otherwise the uninitialised contents of
  the new cluster.  Freeing returns nothing the model can observe.
\<close>

subsection \<open>Buffers and chains\<close>

record pkthdr =
  ph_len :: nat
  ph_rcvif :: nat
  ph_csum_data :: int
  ph_csum_flags :: u32
  ph_userdata :: nat

record mbuf =
  m_flags :: u32
  m_data :: nat
  m_len :: nat
  m_type :: nat
  m_pkthdr :: pkthdr
  m_cluster :: bytes

type_synonym chain = "mbuf list"

definition MCLBYTES :: nat where "MCLBYTES = 4096"
definition MLEN :: nat where "MLEN = 224"
definition MH_ALIGN :: nat where "MH_ALIGN = 256"
definition M_EXT :: u32 where "M_EXT = 0x1"
definition M_PKTHDR :: u32 where "M_PKTHDR = 0x2"
definition M_MCAST :: u32 where "M_MCAST = 0x4"
definition M_BCAST :: u32 where "M_BCAST = 0x800"
definition ENOBUFS :: int where "ENOBUFS = 355"

abbreviation is_pkthdr :: "mbuf \<Rightarrow> bool" where
  "is_pkthdr m \<equiv> has_flag (m_flags m) M_PKTHDR"

definition M_LEADINGSPACE :: "mbuf \<Rightarrow> nat" where
  "M_LEADINGSPACE m = m_data m"

definition M_TRAILINGSPACE :: "mbuf \<Rightarrow> nat" where
  "M_TRAILINGSPACE m = length (m_cluster m) - (m_data m + m_len m)"

text \<open>The data of one buffer, and of a chain: what every routine below is specified on.\<close>

definition m_bytes :: "mbuf \<Rightarrow> bytes" where
  "m_bytes m = take (m_len m) (drop (m_data m) (m_cluster m))"

definition chain_bytes :: "chain \<Rightarrow> bytes" where
  "chain_bytes ms = concat (map m_bytes ms)"

definition wf_mbuf :: "mbuf \<Rightarrow> bool" where
  "wf_mbuf m \<longleftrightarrow> m_data m + m_len m \<le> length (m_cluster m)"

definition wf_chain :: "chain \<Rightarrow> bool" where
  "wf_chain ms \<longleftrightarrow> list_all wf_mbuf ms"

definition chain_len :: "chain \<Rightarrow> nat" where
  "chain_len ms = sum_list (map m_len ms)"

text \<open>A packet: a chain whose head carries the length of the whole chain.\<close>

definition wf_packet :: "chain \<Rightarrow> bool" where
  "wf_packet ms \<longleftrightarrow> ms \<noteq> [] \<and> wf_chain ms \<and> is_pkthdr (hd ms) \<and>
     ph_len (m_pkthdr (hd ms)) = chain_len ms"

lemma wf_packetD [dest]: "wf_packet ms \<Longrightarrow> wf_chain ms" "wf_packet ms \<Longrightarrow> ms \<noteq> []"
  by (simp_all add: wf_packet_def)

subsection \<open>Allocation\<close>

definition no_pkthdr :: pkthdr where
  "no_pkthdr = \<lparr>ph_len = 0, ph_rcvif = 0, ph_csum_data = 0, ph_csum_flags = 0, ph_userdata = 0\<rparr>"

definition m_get_impl :: "bytes option \<Rightarrow> nat \<Rightarrow> bool \<Rightarrow> mbuf option" where
  "m_get_impl mem type pkthdr =
     (case mem of
        None \<Rightarrow> None
      | Some cl \<Rightarrow> Some \<lparr>m_flags = (if pkthdr then M_PKTHDR else 0) OR M_EXT,
           m_data = (if pkthdr then MH_ALIGN else 0), m_len = 0, m_type = type,
           m_pkthdr = no_pkthdr, m_cluster = cl\<rparr>)"

definition m_align :: "mbuf \<Rightarrow> int \<Rightarrow> mbuf" where
  "m_align m len =
     (if len < 0 then m
      else m\<lparr>m_data := (if is_pkthdr m then MH_ALIGN else 0), m_len := nat len\<rparr>)"

definition m_move_pkthdr :: "mbuf \<Rightarrow> mbuf \<Rightarrow> mbuf \<times> mbuf" where
  "m_move_pkthdr to from =
     (to\<lparr>m_flags := clear_flag (m_flags to) M_PKTHDR OR (m_flags from AND M_PKTHDR),
         m_pkthdr := m_pkthdr from\<rparr>,
      from\<lparr>m_flags := clear_flag (m_flags from) M_PKTHDR\<rparr>)"

subsection \<open>Trimming: m_adj\<close>

fun m_adj_head :: "nat \<Rightarrow> chain \<Rightarrow> chain" where
  "m_adj_head len [] = []"
| "m_adj_head len (m # ms) =
     (if len = 0 then m # ms
      else if m_len m \<le> len
      then m\<lparr>m_data := m_data m + m_len m, m_len := 0\<rparr> # m_adj_head (len - m_len m) ms
      else m\<lparr>m_len := m_len m - len, m_data := m_data m + len\<rparr> # ms)"

fun m_adj_tail :: "nat \<Rightarrow> chain \<Rightarrow> chain" where
  "m_adj_tail count [] = []"
| "m_adj_tail count (m # ms) =
     (let m' = (if m_len m > count then m\<lparr>m_len := count\<rparr> else m)
      in m' # m_adj_tail (count - m_len m') ms)"

definition sync_pkthdr :: "chain \<Rightarrow> chain" where
  "sync_pkthdr ms =
     (case ms of
        [] \<Rightarrow> []
      | m # rest \<Rightarrow>
          (if is_pkthdr m
           then m\<lparr>m_pkthdr := (m_pkthdr m)\<lparr>ph_len := chain_len ms\<rparr>\<rparr> # rest else ms))"

definition m_adj :: "chain \<Rightarrow> int \<Rightarrow> chain" where
  "m_adj mp req_len =
     (if mp = [] then []
      else sync_pkthdr
        (if 0 \<le> req_len then m_adj_head (nat req_len) mp
         else let len = nat (- req_len); count = chain_len mp
              in m_adj_tail (if count > len then count - len else 0) mp))"

subsection \<open>Copying out and in\<close>

text \<open>
  \<open>m_copydata\<close> returns the bytes it stores at \<open>cp\<close>; fewer than \<open>len\<close> of them is the
  short read the routine reports on the console.  Offsets are never negative at its
  call sites.
\<close>

fun m_copydata_skip :: "nat \<Rightarrow> chain \<Rightarrow> nat \<times> chain" where
  "m_copydata_skip off [] = (off, [])"
| "m_copydata_skip off (m # ms) =
     (if off = 0 \<or> off < m_len m then (off, m # ms)
      else m_copydata_skip (off - m_len m) ms)"

fun m_copydata_take :: "nat \<Rightarrow> nat \<Rightarrow> chain \<Rightarrow> bytes" where
  "m_copydata_take off len [] = []"
| "m_copydata_take off len (m # ms) =
     (if len = 0 then []
      else let taken = (if m_len m - off < len then m_len m - off else len)
           in take taken (drop (m_data m + off) (m_cluster m)) @ m_copydata_take 0 (len - taken) ms)"

definition m_copydata :: "chain \<Rightarrow> nat \<Rightarrow> nat \<Rightarrow> bytes" where
  "m_copydata m off len = (case m_copydata_skip off m of (off', m') \<Rightarrow> m_copydata_take off' len m')"

fun m_copyback_loop :: "nat \<Rightarrow> bytes \<Rightarrow> chain \<Rightarrow> chain" where
  "m_copyback_loop off cp [] = []"
| "m_copyback_loop off cp (n # ns) =
     (if cp = [] then n # ns
      else if off \<ge> m_len n then n # m_copyback_loop (off - m_len n) cp ns
      else let taken = (if m_len n - off < length cp then m_len n - off else length cp)
           in n\<lparr>m_cluster := put_at (m_data n + off) (take taken cp) (m_cluster n)\<rparr>
              # m_copyback_loop 0 (drop taken cp) ns)"

definition m_copyback :: "chain \<Rightarrow> nat \<Rightarrow> bytes \<Rightarrow> int \<times> chain" where
  "m_copyback m off cp =
     (if off + length cp > chain_len m then (ENOBUFS, m) else (0, m_copyback_loop off cp m))"

subsection \<open>Growing at the front: m_pullup and m_prepend\<close>

fun drop_empty :: "chain \<Rightarrow> chain" where
  "drop_empty [] = []"
| "drop_empty (m # ms) = (if m_len m = 0 then drop_empty ms else m # ms)"

definition m_pullup :: "bytes option \<Rightarrow> chain \<Rightarrow> int \<Rightarrow> chain option" where
  "m_pullup mem ms len =
     (case ms of
        [] \<Rightarrow> None
      | m # rest \<Rightarrow>
          if len < 0 \<or> len > int MCLBYTES - int MH_ALIGN then None
          else if int (m_len m) \<ge> len then Some ms
          else if int (chain_len ms) < len then None
          else case m_get_impl mem (m_type m) (is_pkthdr m) of
                 None \<Rightarrow> None
               | Some head \<Rightarrow>
                   (let (head1, m1) = (if is_pkthdr m then m_move_pkthdr head m else (head, m));
                        head2 = head1\<lparr>m_cluster := put_at (m_data head1)
                                  (m_copydata (m1 # rest) 0 (nat len)) (m_cluster head1),
                                  m_len := nat len\<rparr>
                    in Some (head2 # drop_empty (m_adj (m1 # rest) len))))"

definition m_prepend :: "bytes option \<Rightarrow> chain \<Rightarrow> int \<Rightarrow> chain option" where
  "m_prepend mem ms len =
     (case ms of
        [] \<Rightarrow> None
      | m # rest \<Rightarrow>
          if len < 0 \<or> len > int MCLBYTES - int MH_ALIGN then None
          else if int (M_LEADINGSPACE m) \<ge> len then
            (let m1 = m\<lparr>m_data := m_data m - nat len, m_len := m_len m + nat len\<rparr>
             in Some ((if is_pkthdr m
                       then m1\<lparr>m_pkthdr := (m_pkthdr m)\<lparr>ph_len := ph_len (m_pkthdr m) + nat len\<rparr>\<rparr>
                       else m1) # rest))
          else case m_get_impl mem (m_type m) (is_pkthdr m) of
                 None \<Rightarrow> None
               | Some n \<Rightarrow>
                   (let n1 = n\<lparr>m_len := nat len\<rparr>
                    in if is_pkthdr m
                       then (let (n2, m2) = m_move_pkthdr n1 m
                             in Some (n2\<lparr>m_pkthdr := (m_pkthdr n2)\<lparr>ph_len :=
                                        ph_len (m_pkthdr n2) + nat len\<rparr>\<rparr> # m2 # rest))
                       else Some (n1 # m # rest)))"

subsection \<open>Growing at the end: m_append and m_cat\<close>

text \<open>
  The loop that adds buffers: \<open>mems\<close> are the results of the successive \<open>sysmalloc\<close>
  calls, and running out of them stands for a failed one.  The result is the added
  buffers and the bytes that found no place.
\<close>

fun m_append_loop :: "bytes option list \<Rightarrow> nat \<Rightarrow> bytes \<Rightarrow> chain \<times> bytes" where
  "m_append_loop [] type cp = ([], cp)"
| "m_append_loop (mem # mems) type cp =
     (if cp = [] then ([], [])
      else case m_get_impl mem type False of
             None \<Rightarrow> ([], cp)
           | Some n \<Rightarrow>
               (let k = min MLEN (length cp);
                    n1 = n\<lparr>m_len := k, m_cluster := put_at (m_data n) (take k cp) (m_cluster n)\<rparr>;
                    (ns, rest) = m_append_loop mems type (drop k cp)
                in (n1 # ns, rest)))"

definition m_append :: "bytes option list \<Rightarrow> chain \<Rightarrow> bytes \<Rightarrow> bool \<times> chain" where
  "m_append mems m0 cp =
     (let m = last m0;
          space = min (M_TRAILINGSPACE m) (length cp);
          m1 = m\<lparr>m_len := m_len m + space,
                 m_cluster := put_at (m_data m + m_len m) (take space cp) (m_cluster m)\<rparr>;
          (ns, rest) = m_append_loop mems (m_type m) (drop space cp);
          chain1 = butlast m0 @ m1 # ns;
          h = hd chain1;
          h1 = (if is_pkthdr h
                then h\<lparr>m_pkthdr := (m_pkthdr h)\<lparr>ph_len :=
                       ph_len (m_pkthdr h) + (length cp - length rest)\<rparr>\<rparr>
                else h)
      in (rest = [], h1 # tl chain1))"

definition m_cat :: "chain \<Rightarrow> chain \<Rightarrow> chain" where
  "m_cat m n =
     (let l = last m;
          l1 = (if is_pkthdr l
                then l\<lparr>m_pkthdr := (m_pkthdr l)\<lparr>ph_len := ph_len (m_pkthdr l) + chain_len n\<rparr>\<rparr>
                else l)
      in butlast m @ l1 # n)"

definition m_copypacket :: "bytes option \<Rightarrow> chain \<Rightarrow> chain option" where
  "m_copypacket mem ms =
     (case ms of
        [] \<Rightarrow> None
      | m # rest \<Rightarrow>
          (case m_get_impl mem (m_type m) (is_pkthdr m) of
             None \<Rightarrow> None
           | Some n \<Rightarrow>
               (let n1 = n\<lparr>m_flags := m_flags n OR (m_flags m AND (M_BCAST OR M_MCAST)),
                           m_cluster := put_at 0 (m_cluster m) (m_cluster n),
                           m_data := m_data m, m_len := m_len m\<rparr>
                in Some [if is_pkthdr m
                         then n1\<lparr>m_pkthdr := (m_pkthdr n1)\<lparr>ph_len := ph_len (m_pkthdr m)\<rparr>\<rparr>
                         else n1])))"

subsection \<open>The data of a chain\<close>

lemma length_m_bytes [simp]: "wf_mbuf m \<Longrightarrow> length (m_bytes m) = m_len m"
  by (simp add: m_bytes_def wf_mbuf_def)

lemma chain_simps [simp]:
  "chain_bytes [] = []" "chain_bytes (m # ms) = m_bytes m @ chain_bytes ms"
  "chain_len [] = 0" "chain_len (m # ms) = m_len m + chain_len ms"
  "wf_chain []" "wf_chain (m # ms) \<longleftrightarrow> wf_mbuf m \<and> wf_chain ms"
  by (simp_all add: chain_bytes_def chain_len_def wf_chain_def)

lemma chain_append [simp]:
  "chain_bytes (ms @ ns) = chain_bytes ms @ chain_bytes ns"
  "chain_len (ms @ ns) = chain_len ms + chain_len ns"
  "wf_chain (ms @ ns) \<longleftrightarrow> wf_chain ms \<and> wf_chain ns"
  by (simp_all add: chain_bytes_def chain_len_def wf_chain_def)

lemma length_chain_bytes [simp]: "wf_chain ms \<Longrightarrow> length (chain_bytes ms) = chain_len ms"
  by (induction ms) simp_all

lemma m_bytes_irrelevant [simp]:
  "m_bytes (m\<lparr>m_flags := f\<rparr>) = m_bytes m" "m_bytes (m\<lparr>m_pkthdr := p\<rparr>) = m_bytes m"
  "wf_mbuf (m\<lparr>m_flags := f\<rparr>) = wf_mbuf m" "wf_mbuf (m\<lparr>m_pkthdr := p\<rparr>) = wf_mbuf m"
  by (simp_all add: m_bytes_def wf_mbuf_def)

lemma m_bytes_advance [simp]:
  "m_bytes (m\<lparr>m_len := m_len m - n, m_data := m_data m + n\<rparr>) = drop n (m_bytes m)"
  "wf_mbuf m \<Longrightarrow> n \<le> m_len m \<Longrightarrow> wf_mbuf (m\<lparr>m_len := m_len m - n, m_data := m_data m + n\<rparr>)"
  by (simp_all add: m_bytes_def wf_mbuf_def drop_take add.commute)

lemma m_bytes_shorten [simp]:
  "n \<le> m_len m \<Longrightarrow> m_bytes (m\<lparr>m_len := n\<rparr>) = take n (m_bytes m)"
  "wf_mbuf m \<Longrightarrow> n \<le> m_len m \<Longrightarrow> wf_mbuf (m\<lparr>m_len := n\<rparr>)"
  by (simp_all add: m_bytes_def wf_mbuf_def min_def)

lemma m_bytes_empty [simp]:
  "m_bytes (m\<lparr>m_data := d, m_len := 0\<rparr>) = []"
  "wf_mbuf m \<Longrightarrow> wf_mbuf (m\<lparr>m_data := m_data m + m_len m, m_len := 0\<rparr>)"
  by (simp_all add: m_bytes_def wf_mbuf_def)

text \<open>Writing inside the data of one buffer.\<close>

lemma m_bytes_write:
  assumes "wf_mbuf m" "off + length src \<le> m_len m"
  shows "m_bytes (m\<lparr>m_cluster := put_at (m_data m + off) src (m_cluster m)\<rparr>)
       = put_at off src (m_bytes m)"
  using assms by (simp add: m_bytes_def wf_mbuf_def take_drop_put_at_mid)

lemma wf_mbuf_write [simp]:
  "wf_mbuf m \<Longrightarrow> d + length src \<le> length (m_cluster m) \<Longrightarrow>
   wf_mbuf (m\<lparr>m_cluster := put_at d src (m_cluster m)\<rparr>)"
  by (simp add: wf_mbuf_def)

lemma put_at_append_left:
  "i + length src \<le> length xs \<Longrightarrow> put_at i src (xs @ ys) = put_at i src xs @ ys"
  by (simp add: put_at_def)

lemma put_at_append_right:
  "length xs \<le> i \<Longrightarrow> put_at i src (xs @ ys) = xs @ put_at (i - length xs) src ys"
  by (simp add: put_at_def)

subsection \<open>Trimming\<close>

lemma m_adj_head_bytes [simp]:
  "wf_chain ms \<Longrightarrow> chain_bytes (m_adj_head n ms) = drop n (chain_bytes ms)"
  by (induction n ms rule: m_adj_head.induct) auto

lemma wf_m_adj_head [simp]: "wf_chain ms \<Longrightarrow> wf_chain (m_adj_head n ms)"
  by (induction n ms rule: m_adj_head.induct) auto

lemma m_adj_tail_bytes [simp]:
  "wf_chain ms \<Longrightarrow> chain_bytes (m_adj_tail n ms) = take n (chain_bytes ms)"
  by (induction n ms rule: m_adj_tail.induct) (auto simp: Let_def)

lemma wf_m_adj_tail [simp]: "wf_chain ms \<Longrightarrow> wf_chain (m_adj_tail n ms)"
  by (induction n ms rule: m_adj_tail.induct) (auto simp: Let_def)

lemma m_adj_Nil_iff [simp]:
  "m_adj_head n ms = [] \<longleftrightarrow> ms = []" "m_adj_tail n ms = [] \<longleftrightarrow> ms = []"
  "sync_pkthdr ms = [] \<longleftrightarrow> ms = []" "m_adj ms k = [] \<longleftrightarrow> ms = []"
  by (cases ms; simp add: Let_def sync_pkthdr_def m_adj_def)+

lemma hd_flags_adj [simp]:
  "ms \<noteq> [] \<Longrightarrow> m_flags (hd (m_adj_head n ms)) = m_flags (hd ms)"
  "ms \<noteq> [] \<Longrightarrow> m_flags (hd (m_adj_tail n ms)) = m_flags (hd ms)"
  "ms \<noteq> [] \<Longrightarrow> m_flags (hd (sync_pkthdr ms)) = m_flags (hd ms)"
  by (cases ms; simp add: Let_def sync_pkthdr_def)+

lemma sync_pkthdr_simps [simp]:
  "chain_bytes (sync_pkthdr ms) = chain_bytes ms"
  "wf_chain (sync_pkthdr ms) = wf_chain ms" "chain_len (sync_pkthdr ms) = chain_len ms"
  by (simp_all add: sync_pkthdr_def split: list.split)

lemma sync_pkthdr_packet:
  "ms \<noteq> [] \<Longrightarrow> wf_chain ms \<Longrightarrow> is_pkthdr (hd ms) \<Longrightarrow> wf_packet (sync_pkthdr ms)"
  by (cases ms) (auto simp: sync_pkthdr_def wf_packet_def)

lemma m_adj_bytes:
  assumes "wf_chain ms"
  shows "chain_bytes (m_adj ms n) =
    (if 0 \<le> n then drop (nat n) (chain_bytes ms)
     else take (chain_len ms - nat (- n)) (chain_bytes ms))"
  using assms by (simp add: m_adj_def Let_def)

lemma wf_m_adj [simp]: "wf_chain ms \<Longrightarrow> wf_chain (m_adj ms n)"
  by (simp add: m_adj_def Let_def)

lemma m_adj_packet: "wf_packet ms \<Longrightarrow> wf_packet (m_adj ms n)"
  unfolding wf_packet_def [of ms] by (simp add: m_adj_def Let_def sync_pkthdr_packet)

lemma m_adj_flags [simp]: "ms \<noteq> [] \<Longrightarrow> m_flags (hd (m_adj ms n)) = m_flags (hd ms)"
  by (simp add: m_adj_def Let_def)

subsection \<open>Copying\<close>

lemma m_copydata_take_bytes:
  "wf_chain ms \<Longrightarrow> (ms \<noteq> [] \<longrightarrow> off \<le> m_len (hd ms)) \<Longrightarrow>
   m_copydata_take off len ms = take len (drop off (chain_bytes ms))"
proof (induction off len ms rule: m_copydata_take.induct)
  case (2 off len m ms)
  define taken where "taken = (if m_len m - off < len then m_len m - off else len)"
  have seg: "take taken (drop (m_data m + off) (m_cluster m)) = take taken (drop off (m_bytes m))"
    using "2.prems" by (auto simp: taken_def m_bytes_def drop_take min_def add.commute)
  show ?case
  proof (cases "len = 0")
    case False
    have "m_copydata_take 0 (len - taken) ms = take (len - taken) (chain_bytes ms)"
      using "2.IH" [OF False taken_def] "2.prems" by simp
    then show ?thesis
      using False "2.prems" seg
      by (auto simp: taken_def Let_def min_def)
  qed simp
qed simp

lemma m_copydata_skip_bytes:
  "wf_chain ms \<Longrightarrow> m_copydata_skip off ms = (off', ms') \<Longrightarrow>
   wf_chain ms' \<and> drop off (chain_bytes ms) = drop off' (chain_bytes ms') \<and>
   (ms' \<noteq> [] \<longrightarrow> off' \<le> m_len (hd ms'))"
  by (induction off ms rule: m_copydata_skip.induct) (auto split: if_splits)

lemma m_copydata_bytes:
  "wf_chain ms \<Longrightarrow> m_copydata ms off len = take len (drop off (chain_bytes ms))"
  using m_copydata_skip_bytes [of ms off]
  by (cases "m_copydata_skip off ms") (simp add: m_copydata_def m_copydata_take_bytes)

lemma m_copyback_loop_bytes:
  "wf_chain ms \<Longrightarrow> off + length cp \<le> chain_len ms \<Longrightarrow>
   chain_bytes (m_copyback_loop off cp ms) = put_at off cp (chain_bytes ms) \<and>
   wf_chain (m_copyback_loop off cp ms)"
proof (induction off cp ms rule: m_copyback_loop.induct)
  case (2 off cp n ns)
  consider "cp = []" | "cp \<noteq> []" "m_len n \<le> off" | "cp \<noteq> []" "off < m_len n"
    by linarith
  then show ?case
  proof cases
    case 1
    then show ?thesis using "2.prems" by simp
  next
    case 2
    then show ?thesis using "2.IH"(1) "2.prems" by (simp add: put_at_append_right)
  next
    case 3
    define taken where "taken = (if m_len n - off < length cp then m_len n - off else length cp)"
    have tk: "taken \<le> length cp" "off + taken \<le> m_len n" "length (take taken cp) = taken"
      using 3 by (auto simp: taken_def)
    have "0 + length (drop taken cp) \<le> chain_len ns"
      using "2.prems" 3 by (auto simp: taken_def)
    then have rest: "chain_bytes (m_copyback_loop 0 (drop taken cp) ns) = put_at 0 (drop taken cp) (chain_bytes ns)
        \<and> wf_chain (m_copyback_loop 0 (drop taken cp) ns)"
      using "2.IH"(2) [OF 3(1) _ taken_def] 3 "2.prems" by simp
    have "put_at off (take taken cp) (m_bytes n) @ put_at 0 (drop taken cp) (chain_bytes ns)
        = put_at off cp (m_bytes n @ chain_bytes ns)"
    proof (cases "m_len n - off < length cp")
      case True
      then have "taken = m_len n - off" by (simp add: taken_def)
      then show ?thesis using "2.prems"(1) 3(2) True by (simp add: put_at_def add.commute)
    next
      case False
      then have "taken = length cp" by (simp add: taken_def)
      then show ?thesis using "2.prems"(1) 3(2) False by (simp add: put_at_def)
    qed
    then show ?thesis
      using 3 rest tk "2.prems"
      by (simp add: taken_def [symmetric] Let_def m_bytes_write) (simp add: wf_mbuf_def)
  qed
qed simp

lemma m_copyback_bytes:
  assumes "wf_chain ms" "off + length cp \<le> chain_len ms"
  shows "fst (m_copyback ms off cp) = 0"
    and "chain_bytes (snd (m_copyback ms off cp)) = put_at off cp (chain_bytes ms)"
    and "wf_chain (snd (m_copyback ms off cp))"
  using assms m_copyback_loop_bytes [OF assms] by (simp_all add: m_copyback_def)

subsection \<open>Moving the packet header\<close>

lemma is_pkthdr_get [simp]:
  "m_get_impl mem t p = Some n \<Longrightarrow> is_pkthdr n = p"
  "m_get_impl mem t p = Some n \<Longrightarrow> m_cluster n = the mem"
  "m_get_impl mem t p = Some n \<Longrightarrow> m_len n = 0"
  "m_get_impl mem t p = Some n \<Longrightarrow> m_data n = (if p then MH_ALIGN else 0)"
  by (cases p; auto simp: m_get_impl_def has_flag_def M_PKTHDR_def M_EXT_def split: option.splits)+

lemma m_move_pkthdr_simps [simp]:
  "m_cluster (fst (m_move_pkthdr to from)) = m_cluster to"
  "m_data (fst (m_move_pkthdr to from)) = m_data to"
  "m_len (fst (m_move_pkthdr to from)) = m_len to"
  "m_pkthdr (fst (m_move_pkthdr to from)) = m_pkthdr from"
  "m_bytes (fst (m_move_pkthdr to from)) = m_bytes to"
  "wf_mbuf (fst (m_move_pkthdr to from)) = wf_mbuf to"
  "m_bytes (snd (m_move_pkthdr to from)) = m_bytes from"
  "wf_mbuf (snd (m_move_pkthdr to from)) = wf_mbuf from"
  "m_len (snd (m_move_pkthdr to from)) = m_len from"
  by (simp_all add: m_move_pkthdr_def)

lemma m_move_pkthdr_flag [simp]: "is_pkthdr (fst (m_move_pkthdr to from)) = is_pkthdr from"
proof -
  have "(x AND NOT f OR (y AND f)) AND f = y AND f" for x y f :: u32
    by (auto simp: bit_eq_iff bit_simps)
  then show ?thesis by (simp add: m_move_pkthdr_def has_flag_def clear_flag_def)
qed

subsection \<open>m_pullup\<close>

lemma drop_empty_bytes [simp]: "chain_bytes (drop_empty ms) = chain_bytes ms"
  by (induction ms) (auto simp: m_bytes_def)

lemma wf_drop_empty [simp]: "wf_chain ms \<Longrightarrow> wf_chain (drop_empty ms)"
  by (induction ms) auto

lemma chain_len_drop_empty [simp]: "chain_len (drop_empty ms) = chain_len ms"
  by (induction ms) auto

text \<open>What a successful pullup gives: the same bytes, the first \<open>len\<close> of them in the head.\<close>

lemma m_pullup_spec:
  assumes "wf_chain ms" "m_pullup mem ms len = Some ms'"
    and mem: "\<And>cl. mem = Some cl \<Longrightarrow> length cl = MCLBYTES + MH_ALIGN"
  shows "chain_bytes ms' = chain_bytes ms \<and> wf_chain ms' \<and> ms' \<noteq> [] \<and>
    nat len \<le> m_len (hd ms') \<and> is_pkthdr (hd ms') = is_pkthdr (hd ms) \<and>
    (is_pkthdr (hd ms) \<longrightarrow> m_pkthdr (hd ms') = m_pkthdr (hd ms))"
proof -
  obtain m rest where ms: "ms = m # rest"
    using assms(2) by (cases ms) (simp_all add: m_pullup_def)
  have range: "0 \<le> len" "len \<le> int MCLBYTES - int MH_ALIGN"
    using assms(2) by (auto simp: m_pullup_def ms split: if_splits)
  show ?thesis
  proof (cases "int (m_len m) \<ge> len")
    case True
    then show ?thesis using assms range by (auto simp: m_pullup_def ms)
  next
    case False
    then have tot: "len \<le> int (chain_len ms)"
      using assms(2) range by (auto simp: m_pullup_def ms split: if_splits)
    from False range tot assms(2) obtain head where
      head: "m_get_impl mem (m_type m) (is_pkthdr m) = Some head"
      by (auto simp: m_pullup_def ms split: option.splits)
    then obtain cl where cl: "mem = Some cl" by (auto simp: m_get_impl_def split: option.splits)
    have clen: "length (m_cluster head) = MCLBYTES + MH_ALIGN"
      using mem head cl by simp
    define hm where "hm = (if is_pkthdr m then m_move_pkthdr head m else (head, m))"
    have hm: "m_cluster (fst hm) = m_cluster head" "m_data (fst hm) = m_data head"
      "m_bytes (snd hm) = m_bytes m" "wf_mbuf (snd hm) = wf_mbuf m" "m_len (snd hm) = m_len m"
      "is_pkthdr (fst hm) = is_pkthdr m" "is_pkthdr m \<Longrightarrow> m_pkthdr (fst hm) = m_pkthdr m"
      using head by (auto simp: hm_def)
    define c where "c = snd hm # rest"
    have c: "wf_chain c" "chain_bytes c = chain_bytes ms" "chain_len c = chain_len ms"
      using assms(1) hm by (auto simp: c_def ms)
    have copy: "m_copydata c 0 (nat len) = take (nat len) (chain_bytes ms)"
      using m_copydata_bytes [OF c(1)] c by simp
    then have lcopy: "length (m_copydata c 0 (nat len)) = nat len"
      using assms(1) tot by simp
    define h2 where "h2 = (fst hm)\<lparr>m_cluster := put_at (m_data (fst hm))
        (m_copydata c 0 (nat len)) (m_cluster (fst hm)), m_len := nat len\<rparr>"
    have room: "m_data (fst hm) + nat len \<le> length (m_cluster (fst hm))"
      using clen range head by (auto simp: hm MH_ALIGN_def MCLBYTES_def)
    have h2: "m_bytes h2 = take (nat len) (chain_bytes ms)" "wf_mbuf h2"
      using room lcopy by (simp_all add: h2_def m_bytes_def wf_mbuf_def copy)
    have ms': "ms' = h2 # drop_empty (m_adj c len)"
      using assms(2) False range tot head
      by (simp add: m_pullup_def ms hm_def [symmetric] case_prod_beta c_def h2_def)
    have "chain_bytes (m_adj c len) = drop (nat len) (chain_bytes ms)"
      using m_adj_bytes [OF c(1), of len] range c by simp
    then have "chain_bytes ms' = chain_bytes ms" by (simp add: ms' h2)
    moreover have "is_pkthdr (hd ms') = is_pkthdr m" "m_len (hd ms') = nat len"
      "is_pkthdr m \<Longrightarrow> m_pkthdr (hd ms') = m_pkthdr m"
      using hm by (simp_all add: ms' h2_def)
    ultimately show ?thesis
      using h2(2) c(1) by (simp add: ms' ms)
  qed
qed

lemma m_pullup_packet:
  assumes "wf_packet ms" "m_pullup mem ms len = Some ms'"
    and "\<And>cl. mem = Some cl \<Longrightarrow> length cl = MCLBYTES + MH_ALIGN"
  shows "wf_packet ms'"
proof -
  have wf: "wf_chain ms" using assms(1) by (simp add: wf_packet_def)
  note spec = m_pullup_spec [OF wf assms(2,3)]
  then have "chain_len ms' = chain_len ms"
    using wf length_chain_bytes by metis
  then show ?thesis using spec assms(1) by (simp add: wf_packet_def)
qed

subsection \<open>m_prepend\<close>

text \<open>
  A successful prepend puts \<open>len\<close> bytes in front; their contents are whatever the buffer
  held.  They are contiguous, in the head of the result.
\<close>

lemma m_prepend_spec:
  assumes "wf_chain ms" "m_prepend mem ms len = Some ms'"
    and mem: "\<And>cl. mem = Some cl \<Longrightarrow> length cl = MCLBYTES + MH_ALIGN"
  shows "\<exists>g. chain_bytes ms' = g @ chain_bytes ms \<and> length g = nat len \<and> wf_chain ms' \<and>
    ms' \<noteq> [] \<and> nat len \<le> m_len (hd ms') \<and> is_pkthdr (hd ms') = is_pkthdr (hd ms) \<and>
    (is_pkthdr (hd ms) \<longrightarrow> ph_len (m_pkthdr (hd ms')) = ph_len (m_pkthdr (hd ms)) + nat len)"
proof -
  obtain m rest where ms: "ms = m # rest"
    using assms(2) by (cases ms) (simp_all add: m_prepend_def)
  have range: "0 \<le> len" "len \<le> int MCLBYTES - int MH_ALIGN"
    using assms(2) by (auto simp: m_prepend_def ms split: if_splits)
  have wfm: "wf_mbuf m" "wf_chain rest" using assms(1) by (simp_all add: ms)
  show ?thesis
  proof (cases "int (M_LEADINGSPACE m) \<ge> len")
    case True
    define g where "g = take (nat len) (drop (m_data m - nat len) (m_cluster m))"
    have le: "nat len \<le> m_data m" using True by (simp add: M_LEADINGSPACE_def)
    have "take (nat len + m_len m) (drop (m_data m - nat len) (m_cluster m)) = g @ m_bytes m"
      using le by (simp add: g_def m_bytes_def take_add)
    moreover have "length g = nat len"
      using le wfm(1) by (simp add: g_def wf_mbuf_def)
    ultimately show ?thesis
      using True range assms(2) le wfm
      by (intro exI [of _ g])
        (auto simp: m_prepend_def ms Let_def m_bytes_def wf_mbuf_def add.commute split: if_splits)
  next
    case False
    from False range assms(2) obtain n where
      n: "m_get_impl mem (m_type m) (is_pkthdr m) = Some n"
      by (auto simp: m_prepend_def ms split: option.splits)
    then obtain cl where cl: "mem = Some cl" by (auto simp: m_get_impl_def split: option.splits)
    have room: "m_data n + nat len \<le> length (m_cluster n)"
      using mem n cl range by (auto simp: MH_ALIGN_def MCLBYTES_def)
    define g where "g = take (nat len) (drop (m_data n) (m_cluster n))"
    have g: "length g = nat len" "m_bytes (n\<lparr>m_len := nat len\<rparr>) = g"
      "wf_mbuf (n\<lparr>m_len := nat len\<rparr>)"
      using room by (simp_all add: g_def m_bytes_def wf_mbuf_def)
    then show ?thesis
      using False range assms(2) n wfm
      by (intro exI [of _ g])
        (auto simp: m_prepend_def ms Let_def case_prod_beta split: if_splits)
  qed
qed

subsection \<open>m_append\<close>

text \<open>The \<open>sysmalloc\<close> results an append may draw on: full clusters or null.\<close>

definition fresh_mems :: "bytes option list \<Rightarrow> bool" where
  "fresh_mems mems \<longleftrightarrow> (\<forall>cl. Some cl \<in> set mems \<longrightarrow> length cl = MCLBYTES + MH_ALIGN)"

lemma m_append_loop_spec:
  assumes "fresh_mems mems" "m_append_loop mems t cp = (ns, rest)"
  shows "chain_bytes ns @ rest = cp \<and> wf_chain ns"
  using assms
proof (induction mems t cp arbitrary: ns rest rule: m_append_loop.induct)
  case (2 mem mems t cp)
  show ?case
  proof (cases "cp = [] \<or> m_get_impl mem t False = None")
    case True
    then show ?thesis using "2.prems"(2) by (auto split: if_splits)
  next
    case False
    then obtain n where n: "m_get_impl mem t False = Some n" and ne: "cp \<noteq> []" by auto
    then obtain cl where cl: "mem = Some cl" by (auto simp: m_get_impl_def split: option.splits)
    define k where "k = min MLEN (length cp)"
    obtain ns' where step: "m_append_loop mems t (drop k cp) = (ns', rest)"
        "ns = n\<lparr>m_len := k, m_cluster := put_at (m_data n) (take k cp) (m_cluster n)\<rparr> # ns'"
      using "2.prems"(2) n ne by (auto simp: k_def Let_def split: prod.splits)
    have "fresh_mems mems" using "2.prems"(1) by (auto simp: fresh_mems_def)
    with "2.IH" ne n step(1) have IH: "chain_bytes ns' @ rest = drop k cp \<and> wf_chain ns'"
      by (auto simp: k_def)
    have "length (m_cluster n) = MCLBYTES + MH_ALIGN" "m_data n = 0"
      using "2.prems"(1) n cl by (auto simp: fresh_mems_def)
    then have "m_bytes (hd ns) = take k cp" "wf_mbuf (hd ns)"
      using step(2) by (auto simp: m_bytes_def wf_mbuf_def put_at_def k_def MLEN_def MCLBYTES_def min_def)
    with IH step(2) show ?thesis by simp
  qed
qed simp

lemma m_append_spec:
  assumes "wf_packet ms" "fresh_mems mems" "m_append mems ms cp = (True, ms')"
  shows "chain_bytes ms' = chain_bytes ms @ cp \<and> wf_packet ms' \<and> m_len (hd ms) \<le> m_len (hd ms')"
proof -
  define m where "m = last ms"
  define space where "space = min (M_TRAILINGSPACE m) (length cp)"
  define m1 where "m1 = m\<lparr>m_len := m_len m + space,
      m_cluster := put_at (m_data m + m_len m) (take space cp) (m_cluster m)\<rparr>"
  obtain ns rest where loop: "m_append_loop mems (m_type m) (drop space cp) = (ns, rest)"
    by fastforce
  obtain xs where ms: "ms = xs @ [m]"
    using wf_packetD(2) [OF assms(1)] by (cases ms rule: rev_cases) (auto simp: m_def)
  have wfx: "wf_chain xs" "wf_mbuf m" using assms(1) wf_packetD(1) [of ms] by (simp_all add: ms)
  have rest: "rest = []" using assms(3) loop
    by (auto simp: m_append_def Let_def m_def space_def split: prod.splits)
  have ns: "chain_bytes ns = drop space cp" "wf_chain ns"
    using m_append_loop_spec [OF assms(2) loop] rest by auto
  have m1: "m_bytes m1 = m_bytes m @ take space cp" "wf_mbuf m1" "m_flags m1 = m_flags m"
    "m_pkthdr m1 = m_pkthdr m" "m_len m \<le> m_len m1"
    using wfx(2)
    by (auto simp: m1_def space_def m_bytes_def wf_mbuf_def M_TRAILINGSPACE_def put_at_def take_add min_def)
  define c where "c = xs @ m1 # ns"
  have c: "wf_chain c" "chain_bytes c = chain_bytes ms @ cp" "c \<noteq> []"
    using wfx m1 ns by (simp_all add: c_def ms)
  then have clen: "chain_len c = chain_len ms + length cp"
    using length_chain_bytes [of c] wf_packetD(1) [OF assms(1)] by simp
  have hds: "hd c = (if xs = [] then m1 else hd xs)" "hd ms = (if xs = [] then m else hd xs)"
    by (cases xs; simp add: c_def ms)+
  have pk: "is_pkthdr (hd ms)" "ph_len (m_pkthdr (hd ms)) = chain_len ms"
    using assms(1) by (simp_all add: wf_packet_def)
  have hdc: "is_pkthdr (hd c)" "m_pkthdr (hd c) = m_pkthdr (hd ms)" "m_len (hd ms) \<le> m_len (hd c)"
    using pk hds m1(3-5) by auto
  have butlast_ms: "butlast ms = xs" by (simp add: ms)
  have ms': "ms' = (hd c)\<lparr>m_pkthdr := (m_pkthdr (hd c))\<lparr>ph_len :=
      ph_len (m_pkthdr (hd c)) + length cp\<rparr>\<rparr> # tl c"
    using assms(3) loop rest hdc(1)
    by (simp add: m_append_def Let_def m_def [symmetric] space_def [symmetric] m1_def [symmetric]
        c_def [symmetric] butlast_ms)
  from c(3) obtain h cs where "c = h # cs" by (cases c) simp_all
  with c(1,2) clen hdc pk(2) show ?thesis by (simp add: ms' wf_packet_def)
qed

subsection \<open>The interface the ciphers use\<close>

text \<open>
  The cipher modules work on a packet through four operations: write into the
  contiguous front (\<open>mtod(m, uint8_t *) + off\<close>), \<open>m_adj\<close>, \<open>m_copydata\<close> and \<open>m_append\<close>.
  The locale states what they rely on, over the bytes of the packet.  Its main lemma is
  the step all decapsulations share: copy the 802.11 header up over the privacy header,
  trim the front and trim the trailer.
\<close>

definition m_poke :: "chain \<Rightarrow> nat \<Rightarrow> bytes \<Rightarrow> chain" where
  "m_poke ms off src =
     (case ms of
        [] \<Rightarrow> []
      | m # rest \<Rightarrow> m\<lparr>m_cluster := put_at (m_data m + off) src (m_cluster m)\<rparr> # rest)"

text \<open>The pointer \<open>mtod(m, \<dots>)\<close>: the memory from the data pointer to the end of the cluster.\<close>

definition mtod :: "chain \<Rightarrow> bytes" where
  "mtod ms = (case ms of [] \<Rightarrow> [] | m # rest \<Rightarrow> drop (m_data m) (m_cluster m))"

definition pkt_len :: "chain \<Rightarrow> nat" where
  "pkt_len ms = ph_len (m_pkthdr (hd ms))"

abbreviation front_len :: "chain \<Rightarrow> nat" where
  "front_len ms \<equiv> m_len (hd ms)"

locale packet_buffer =
  fixes ok :: "'b \<Rightarrow> bool"
    and data :: "'b \<Rightarrow> bytes"
    and front :: "'b \<Rightarrow> nat"
    and poke :: "'b \<Rightarrow> nat \<Rightarrow> bytes \<Rightarrow> 'b"
    and adj :: "'b \<Rightarrow> int \<Rightarrow> 'b"
    and copydata :: "'b \<Rightarrow> nat \<Rightarrow> nat \<Rightarrow> bytes"
  assumes front_le: "ok b \<Longrightarrow> front b \<le> length (data b)"
    and poke_data: "ok b \<Longrightarrow> off + length src \<le> front b \<Longrightarrow>
          data (poke b off src) = put_at off src (data b)"
    and poke_ok: "ok b \<Longrightarrow> off + length src \<le> front b \<Longrightarrow> ok (poke b off src)"
    and adj_head: "ok b \<Longrightarrow> data (adj b (int n)) = drop n (data b)"
    and adj_tail: "ok b \<Longrightarrow> data (adj b (- int n)) = take (length (data b) - n) (data b)"
    and adj_ok: "ok b \<Longrightarrow> ok (adj b k)"
    and copydata_read: "ok b \<Longrightarrow> copydata b off n = take n (drop off (data b))"
begin

lemma adj_neg_zero: "ok b \<Longrightarrow> data (adj b 0) = data b"
  using adj_head [of b 0] by simp

lemma strip_data:
  assumes ok: "ok b" and room: "hdrlen + n \<le> front b"
  shows "data (adj (adj (poke b n (take hdrlen (data b))) (int n)) (- int t))
    = take (length (data b) - n - t) (take hdrlen (data b) @ drop (hdrlen + n) (data b))"
proof -
  define hdr where "hdr = take hdrlen (data b)"
  have len: "hdrlen + n \<le> length (data b)" using room front_le [OF ok] by simp
  then have lh: "length hdr = hdrlen" by (simp add: hdr_def)
  have fits: "n + length hdr \<le> front b" using lh room by simp
  have 1: "data (poke b n hdr) = put_at n hdr (data b)" by (rule poke_data [OF ok fits])
  have ok1: "ok (poke b n hdr)" by (rule poke_ok [OF ok fits])
  have 2: "data (adj (poke b n hdr) (int n)) = hdr @ drop (hdrlen + n) (data b)"
    using len lh by (simp add: adj_head [OF ok1] 1 put_at_def add.commute)
  show ?thesis
    using len lh adj_tail [OF adj_ok [OF ok1], of "int n" t]
    by (simp add: 2 hdr_def [symmetric] add.commute)
qed

lemma strip_ok:
  assumes "ok b" "hdrlen + n \<le> front b"
  shows "ok (adj (adj (poke b n (take hdrlen (data b))) k) l)"
  using assms front_le [of b] by (intro adj_ok poke_ok) simp_all

end

lemma m_poke_chain:
  assumes "wf_packet ms" "off + length src \<le> front_len ms"
  shows "chain_bytes (m_poke ms off src) = put_at off src (chain_bytes ms)"
    and "wf_packet (m_poke ms off src)" "front_len (m_poke ms off src) = front_len ms"
    and "pkt_len (m_poke ms off src) = pkt_len ms"
proof -
  obtain m rest where ms: "ms = m # rest" using assms(1) by (cases ms) (auto simp: wf_packet_def)
  have "wf_mbuf m" using assms(1) by (simp add: wf_packet_def ms)
  moreover have "wf_mbuf (m\<lparr>m_cluster := put_at (m_data m + off) src (m_cluster m)\<rparr>)"
    using \<open>wf_mbuf m\<close> assms(2) by (simp add: wf_mbuf_def ms)
  ultimately show "chain_bytes (m_poke ms off src) = put_at off src (chain_bytes ms)"
    "wf_packet (m_poke ms off src)" "front_len (m_poke ms off src) = front_len ms"
    "pkt_len (m_poke ms off src) = pkt_len ms"
    using assms by (auto simp: m_poke_def ms m_bytes_write put_at_append_left wf_packet_def pkt_len_def)
qed

lemma pkt_len_bytes: "wf_packet ms \<Longrightarrow> pkt_len ms = length (chain_bytes ms)"
  by (simp add: wf_packet_def pkt_len_def)

lemma front_len_le: "wf_packet ms \<Longrightarrow> front_len ms \<le> length (chain_bytes ms)"
  by (cases ms) (auto simp: wf_packet_def)

lemma take_mtod:
  assumes "wf_packet ms" "n \<le> front_len ms"
  shows "take n (mtod ms) = take n (chain_bytes ms)"
proof -
  obtain m rest where ms: "ms = m # rest" using wf_packetD(2) [OF assms(1)] by (cases ms) auto
  then have "n \<le> length (m_bytes m)" using assms by (auto simp: wf_packet_def)
  then show ?thesis using assms(2) by (simp add: ms mtod_def m_bytes_def min_def)
qed

lemma slice_mtod:
  assumes "wf_packet ms" "i + n \<le> front_len ms"
  shows "take n (drop i (mtod ms)) = take n (drop i (chain_bytes ms))"
  using take_mtod [OF assms] by (metis drop_take add_diff_cancel_left')

lemma nth_mtod:
  assumes "wf_packet ms" "i < front_len ms"
  shows "mtod ms ! i = chain_bytes ms ! i"
  using take_mtod [OF assms(1), of "Suc i"] assms(2) by (metis Suc_leI lessI nth_take)

interpretation mb: packet_buffer wf_packet chain_bytes front_len m_poke m_adj m_copydata
  by unfold_locales
    (auto simp: front_len_le m_poke_chain m_adj_packet m_copydata_bytes m_adj_bytes)

subsection \<open>Changes that leave the layout of a chain alone\<close>

definition mbuf_shape :: "mbuf \<Rightarrow> mbuf \<times> nat" where
  "mbuf_shape m = (m\<lparr>m_cluster := []\<rparr>, length (m_cluster m))"

abbreviation chain_shape :: "chain \<Rightarrow> (mbuf \<times> nat) list" where
  "chain_shape ms \<equiv> map mbuf_shape ms"

lemma mbuf_shapeD:
  assumes "mbuf_shape m' = mbuf_shape m"
  shows "m_flags m' = m_flags m" "m_data m' = m_data m" "m_len m' = m_len m" "m_type m' = m_type m"
    "m_pkthdr m' = m_pkthdr m" "length (m_cluster m') = length (m_cluster m)"
    "wf_mbuf m' = wf_mbuf m"
  using assms by (cases m; cases m'; simp add: mbuf_shape_def wf_mbuf_def)+

lemma mbuf_shape_write [simp]:
  "d + length src \<le> length (m_cluster m) \<Longrightarrow>
   mbuf_shape (m\<lparr>m_cluster := put_at d src (m_cluster m)\<rparr>) = mbuf_shape m"
  by (simp add: mbuf_shape_def)

lemma chain_shape_eq:
  assumes "chain_shape ms' = chain_shape ms"
  shows "length ms' = length ms" "ms' = [] \<longleftrightarrow> ms = []"
    "wf_chain ms' = wf_chain ms" "chain_len ms' = chain_len ms"
proof -
  have "length ms' = length ms" using map_eq_imp_length_eq [OF assms] .
  then have "length ms' = length ms \<and> (ms' = [] \<longleftrightarrow> ms = []) \<and>
      wf_chain ms' = wf_chain ms \<and> chain_len ms' = chain_len ms"
    using assms by (induction ms' ms rule: list_induct2) (auto dest: mbuf_shapeD)
  then show "length ms' = length ms" "ms' = [] \<longleftrightarrow> ms = []"
    "wf_chain ms' = wf_chain ms" "chain_len ms' = chain_len ms" by auto
qed

lemma chain_shape_packet:
  assumes "chain_shape ms' = chain_shape ms" "wf_packet ms"
  shows "wf_packet ms'" "front_len ms' = front_len ms" "pkt_len ms' = pkt_len ms"
    "m_len (last ms') = m_len (last ms)"
proof -
  have ne: "ms \<noteq> []" "ms' \<noteq> []" using chain_shape_eq(2) [OF assms(1)] assms(2) by auto
  then have "mbuf_shape (hd ms') = mbuf_shape (hd ms)"
    using assms(1) by (metis hd_map)
  then show "wf_packet ms'" "front_len ms' = front_len ms" "pkt_len ms' = pkt_len ms"
    using assms(2) chain_shape_eq [OF assms(1)] ne
    by (auto simp: wf_packet_def pkt_len_def dest: mbuf_shapeD)
  have "mbuf_shape (last ms') = mbuf_shape (last ms)"
    using assms(1) ne by (metis last_map)
  then show "m_len (last ms') = m_len (last ms)" by (rule mbuf_shapeD)
qed

subsection \<open>Properties\<close>

text \<open>A packet in one buffer, and one in two buffers, for examples.\<close>

definition packet_of :: "bytes \<Rightarrow> chain" where
  "packet_of bs =
     [\<lparr>m_flags = M_PKTHDR, m_data = 0, m_len = length bs, m_type = 1,
       m_pkthdr = no_pkthdr\<lparr>ph_len := length bs\<rparr>, m_cluster = bs\<rparr>]"

lemma packet_of_facts [simp]:
  "wf_packet (packet_of bs)" "chain_bytes (packet_of bs) = bs" "front_len (packet_of bs) = length bs"
  "m_len (last (packet_of bs)) = length bs"
  by (simp_all add: packet_of_def wf_packet_def wf_mbuf_def m_bytes_def has_flag_def M_PKTHDR_def
      no_pkthdr_def)

definition ex_packet :: chain where
  "ex_packet =
     [\<lparr>m_flags = M_PKTHDR, m_data = 1, m_len = 2, m_type = 1, m_pkthdr = no_pkthdr\<lparr>ph_len := 4\<rparr>,
       m_cluster = [0, 10, 11, 0]\<rparr>,
      \<lparr>m_flags = 0, m_data = 0, m_len = 2, m_type = 1, m_pkthdr = no_pkthdr, m_cluster = [12, 13]\<rparr>]"

lemma ex_packet_facts [simp]:
  "wf_packet ex_packet" "chain_bytes ex_packet = [10, 11, 12, 13]" "chain_len ex_packet = 4"
  "length ex_packet = 2" "\<not> is_pkthdr (last ex_packet)" "wf_chain ex_packet" "front_len ex_packet = 2"
  "list_all (\<lambda>m. \<not> is_pkthdr m) (tl ex_packet)"
  by (simp_all add: ex_packet_def wf_packet_def wf_chain_def wf_mbuf_def chain_len_def chain_bytes_def
      m_bytes_def has_flag_def M_PKTHDR_def no_pkthdr_def)

text \<open>
  C28: \<open>m_pullup\<close>, given an allocation and a length the packet can supply, succeeds, keeps
  the bytes of the packet and its header length, and makes the requested bytes contiguous.
\<close>

theorem m_pullup_correct:
  assumes "wf_packet ms" "0 \<le> len" "len \<le> int MCLBYTES - int MH_ALIGN"
    and "len \<le> int (chain_len ms)" "length cl = MCLBYTES + MH_ALIGN"
  shows "\<exists>ms'. m_pullup (Some cl) ms len = Some ms' \<and> chain_bytes ms' = chain_bytes ms \<and>
    wf_packet ms' \<and> nat len \<le> front_len ms'"
proof -
  obtain m rest where ms: "ms = m # rest" using wf_packetD(2) [OF assms(1)] by (cases ms) auto
  have "\<exists>ms'. m_pullup (Some cl) ms len = Some ms'"
    using assms by (simp add: m_pullup_def ms m_get_impl_def split: prod.split)
  then obtain ms' where "m_pullup (Some cl) ms len = Some ms'" by blast
  then show ?thesis
    using m_pullup_spec [OF wf_packetD(1) [OF assms(1)], of "Some cl"]
      m_pullup_packet [OF assms(1), of "Some cl"] assms(5) by simp
qed

theorem m_pullup_correct_witness:
  "\<exists>ms'. m_pullup (Some (replicate 4352 0)) ex_packet 3 = Some ms' \<and>
    chain_bytes ms' = [10, 11, 12, 13] \<and> wf_packet ms' \<and> 3 \<le> front_len ms'"
  using m_pullup_correct [of ex_packet 3 "replicate 4352 0"] by (simp add: MCLBYTES_def MH_ALIGN_def)

text \<open>
  C29: \<open>m_adj\<close> removes exactly \<open>n\<close> bytes from the front for \<open>n \<ge> 0\<close> and exactly \<open>-n\<close> bytes
  from the end for \<open>n < 0\<close>, never more than there are, and the header length follows.
\<close>

theorem m_adj_correct:
  assumes "wf_packet ms"
  shows "chain_bytes (m_adj ms n) =
      (if 0 \<le> n then drop (nat n) (chain_bytes ms)
       else take (length (chain_bytes ms) - nat (- n)) (chain_bytes ms)) \<and>
    wf_packet (m_adj ms n) \<and> pkt_len (m_adj ms n) = pkt_len ms - nat \<bar>n\<bar>"
proof -
  have wf: "wf_chain ms" "wf_packet (m_adj ms n)" using assms m_adj_packet by auto
  then have b: "chain_bytes (m_adj ms n) =
      (if 0 \<le> n then drop (nat n) (chain_bytes ms)
       else take (length (chain_bytes ms) - nat (- n)) (chain_bytes ms))"
    by (simp add: m_adj_bytes)
  then show ?thesis
    using wf assms by (auto simp: pkt_len_bytes simp del: length_chain_bytes)
qed

theorem m_adj_correct_witness:
  "chain_bytes (m_adj ex_packet 3) = [13] \<and> chain_bytes (m_adj ex_packet (- 3)) = [10] \<and>
   pkt_len (m_adj ex_packet (- 3)) = pkt_len ex_packet - 3"
  using m_adj_correct [of ex_packet 3] m_adj_correct [of ex_packet "- 3"] by simp

text \<open>
  What \<open>m_copyback\<close> stores in a chain at an offset, across buffer boundaries,
  \<open>m_copydata\<close> reads back, every byte outside the written range is kept, and a range that
  does not fit is refused without a change.
\<close>

theorem m_copyback_copydata:
  assumes "wf_chain ms"
  shows "if off + length cp \<le> chain_len ms
    then \<exists>ms'. m_copyback ms off cp = (0, ms') \<and> m_copydata ms' off (length cp) = cp \<and>
      m_copydata ms' 0 off = m_copydata ms 0 off \<and>
      (\<forall>n. m_copydata ms' (off + length cp) n = m_copydata ms (off + length cp) n)
    else m_copyback ms off cp = (ENOBUFS, ms)"
proof (cases "off + length cp \<le> chain_len ms")
  case True
  obtain ms' where cb: "m_copyback ms off cp = (0, ms')"
    using m_copyback_bytes(1) [OF assms True] by (metis prod.collapse)
  note spec = m_copyback_bytes [OF assms True, unfolded cb fst_conv snd_conv]
  show ?thesis using spec True assms by (simp add: m_copydata_bytes cb)
qed (simp add: m_copyback_def)

theorem m_copyback_copydata_witness:
  "m_copydata (snd (m_copyback ex_packet 1 [7, 8])) 1 2 = [7, 8] \<and>
   m_copyback ex_packet 3 [7, 8] = (ENOBUFS, ex_packet)"
  using m_copyback_copydata [of ex_packet 1 "[7, 8]"] m_copyback_copydata [of ex_packet 3 "[7, 8]"]
  by (auto simp: numeral_2_eq_2)

text \<open>
  \<open>m_prepend\<close> puts \<open>len\<close> contiguous bytes in front of a packet and \<open>m_adj\<close> takes them
  off again: the pair is the identity on the bytes of a packet.
\<close>

theorem m_prepend_adj:
  assumes "wf_packet ms" "m_prepend (Some cl) ms len = Some ms'" "length cl = MCLBYTES + MH_ALIGN"
  shows "wf_packet ms' \<and> nat len \<le> front_len ms' \<and> pkt_len ms' = pkt_len ms + nat len \<and>
    chain_bytes (m_adj ms' len) = chain_bytes ms"
proof -
  have wf: "wf_chain ms" using assms(1) by auto
  obtain g where g: "chain_bytes ms' = g @ chain_bytes ms" "length g = nat len" "wf_chain ms'"
      "ms' \<noteq> []" "nat len \<le> m_len (hd ms')" "is_pkthdr (hd ms') = is_pkthdr (hd ms)"
      "is_pkthdr (hd ms) \<longrightarrow> ph_len (m_pkthdr (hd ms')) = ph_len (m_pkthdr (hd ms)) + nat len"
    using m_prepend_spec [OF wf assms(2)] assms(3) by auto
  have "chain_len ms' = nat len + chain_len ms"
    using arg_cong [OF g(1), of length] g(2,3) wf by simp
  then have pk: "wf_packet ms'" "pkt_len ms' = pkt_len ms + nat len"
    using assms(1) g by (simp_all add: wf_packet_def pkt_len_def)
  have "0 \<le> len"
    using assms(2) by (auto simp: m_prepend_def split: list.splits if_splits)
  then show ?thesis using pk g m_adj_bytes [OF g(3), of len] by simp
qed

theorem m_prepend_adj_witness:
  "case m_prepend (Some (replicate 4352 0)) ex_packet 8 of
     None \<Rightarrow> False
   | Some ms' \<Rightarrow> wf_packet ms' \<and> pkt_len ms' = 12 \<and> chain_bytes (m_adj ms' 8) = [10, 11, 12, 13]"
proof -
  have "m_prepend (Some (replicate 4352 0)) ex_packet 8 \<noteq> None"
    by (simp add: m_prepend_def ex_packet_def m_get_impl_def MCLBYTES_def MH_ALIGN_def
        split: prod.split)
  then obtain ms' where ms': "m_prepend (Some (replicate 4352 0)) ex_packet 8 = Some ms'" by blast
  then show ?thesis
    using m_prepend_adj [of ex_packet "replicate 4352 0" 8 ms'] pkt_len_bytes [of ex_packet]
    by (simp add: MCLBYTES_def MH_ALIGN_def)
qed

text \<open>
  \<open>m_cat\<close> joins the bytes of two chains, but keeps the packet well formed only
  when the first one is a single buffer: on a longer one it adds the length to the last
  buffer's header, if it has one, and the packet length in the head is stale.
\<close>

theorem m_cat_packet_iff:
  assumes "wf_packet ms" "wf_chain n" "chain_len n > 0" "list_all (\<lambda>m. \<not> is_pkthdr m) (tl ms)"
  shows "chain_bytes (m_cat ms n) = chain_bytes ms @ chain_bytes n \<and>
    (wf_packet (m_cat ms n) \<longleftrightarrow> length ms = 1)"
proof -
  obtain xs m where ms: "ms = xs @ [m]"
    using wf_packetD(2) [OF assms(1)] by (cases ms rule: rev_cases) auto
  have "chain_bytes (m_cat ms n) = chain_bytes ms @ chain_bytes n"
    by (simp add: ms m_cat_def)
  moreover have "wf_packet (m_cat ms n) \<longleftrightarrow> length ms = 1"
    using assms by (cases xs) (auto simp: ms m_cat_def wf_packet_def)
  ultimately show ?thesis by simp
qed

theorem m_cat_packet_iff_witness:
  "chain_bytes (m_cat ex_packet ex_packet) = [10, 11, 12, 13, 10, 11, 12, 13] \<and>
   \<not> wf_packet (m_cat ex_packet ex_packet)"
  using m_cat_packet_iff [of ex_packet ex_packet] by simp

end
