(* ===== verification/Frame.thy ===== *)
theory Frame
  imports Mbuf
begin

text \<open>
  The 802.11 frame header as the sources read it (\<open>net80211/ieee80211.h\<close> and the inline
  routines of \<open>ieee80211_proto.h\<close> and \<open>ieee80211_var.h\<close>).  A pointer to a header is the
  memory from that address on; the fields of \<open>struct ieee80211_frame\<close> are its bytes at
  the packed offsets.
\<close>

subsection \<open>Fields\<close>

definition IEEE80211_ADDR_LEN :: nat where "IEEE80211_ADDR_LEN = 6"

definition i_fc :: "bytes \<Rightarrow> nat \<Rightarrow> u8" where "i_fc wh n = wh ! n"
definition i_addr1 :: "bytes \<Rightarrow> bytes" where "i_addr1 wh = take 6 (drop 4 wh)"
definition i_addr2 :: "bytes \<Rightarrow> bytes" where "i_addr2 wh = take 6 (drop 10 wh)"
definition i_addr3 :: "bytes \<Rightarrow> bytes" where "i_addr3 wh = take 6 (drop 16 wh)"
definition i_seq :: "bytes \<Rightarrow> bytes" where "i_seq wh = take 2 (drop 22 wh)"
definition i_addr4 :: "bytes \<Rightarrow> bytes" where "i_addr4 wh = take 6 (drop 24 wh)"

text \<open>The sizes of \<open>struct ieee80211_frame\<close>, \<open>ieee80211_frame_ack\<close> and \<open>ieee80211_frame_min\<close>.\<close>

definition sizeof_frame :: nat where "sizeof_frame = 24"
definition sizeof_frame_ack :: nat where "sizeof_frame_ack = 10"
definition sizeof_frame_min :: nat where "sizeof_frame_min = 16"

definition IEEE80211_FC0_TYPE_MASK :: u8 where "IEEE80211_FC0_TYPE_MASK = 0x0c"
definition IEEE80211_FC0_TYPE_MGT :: u8 where "IEEE80211_FC0_TYPE_MGT = 0x00"
definition IEEE80211_FC0_TYPE_CTL :: u8 where "IEEE80211_FC0_TYPE_CTL = 0x04"
definition IEEE80211_FC0_TYPE_DATA :: u8 where "IEEE80211_FC0_TYPE_DATA = 0x08"
definition IEEE80211_FC0_SUBTYPE_MASK :: u8 where "IEEE80211_FC0_SUBTYPE_MASK = 0xf0"
definition IEEE80211_FC0_SUBTYPE_CTS :: u8 where "IEEE80211_FC0_SUBTYPE_CTS = 0xc0"
definition IEEE80211_FC0_SUBTYPE_ACK :: u8 where "IEEE80211_FC0_SUBTYPE_ACK = 0xd0"
definition IEEE80211_FC0_SUBTYPE_QOS :: u8 where "IEEE80211_FC0_SUBTYPE_QOS = 0x80"
definition IEEE80211_FC1_DIR_MASK :: u8 where "IEEE80211_FC1_DIR_MASK = 0x03"
definition IEEE80211_FC1_DIR_NODS :: u8 where "IEEE80211_FC1_DIR_NODS = 0x00"
definition IEEE80211_FC1_DIR_TODS :: u8 where "IEEE80211_FC1_DIR_TODS = 0x01"
definition IEEE80211_FC1_DIR_FROMDS :: u8 where "IEEE80211_FC1_DIR_FROMDS = 0x02"
definition IEEE80211_FC1_DIR_DSTODS :: u8 where "IEEE80211_FC1_DIR_DSTODS = 0x03"

lemmas fc_defs = IEEE80211_FC0_TYPE_MASK_def IEEE80211_FC0_TYPE_MGT_def IEEE80211_FC0_TYPE_CTL_def
  IEEE80211_FC0_TYPE_DATA_def IEEE80211_FC0_SUBTYPE_MASK_def IEEE80211_FC0_SUBTYPE_CTS_def
  IEEE80211_FC0_SUBTYPE_ACK_def IEEE80211_FC0_SUBTYPE_QOS_def IEEE80211_FC1_DIR_MASK_def
  IEEE80211_FC1_DIR_NODS_def IEEE80211_FC1_DIR_TODS_def IEEE80211_FC1_DIR_FROMDS_def
  IEEE80211_FC1_DIR_DSTODS_def

subsection \<open>Header predicates and sizes\<close>

definition IEEE80211_IS_MULTICAST :: "bytes \<Rightarrow> bool" where
  "IEEE80211_IS_MULTICAST a \<longleftrightarrow> has_flag (a ! 0) 0x01"

definition IEEE80211_IS_DSTODS :: "bytes \<Rightarrow> bool" where
  "IEEE80211_IS_DSTODS wh \<longleftrightarrow> i_fc wh 1 AND IEEE80211_FC1_DIR_MASK = IEEE80211_FC1_DIR_DSTODS"

definition ieee80211_has_qos :: "bytes \<Rightarrow> bool" where
  "ieee80211_has_qos wh \<longleftrightarrow>
     i_fc wh 0 AND (IEEE80211_FC0_TYPE_MASK OR IEEE80211_FC0_SUBTYPE_QOS)
       = IEEE80211_FC0_TYPE_DATA OR IEEE80211_FC0_SUBTYPE_QOS"

definition ieee80211_hdrsize :: "bytes \<Rightarrow> nat" where
  "ieee80211_hdrsize wh =
     sizeof_frame
     + (if i_fc wh 1 AND IEEE80211_FC1_DIR_MASK = IEEE80211_FC1_DIR_DSTODS
        then IEEE80211_ADDR_LEN else 0)
     + (if ieee80211_has_qos wh then 2 else 0)"

definition ieee80211_anyhdrsize :: "bytes \<Rightarrow> nat" where
  "ieee80211_anyhdrsize wh =
     (if i_fc wh 0 AND IEEE80211_FC0_TYPE_MASK = IEEE80211_FC0_TYPE_CTL
      then (if i_fc wh 0 AND IEEE80211_FC0_SUBTYPE_MASK \<in>
                 {IEEE80211_FC0_SUBTYPE_CTS, IEEE80211_FC0_SUBTYPE_ACK}
            then sizeof_frame_ack else sizeof_frame_min)
      else ieee80211_hdrsize wh)"

definition IEEE80211_F_DATAPAD :: u32 where "IEEE80211_F_DATAPAD = 0x00080000"

text \<open>\<open>roundup(size, sizeof(u_int32_t))\<close>.\<close>

definition roundup4 :: "nat \<Rightarrow> nat" where
  "roundup4 n = (n + 3) div 4 * 4"

text \<open>The header space depends on the \<open>ic_flags\<close> word of the device.\<close>

definition ieee80211_hdrspace :: "u32 \<Rightarrow> bytes \<Rightarrow> nat" where
  "ieee80211_hdrspace flags wh =
     (let size = ieee80211_hdrsize wh
      in if has_flag flags IEEE80211_F_DATAPAD then roundup4 size else size)"

definition ieee80211_anyhdrspace :: "u32 \<Rightarrow> bytes \<Rightarrow> nat" where
  "ieee80211_anyhdrspace flags wh =
     (let size = ieee80211_anyhdrsize wh
      in if has_flag flags IEEE80211_F_DATAPAD then roundup4 size else size)"

subsection \<open>Facts\<close>

lemma dir_cases:
  "i_fc wh 1 AND IEEE80211_FC1_DIR_MASK \<in>
    {IEEE80211_FC1_DIR_NODS, IEEE80211_FC1_DIR_TODS, IEEE80211_FC1_DIR_FROMDS, IEEE80211_FC1_DIR_DSTODS}"
proof -
  define x where "x = i_fc wh 1 AND 3"
  have "x \<le> 3" unfolding x_def by (rule word_and_le1)
  then have "unat x \<in> {0, 1, 2, 3}" by (auto simp: word_le_nat_alt)
  moreover have "x = of_nat (unat x)" by simp
  ultimately have "x = of_nat 0 \<or> x = of_nat 1 \<or> x = of_nat 2 \<or> x = of_nat 3"
    by (elim insertE emptyE) metis+
  then show ?thesis by (simp add: fc_defs x_def)
qed

lemma hdrsize_bounds: "24 \<le> ieee80211_hdrsize wh" "ieee80211_hdrsize wh \<le> 32"
  by (simp_all add: ieee80211_hdrsize_def sizeof_frame_def IEEE80211_ADDR_LEN_def)

lemma roundup4_bounds: "n \<le> roundup4 n" "roundup4 n \<le> n + 3" "roundup4 n mod 4 = 0"
  unfolding roundup4_def by presburger+

lemma hdrspace_bounds: "24 \<le> ieee80211_hdrspace fl wh" "ieee80211_hdrspace fl wh \<le> 32"
proof -
  have "ieee80211_hdrsize wh \<in> {24, 26, 30, 32}"
    by (simp add: ieee80211_hdrsize_def sizeof_frame_def IEEE80211_ADDR_LEN_def)
  then show "24 \<le> ieee80211_hdrspace fl wh" "ieee80211_hdrspace fl wh \<le> 32"
    by (auto simp: ieee80211_hdrspace_def roundup4_def Let_def)
qed

text \<open>The header size depends only on the two frame control bytes.\<close>

lemma hdrsize_cong:
  "wh ! 0 = wh' ! 0 \<Longrightarrow> wh ! 1 = wh' ! 1 \<Longrightarrow> ieee80211_hdrsize wh = ieee80211_hdrsize wh'"
  by (simp add: ieee80211_hdrsize_def i_fc_def ieee80211_has_qos_def)

lemma hdrspace_cong:
  "wh ! 0 = wh' ! 0 \<Longrightarrow> wh ! 1 = wh' ! 1 \<Longrightarrow> ieee80211_hdrspace fl wh = ieee80211_hdrspace fl wh'"
  by (simp add: ieee80211_hdrspace_def hdrsize_cong [of wh wh'])

end
