(* ===== verification/Com.thy ===== *)
theory Com
  imports Frame
begin

text \<open>
  The device state the ciphers and the protocol code share (\<open>struct ieee80211com\<close> of
  \<open>net80211/ieee80211_var.h\<close>), the statistics counters, the key of
  \<open>ieee80211_crypto.h\<close> and the notification routines of \<open>ieee80211_netbsd.c\<close>.
  Later components extend the record \<open>com\<close> with the fields they own.
\<close>

subsection \<open>Statistics\<close>

text \<open>The counters of \<open>struct ieee80211_stats\<close> that the modelled code changes.\<close>

datatype stat =
    is_rx_tooshort | is_rx_wepfail
  | is_rx_ccmpreplay | is_rx_ccmpformat | is_rx_ccmpmic
  | is_rx_tkipreplay | is_rx_tkipformat | is_rx_tkipmic | is_rx_tkipicv
  | is_tx_nodefkey | is_tx_badcipher | is_rx_badkeyid
  | is_crypto_nomem | is_crypto_tkip | is_crypto_tkipenmic | is_crypto_tkipdemic
  | is_crypto_tkipcm | is_crypto_ccmp | is_crypto_wep
  | is_crypto_setkey_cipher | is_crypto_setkey_nokey | is_crypto_delkey | is_crypto_badcipher
  | is_crypto_nocipher | is_crypto_attachfail | is_crypto_swfallback | is_crypto_keyfail
  | is_rx_mgtdiscard | is_rx_elem_missing | is_rx_elem_toobig | is_rx_elem_toosmall | is_rx_elem_unknown
  | is_rx_badchan | is_rx_chanmismatch | is_rx_badbintval | is_rx_ssidmismatch
  | is_rx_assoc_bss | is_rx_assoc_notauth | is_rx_assoc_badwpaie | is_rx_assoc_capmismatch | is_rx_assoc_norate
  | is_rx_auth_fail | is_rx_rstoobig
  | is_rx_nodealloc | is_rx_bad_auth | is_rx_acl | is_rx_auth_unsupported | is_rx_auth_countermeasures
  | is_ps_unassoc | is_ps_badaid | is_ps_qempty

text \<open>The messages sent on the routing socket by \<open>rt_ieee80211msg\<close>.\<close>

datatype event =
    ev_replay bytes bytes u8 u8 u64 u64
  | ev_michael bytes bytes u8 u8

record com =
  ic_ifp :: bool
  ic_flags :: u32
  ic_caps :: u32
  ic_stats :: "stat \<Rightarrow> u32"
  ic_events :: "event list"

definition inc_stat :: "stat \<Rightarrow> 'a com_scheme \<Rightarrow> 'a com_scheme" where
  "inc_stat s ic = ic\<lparr>ic_stats := (ic_stats ic)(s := ic_stats ic s + 1)\<rparr>"

definition rt_ieee80211msg :: "event \<Rightarrow> 'a com_scheme \<Rightarrow> 'a com_scheme" where
  "rt_ieee80211msg e ic = ic\<lparr>ic_events := ic_events ic @ [e]\<rparr>"

lemma inc_stat_simps [simp]:
  "ic_ifp (inc_stat s ic) = ic_ifp ic" "ic_flags (inc_stat s ic) = ic_flags ic"
  "ic_caps (inc_stat s ic) = ic_caps ic" "ic_events (inc_stat s ic) = ic_events ic"
  "ic_stats (inc_stat s ic) t = (if t = s then ic_stats ic s + 1 else ic_stats ic t)"
  by (simp_all add: inc_stat_def)

lemma rt_ieee80211msg_simps [simp]:
  "ic_ifp (rt_ieee80211msg e ic) = ic_ifp ic" "ic_flags (rt_ieee80211msg e ic) = ic_flags ic"
  "ic_caps (rt_ieee80211msg e ic) = ic_caps ic" "ic_stats (rt_ieee80211msg e ic) = ic_stats ic"
  "ic_events (rt_ieee80211msg e ic) = ic_events ic @ [e]"
  by (simp_all add: rt_ieee80211msg_def)

subsection \<open>Keys and cipher templates\<close>

definition IEEE80211_WEP_IVLEN :: nat where "IEEE80211_WEP_IVLEN = 3"
definition IEEE80211_WEP_KIDLEN :: nat where "IEEE80211_WEP_KIDLEN = 1"
definition IEEE80211_WEP_CRCLEN :: nat where "IEEE80211_WEP_CRCLEN = 4"
definition IEEE80211_WEP_NKID :: nat where "IEEE80211_WEP_NKID = 4"
definition IEEE80211_WEP_EXTIV :: u8 where "IEEE80211_WEP_EXTIV = 0x20"
definition IEEE80211_WEP_EXTIVLEN :: nat where "IEEE80211_WEP_EXTIVLEN = 4"
definition IEEE80211_WEP_MICLEN :: nat where "IEEE80211_WEP_MICLEN = 8"
definition IEEE80211_KEYBUF_SIZE :: nat where "IEEE80211_KEYBUF_SIZE = 16"
definition IEEE80211_MICBUF_SIZE :: nat where "IEEE80211_MICBUF_SIZE = 16"

lemmas wep_lens = IEEE80211_WEP_IVLEN_def IEEE80211_WEP_KIDLEN_def IEEE80211_WEP_CRCLEN_def
  IEEE80211_WEP_EXTIVLEN_def IEEE80211_WEP_MICLEN_def IEEE80211_KEYBUF_SIZE_def
  IEEE80211_MICBUF_SIZE_def

definition IEEE80211_KEY_XMIT :: u16 where "IEEE80211_KEY_XMIT = 0x01"
definition IEEE80211_KEY_RECV :: u16 where "IEEE80211_KEY_RECV = 0x02"
definition IEEE80211_KEY_GROUP :: u16 where "IEEE80211_KEY_GROUP = 0x04"
definition IEEE80211_KEY_SWCRYPT :: u16 where "IEEE80211_KEY_SWCRYPT = 0x10"
definition IEEE80211_KEY_SWMIC :: u16 where "IEEE80211_KEY_SWMIC = 0x20"
definition IEEE80211_KEY_COMMON :: u16 where
  "IEEE80211_KEY_COMMON = IEEE80211_KEY_XMIT OR IEEE80211_KEY_RECV OR IEEE80211_KEY_GROUP"
definition IEEE80211_KEYIX_NONE :: u16 where "IEEE80211_KEYIX_NONE = 0xffff"

lemmas key_flag_defs = IEEE80211_KEY_XMIT_def IEEE80211_KEY_RECV_def IEEE80211_KEY_GROUP_def
  IEEE80211_KEY_SWCRYPT_def IEEE80211_KEY_SWMIC_def IEEE80211_KEY_COMMON_def

text \<open>The cipher templates of the sources; a \<open>wk_cipher\<close> pointer refers to one of them.\<close>

datatype cipher = cipher_none | cipher_wep | cipher_tkip | cipher_ccmp

definition IEEE80211_CIPHER_WEP :: nat where "IEEE80211_CIPHER_WEP = 0"
definition IEEE80211_CIPHER_TKIP :: nat where "IEEE80211_CIPHER_TKIP = 1"
definition IEEE80211_CIPHER_AES_CCM :: nat where "IEEE80211_CIPHER_AES_CCM = 3"
definition IEEE80211_CIPHER_NONE :: nat where "IEEE80211_CIPHER_NONE = 6"
definition IEEE80211_CIPHER_MAX :: nat where "IEEE80211_CIPHER_MAX = IEEE80211_CIPHER_NONE + 1"

lemmas cipher_index_defs = IEEE80211_CIPHER_WEP_def IEEE80211_CIPHER_TKIP_def
  IEEE80211_CIPHER_AES_CCM_def IEEE80211_CIPHER_NONE_def IEEE80211_CIPHER_MAX_def

primrec ic_cipher :: "cipher \<Rightarrow> nat" where
  "ic_cipher cipher_none = IEEE80211_CIPHER_NONE"
| "ic_cipher cipher_wep = IEEE80211_CIPHER_WEP"
| "ic_cipher cipher_tkip = IEEE80211_CIPHER_TKIP"
| "ic_cipher cipher_ccmp = IEEE80211_CIPHER_AES_CCM"

primrec ic_header :: "cipher \<Rightarrow> nat" where
  "ic_header cipher_none = 0"
| "ic_header cipher_wep = IEEE80211_WEP_IVLEN + IEEE80211_WEP_KIDLEN"
| "ic_header cipher_tkip = IEEE80211_WEP_IVLEN + IEEE80211_WEP_KIDLEN + IEEE80211_WEP_EXTIVLEN"
| "ic_header cipher_ccmp = IEEE80211_WEP_IVLEN + IEEE80211_WEP_KIDLEN + IEEE80211_WEP_EXTIVLEN"

primrec ic_trailer :: "cipher \<Rightarrow> nat" where
  "ic_trailer cipher_none = 0"
| "ic_trailer cipher_wep = IEEE80211_WEP_CRCLEN"
| "ic_trailer cipher_tkip = IEEE80211_WEP_CRCLEN"
| "ic_trailer cipher_ccmp = IEEE80211_WEP_MICLEN"

primrec ic_miclen :: "cipher \<Rightarrow> nat" where
  "ic_miclen cipher_none = 0"
| "ic_miclen cipher_wep = 0"
| "ic_miclen cipher_tkip = IEEE80211_WEP_MICLEN"
| "ic_miclen cipher_ccmp = 0"

lemma header_le: "ic_header c \<le> 8" "ic_trailer c \<le> 8"
  by (cases c; simp add: wep_lens)+

record ieee80211_key =
  wk_keylen :: nat
  wk_flags :: u16
  wk_keyix :: u16
  wk_rxkeyix :: u16
  wk_key :: bytes
  wk_keyrsc :: u64
  wk_keytsc :: u64
  wk_cipher :: cipher

definition wk_txmic :: "'a ieee80211_key_scheme \<Rightarrow> bytes" where
  "wk_txmic k = take 8 (drop IEEE80211_KEYBUF_SIZE (wk_key k))"

definition wk_rxmic :: "'a ieee80211_key_scheme \<Rightarrow> bytes" where
  "wk_rxmic k = take 8 (drop (IEEE80211_KEYBUF_SIZE + 8) (wk_key k))"

text \<open>A key buffer holds the key and both MIC keys, and the key fits its part.\<close>

definition wf_key :: "'a ieee80211_key_scheme \<Rightarrow> bool" where
  "wf_key k \<longleftrightarrow> length (wk_key k) = IEEE80211_KEYBUF_SIZE + IEEE80211_MICBUF_SIZE \<and>
     wk_keylen k \<le> IEEE80211_KEYBUF_SIZE"

definition swcrypt :: "'a ieee80211_key_scheme \<Rightarrow> bool" where
  "swcrypt k \<longleftrightarrow> has_flag (wk_flags k) IEEE80211_KEY_SWCRYPT"

definition swmic :: "'a ieee80211_key_scheme \<Rightarrow> bool" where
  "swmic k \<longleftrightarrow> has_flag (wk_flags k) IEEE80211_KEY_SWMIC"

text \<open>A device and a software key, for the examples of the cipher theories.\<close>

definition ex_com :: com where
  "ex_com = \<lparr>ic_ifp = True, ic_flags = 0, ic_caps = 0, ic_stats = (\<lambda>_. 0), ic_events = []\<rparr>"

definition ex_key :: ieee80211_key where
  "ex_key = \<lparr>wk_keylen = 16, wk_flags = IEEE80211_KEY_SWCRYPT OR IEEE80211_KEY_SWMIC, wk_keyix = 0,
     wk_rxkeyix = IEEE80211_KEYIX_NONE, wk_key = replicate 32 7, wk_keyrsc = 0, wk_keytsc = 1,
     wk_cipher = cipher_none\<rparr>"

lemma ex_key_simps [simp]: "swcrypt ex_key" "swmic ex_key" "wf_key ex_key"
  by (simp_all add: swcrypt_def swmic_def wf_key_def ex_key_def key_flag_defs has_flag_def wep_lens)

lemma ex_hdrspace: "ieee80211_hdrspace (ic_flags ex_com) (mtod (packet_of (8 # 0 # bs))) = 24"
  "ieee80211_hdrspace (ic_flags ex_com) (mtod (packet_of (8 # replicate 27 0 @ bs))) = 24"
  by (simp_all add: ieee80211_hdrspace_def ex_com_def has_flag_def mtod_def packet_of_def
      ieee80211_hdrsize_def i_fc_def ieee80211_has_qos_def fc_defs sizeof_frame_def nth_append)

subsection \<open>Notifications\<close>

definition ieee80211_notify_replay_failure ::
  "bytes \<Rightarrow> 'a ieee80211_key_scheme \<Rightarrow> u64 \<Rightarrow> 'b com_scheme \<Rightarrow> 'b com_scheme" where
  "ieee80211_notify_replay_failure wh k rsc ic =
     (if ic_ifp ic
      then rt_ieee80211msg
        (ev_replay (i_addr1 wh) (i_addr2 wh) (of_nat (ic_cipher (wk_cipher k)))
          (ucast (if wk_rxkeyix k \<noteq> IEEE80211_KEYIX_NONE then wk_rxkeyix k else wk_keyix k))
          (wk_keyrsc k) rsc) ic
      else ic)"

definition ieee80211_notify_michael_failure ::
  "bytes \<Rightarrow> u16 \<Rightarrow> 'b com_scheme \<Rightarrow> 'b com_scheme" where
  "ieee80211_notify_michael_failure wh keyix ic =
     (let ic1 = inc_stat is_rx_tkipmic ic
      in if ic_ifp ic1
         then rt_ieee80211msg
           (ev_michael (i_addr1 wh) (i_addr2 wh) (of_nat IEEE80211_CIPHER_TKIP) (ucast keyix)) ic1
         else ic1)"

lemma notify_simps [simp]:
  "ic_flags (ieee80211_notify_replay_failure wh k rsc ic) = ic_flags ic"
  "ic_caps (ieee80211_notify_replay_failure wh k rsc ic) = ic_caps ic"
  "ic_flags (ieee80211_notify_michael_failure wh kx ic) = ic_flags ic"
  "ic_caps (ieee80211_notify_michael_failure wh kx ic) = ic_caps ic"
  by (simp_all add: ieee80211_notify_replay_failure_def ieee80211_notify_michael_failure_def Let_def)

end
