(* ===== verification/Rc4.thy ===== *)
theory Rc4
  imports Com
begin

text \<open>
  The stream processing shared by the WEP and TKIP modules
  (\<open>ieee80211_crypto_wep.c\<close>, \<open>ieee80211_crypto_tkip.c\<close>): the RC4 generator, the
  table-driven CRC-32, the step each loop makes on a byte, and the loop over the buffers of
  a chain.  The locale \<open>stream_codec\<close> carries the argument that decryption undoes
  encryption over any split of the data into buffers.
\<close>

subsection \<open>RC4\<close>

record rc4 =
  rc_S :: bytes
  rc_i :: u32
  rc_j :: u32

definition S_SWAP :: "nat \<Rightarrow> nat \<Rightarrow> bytes \<Rightarrow> bytes" where
  "S_SWAP a b S = S[a := S ! b, b := S ! a]"

definition rc4_setup_step :: "bytes \<Rightarrow> nat \<Rightarrow> nat \<Rightarrow> u32 \<times> bytes \<Rightarrow> u32 \<times> bytes" where
  "rc4_setup_step rc4key keylen i js =
     (case js of (j, S) \<Rightarrow>
        let j' = (j + ucast (S ! i) + ucast (rc4key ! (i mod keylen))) AND 0xff
        in (j', S_SWAP i (unat j') S))"

definition rc4_setup :: "bytes \<Rightarrow> nat \<Rightarrow> rc4" where
  "rc4_setup rc4key keylen =
     \<lparr>rc_S = snd (fold (rc4_setup_step rc4key keylen) [0..<256] (0, map of_nat [0..<256])),
      rc_i = 0, rc_j = 0\<rparr>"

definition rc4_next :: "rc4 \<Rightarrow> u8 \<times> rc4" where
  "rc4_next r =
     (let i = (rc_i r + 1) AND 0xff;
          j = (rc_j r + ucast (rc_S r ! unat i)) AND 0xff;
          S = S_SWAP (unat i) (unat j) (rc_S r);
          k = S ! unat ((ucast (S ! unat i) + ucast (S ! unat j) :: u32) AND 0xff)
      in (k, \<lparr>rc_S = S, rc_i = i, rc_j = j\<rparr>))"

definition rc4_xor :: "rc4 \<Rightarrow> u8 \<Rightarrow> rc4 \<times> u8" where
  "rc4_xor r b = (case rc4_next r of (k, r') \<Rightarrow> (r', b XOR k))"

subsection \<open>CRC-32\<close>

definition crc32_table :: "u32 list" where
  "crc32_table =
    [0x00000000, 0x77073096, 0xee0e612c, 0x990951ba, 0x076dc419, 0x706af48f, 0xe963a535,
     0x9e6495a3, 0x0edb8832, 0x79dcb8a4, 0xe0d5e91e, 0x97d2d988, 0x09b64c2b, 0x7eb17cbd,
     0xe7b82d07, 0x90bf1d91, 0x1db71064, 0x6ab020f2, 0xf3b97148, 0x84be41de, 0x1adad47d,
     0x6ddde4eb, 0xf4d4b551, 0x83d385c7, 0x136c9856, 0x646ba8c0, 0xfd62f97a, 0x8a65c9ec,
     0x14015c4f, 0x63066cd9, 0xfa0f3d63, 0x8d080df5, 0x3b6e20c8, 0x4c69105e, 0xd56041e4,
     0xa2677172, 0x3c03e4d1, 0x4b04d447, 0xd20d85fd, 0xa50ab56b, 0x35b5a8fa, 0x42b2986c,
     0xdbbbc9d6, 0xacbcf940, 0x32d86ce3, 0x45df5c75, 0xdcd60dcf, 0xabd13d59, 0x26d930ac,
     0x51de003a, 0xc8d75180, 0xbfd06116, 0x21b4f4b5, 0x56b3c423, 0xcfba9599, 0xb8bda50f,
     0x2802b89e, 0x5f058808, 0xc60cd9b2, 0xb10be924, 0x2f6f7c87, 0x58684c11, 0xc1611dab,
     0xb6662d3d, 0x76dc4190, 0x01db7106, 0x98d220bc, 0xefd5102a, 0x71b18589, 0x06b6b51f,
     0x9fbfe4a5, 0xe8b8d433, 0x7807c9a2, 0x0f00f934, 0x9609a88e, 0xe10e9818, 0x7f6a0dbb,
     0x086d3d2d, 0x91646c97, 0xe6635c01, 0x6b6b51f4, 0x1c6c6162, 0x856530d8, 0xf262004e,
     0x6c0695ed, 0x1b01a57b, 0x8208f4c1, 0xf50fc457, 0x65b0d9c6, 0x12b7e950, 0x8bbeb8ea,
     0xfcb9887c, 0x62dd1ddf, 0x15da2d49, 0x8cd37cf3, 0xfbd44c65, 0x4db26158, 0x3ab551ce,
     0xa3bc0074, 0xd4bb30e2, 0x4adfa541, 0x3dd895d7, 0xa4d1c46d, 0xd3d6f4fb, 0x4369e96a,
     0x346ed9fc, 0xad678846, 0xda60b8d0, 0x44042d73, 0x33031de5, 0xaa0a4c5f, 0xdd0d7cc9,
     0x5005713c, 0x270241aa, 0xbe0b1010, 0xc90c2086, 0x5768b525, 0x206f85b3, 0xb966d409,
     0xce61e49f, 0x5edef90e, 0x29d9c998, 0xb0d09822, 0xc7d7a8b4, 0x59b33d17, 0x2eb40d81,
     0xb7bd5c3b, 0xc0ba6cad, 0xedb88320, 0x9abfb3b6, 0x03b6e20c, 0x74b1d29a, 0xead54739,
     0x9dd277af, 0x04db2615, 0x73dc1683, 0xe3630b12, 0x94643b84, 0x0d6d6a3e, 0x7a6a5aa8,
     0xe40ecf0b, 0x9309ff9d, 0x0a00ae27, 0x7d079eb1, 0xf00f9344, 0x8708a3d2, 0x1e01f268,
     0x6906c2fe, 0xf762575d, 0x806567cb, 0x196c3671, 0x6e6b06e7, 0xfed41b76, 0x89d32be0,
     0x10da7a5a, 0x67dd4acc, 0xf9b9df6f, 0x8ebeeff9, 0x17b7be43, 0x60b08ed5, 0xd6d6a3e8,
     0xa1d1937e, 0x38d8c2c4, 0x4fdff252, 0xd1bb67f1, 0xa6bc5767, 0x3fb506dd, 0x48b2364b,
     0xd80d2bda, 0xaf0a1b4c, 0x36034af6, 0x41047a60, 0xdf60efc3, 0xa867df55, 0x316e8eef,
     0x4669be79, 0xcb61b38c, 0xbc66831a, 0x256fd2a0, 0x5268e236, 0xcc0c7795, 0xbb0b4703,
     0x220216b9, 0x5505262f, 0xc5ba3bbe, 0xb2bd0b28, 0x2bb45a92, 0x5cb36a04, 0xc2d7ffa7,
     0xb5d0cf31, 0x2cd99e8b, 0x5bdeae1d, 0x9b64c2b0, 0xec63f226, 0x756aa39c, 0x026d930a,
     0x9c0906a9, 0xeb0e363f, 0x72076785, 0x05005713, 0x95bf4a82, 0xe2b87a14, 0x7bb12bae,
     0x0cb61b38, 0x92d28e9b, 0xe5d5be0d, 0x7cdcefb7, 0x0bdbdf21, 0x86d3d2d4, 0xf1d4e242,
     0x68ddb3f8, 0x1fda836e, 0x81be16cd, 0xf6b9265b, 0x6fb077e1, 0x18b74777, 0x88085ae6,
     0xff0f6a70, 0x66063bca, 0x11010b5c, 0x8f659eff, 0xf862ae69, 0x616bffd3, 0x166ccf45,
     0xa00ae278, 0xd70dd2ee, 0x4e048354, 0x3903b3c2, 0xa7672661, 0xd06016f7, 0x4969474d,
     0x3e6e77db, 0xaed16a4a, 0xd9d65adc, 0x40df0b66, 0x37d83bf0, 0xa9bcae53, 0xdebb9ec5,
     0x47b2cf7f, 0x30b5ffe9, 0xbdbdf21c, 0xcabac28a, 0x53b39330, 0x24b4a3a6, 0xbad03605,
     0xcdd70693, 0x54de5729, 0x23d967bf, 0xb3667a2e, 0xc4614ab8, 0x5d681b02, 0x2a6f2b94,
     0xb40bbe37, 0xc30c8ea1, 0x5a05df1b, 0x2d02ef8d]"

definition crc32_step :: "u32 \<Rightarrow> u8 \<Rightarrow> u32" where
  "crc32_step crc b = crc32_table ! unat ((crc XOR ucast b) AND 0xff) XOR drop_bit 8 crc"

subsection \<open>The step on one byte\<close>

definition wep_enc_byte :: "u32 \<times> rc4 \<Rightarrow> u8 \<Rightarrow> (u32 \<times> rc4) \<times> u8" where
  "wep_enc_byte s b =
     (case s of (crc, r) \<Rightarrow> case rc4_next r of (k, r') \<Rightarrow> ((crc32_step crc b, r'), b XOR k))"

definition wep_dec_byte :: "u32 \<times> rc4 \<Rightarrow> u8 \<Rightarrow> (u32 \<times> rc4) \<times> u8" where
  "wep_dec_byte s b =
     (case s of (crc, r) \<Rightarrow> case rc4_next r of (k, r') \<Rightarrow>
        let b' = b XOR k in ((crc32_step crc b', r'), b'))"

subsection \<open>The loop over the buffers of a chain\<close>

text \<open>
  \<open>pos\<close> is the offset of the position pointer in the first buffer, \<open>buflen\<close> the bytes to do
  in it and \<open>data_len\<close> the bytes to do in all.  The result holds the final state, the bytes
  left undone, the offset of the position pointer in the last buffer and the chain.
\<close>

fun crypt_loop ::
  "('s \<Rightarrow> u8 \<Rightarrow> 's \<times> u8) \<Rightarrow> 's \<Rightarrow> nat \<Rightarrow> nat \<Rightarrow> nat \<Rightarrow> chain \<Rightarrow> 's \<times> nat \<times> nat \<times> chain" where
  "crypt_loop f s pos buflen data_len [] = (s, data_len, pos, [])"
| "crypt_loop f s pos buflen data_len (m # ms) =
     (let n = (if buflen > data_len then data_len else buflen);
          (s', out) = map_state f s (take n (drop pos (m_bytes m)));
          m' = m\<lparr>m_cluster := put_at (m_data m + pos) out (m_cluster m)\<rparr>
      in if ms = [] then (s', data_len - n, pos + n, [m'])
         else let (s'', d, p, ms') = crypt_loop f s' 0 (m_len (hd ms)) (data_len - n) ms
              in (s'', d, p, m' # ms'))"

subsection \<open>Encrypting and decrypting the data of a frame\<close>

text \<open>
  The part the two modules have in common: from a generator state, run the loop over the
  data and derive the integrity check value, which the encryption returns and the
  decryption compares with the bytes at the position pointer.  A read beyond the cluster
  counts as a mismatch.
\<close>

definition rc4_encrypt :: "rc4 \<Rightarrow> chain \<Rightarrow> nat \<Rightarrow> nat \<Rightarrow> nat \<times> bytes \<times> chain" where
  "rc4_encrypt r m0 off data_len =
     (let ((crc, r'), left, pos, m1) =
            crypt_loop wep_enc_byte (- 1, r) off (uint_sub (front_len m0) off) data_len m0
      in (left, snd (map_state rc4_xor r' (le32enc (NOT crc))), m1))"

definition rc4_decrypt :: "rc4 \<Rightarrow> chain \<Rightarrow> nat \<Rightarrow> nat \<Rightarrow> nat \<times> bool \<times> chain" where
  "rc4_decrypt r m0 off data_len =
     (let ((crc, r'), left, pos, m1) =
            crypt_loop wep_dec_byte (- 1, r) off (uint_sub (front_len m0) off) data_len m0;
          icv = snd (map_state rc4_xor r' (le32enc (NOT crc)))
      in (left, icv = take 4 (drop (m_data (last m1) + pos) (m_cluster (last m1))), m1))"

subsection \<open>The loop on the bytes of the chain\<close>

text \<open>
  Whatever the split into buffers, the loop transforms the bytes from \<open>pos\<close> on, as many as
  \<open>data_len\<close> allows, and nothing else.
\<close>

lemma crypt_loop_Cons:
  assumes "n = min buflen data_len" "map_state f s (take n (drop pos (m_bytes m))) = (s1, o1)"
    and "m' = m\<lparr>m_cluster := put_at (m_data m + pos) o1 (m_cluster m)\<rparr>"
  shows "crypt_loop f s pos buflen data_len (m # ms) =
    (if ms = [] then (s1, data_len - n, pos + n, [m'])
     else case crypt_loop f s1 0 (m_len (hd ms)) (data_len - n) ms of
            (s2, d, p, ms') \<Rightarrow> (s2, d, p, m' # ms'))"
proof -
  have "(if buflen > data_len then data_len else buflen) = n" using assms(1) by auto
  then show ?thesis using assms(2,3) by (simp add: Let_def)
qed

declare crypt_loop.simps(2) [simp del]

lemma crypt_loop_spec:
  assumes "wf_chain ms" "ms \<noteq> []" "pos \<le> m_len (hd ms)"
    and "map_state f s (take data_len (drop pos (chain_bytes ms))) = (s', out)"
  shows "\<exists>p ms'. crypt_loop f s pos (m_len (hd ms) - pos) data_len ms
      = (s', data_len - (chain_len ms - pos), p, ms') \<and>
    chain_bytes ms' = put_at pos out (chain_bytes ms) \<and> chain_shape ms' = chain_shape ms"
  using assms
proof (induction ms arbitrary: s pos data_len out s')
  case (Cons m ms)
  define n where "n = min (m_len m - pos) data_len"
  have wf: "wf_mbuf m" "wf_chain ms" and pos: "pos \<le> m_len m" using Cons.prems by simp_all
  define d1 where "d1 = take n (drop pos (m_bytes m))"
  define d2 where "d2 = take (data_len - n) (chain_bytes ms)"
  have split: "take data_len (drop pos (chain_bytes (m # ms))) = d1 @ d2"
    using wf pos by (simp add: d1_def d2_def n_def min_def)
  obtain s1 o1 where st1: "map_state f s d1 = (s1, o1)" by fastforce
  obtain s2 o2 where st2: "map_state f s1 d2 = (s2, o2)" by fastforce
  have res: "s' = s2" "out = o1 @ o2"
    using Cons.prems(4) unfolding split by (simp_all add: map_state_append st1 st2)
  have len1: "length o1 = n"
    using length_map_stateD [OF st1] wf pos by (auto simp: d1_def n_def)
  have fits: "pos + length o1 \<le> m_len m" using len1 pos by (auto simp: n_def)
  define m' where "m' = m\<lparr>m_cluster := put_at (m_data m + pos) o1 (m_cluster m)\<rparr>"
  have m': "m_bytes m' = put_at pos o1 (m_bytes m)" "mbuf_shape m' = mbuf_shape m"
    using wf(1) fits by (simp_all add: m'_def m_bytes_write wf_mbuf_def)
  note step = crypt_loop_Cons [OF n_def st1 [unfolded d1_def] m'_def]
  show ?case
  proof (cases ms)
    case Nil
    then have "o2 = []" "s2 = s1" using st2 by (simp_all add: d2_def)
    moreover have "data_len - n = data_len - (m_len m - pos)" by (simp add: n_def)
    ultimately show ?thesis using Nil m' res by (simp add: step)
  next
    case (Cons m2 ms2)
    have IH: "\<exists>p ms'. crypt_loop f s1 0 (m_len (hd ms) - 0) (data_len - n) ms
        = (s2, data_len - n - (chain_len ms - 0), p, ms') \<and>
        chain_bytes ms' = put_at 0 o2 (chain_bytes ms) \<and> chain_shape ms' = chain_shape ms"
      by (rule Cons.IH) (use wf Cons st2 in \<open>simp_all add: d2_def\<close>)
    then obtain p ms' where loop: "crypt_loop f s1 0 (m_len (hd ms)) (data_len - n) ms
          = (s2, data_len - n - chain_len ms, p, ms')"
        and ms': "chain_bytes ms' = put_at 0 o2 (chain_bytes ms)" "chain_shape ms' = chain_shape ms"
      by auto
    have "put_at pos o1 (m_bytes m) @ put_at 0 o2 (chain_bytes ms)
        = put_at pos (o1 @ o2) (m_bytes m @ chain_bytes ms)"
    proof (cases "o2 = []")
      case True
      then show ?thesis using fits wf by (simp add: put_at_append_left)
    next
      case False
      then have "d2 \<noteq> []" using length_map_stateD [OF st2] by auto
      then have "n = m_len m - pos" by (auto simp: d2_def n_def min_def split: if_splits)
      then show ?thesis using len1 pos wf by (simp add: put_at_def add.commute)
    qed
    moreover have "data_len - n - chain_len ms = data_len - (m_len m + chain_len ms - pos)"
      using pos by (auto simp: n_def)
    ultimately show ?thesis
      using Cons loop ms' m' res by (simp add: step)
  qed
qed simp

text \<open>Where the loop leaves the position pointer: in front of the bytes that follow the data.\<close>

lemma crypt_loop_pos:
  assumes "crypt_loop f s pos (m_len (hd ms) - pos) data_len ms = (s', d, p, ms')"
    and "ms \<noteq> []" "pos \<le> m_len (hd ms)" "pos + data_len + r = chain_len ms" "r \<le> m_len (last ms)"
  shows "p + r = m_len (last ms)"
  using assms
proof (induction ms arbitrary: s pos data_len s' d p ms')
  case (Cons m ms)
  show ?case
  proof (cases "ms = []")
    case True
    then show ?thesis
      using Cons.prems by (auto simp: crypt_loop.simps(2) Let_def split: prod.splits if_splits)
  next
    case False
    define n where "n = min (m_len m - pos) data_len"
    have le: "m_len (last ms) \<le> chain_len ms"
      using False by (induction ms) auto
    then have "m_len m \<le> data_len + pos" using Cons.prems(3-5) False by simp
    then have n: "n = m_len m - pos" "data_len - n + r = chain_len ms"
      using Cons.prems(3,4) by (simp_all add: n_def)
    obtain s1 o1 where st1: "map_state f s (take n (drop pos (m_bytes m))) = (s1, o1)" by fastforce
    obtain s2 d2 p2 ms2 where
      "crypt_loop f s1 0 (m_len (hd ms)) (data_len - n) ms = (s2, d2, p2, ms2)"
      by (metis prod_cases4)
    moreover from this have "p2 = p"
      using Cons.prems(1) False by (simp add: crypt_loop_Cons [OF n_def st1 refl])
    ultimately show ?thesis
      using Cons.IH [of s1 0 "data_len - n" s2 d2 p2 ms2] Cons.prems(5) False n(2) by simp
  qed
qed simp

lemma chain_tail_bytes:
  assumes "wf_chain ms" "ms \<noteq> []" "p + r = m_len (last ms)"
  shows "take r (drop (m_data (last ms) + p) (m_cluster (last ms)))
    = drop (chain_len ms - r) (chain_bytes ms)"
proof -
  obtain xs m where ms: "ms = xs @ [m]" using assms(2) by (cases ms rule: rev_cases) auto
  then have len: "p + r = m_len m" and wf: "wf_chain xs" "wf_mbuf m" using assms by simp_all
  have "chain_len xs + m_len m - r = chain_len xs + p" using len by simp
  then have "drop (chain_len ms - r) (chain_bytes ms) = drop p (m_bytes m)"
    using wf by (simp add: ms)
  moreover have "drop p (m_bytes m) = take r (drop (m_data m + p) (m_cluster m))"
    using len by (simp add: m_bytes_def drop_take add.commute)
      (metis add_diff_cancel_left')
  ultimately show ?thesis by (simp add: ms)
qed

subsection \<open>A stream encoder and its decoder\<close>

text \<open>
  The contract between the two byte steps of a cipher: run from the same state, the decoder
  returns the byte the encoder consumed and both reach the same state.
\<close>

locale stream_codec =
  fixes enc :: "'s \<Rightarrow> u8 \<Rightarrow> 's \<times> u8"
    and dec :: "'s \<Rightarrow> u8 \<Rightarrow> 's \<times> u8"
  assumes dec_enc: "enc s x = (s', y) \<Longrightarrow> dec s y = (s', x)"
begin

lemma dec_enc_bytes: "map_state enc s xs = (s', ys) \<Longrightarrow> map_state dec s ys = (s', xs)"
  by (rule map_state_inverse) (rule dec_enc)

text \<open>
  Encoding the bytes from \<open>pos\<close> on in one chain and decoding them in any other chain with
  the encoded bytes, followed by a trailer of \<open>r\<close> bytes, restores them.
\<close>

lemma chain_codec:
  assumes "wf_chain ms" "ms \<noteq> []" "pos \<le> m_len (hd ms)"
    and "crypt_loop enc s pos (m_len (hd ms) - pos) (chain_len ms - pos) ms = (s1, left, p, ms1)"
    and "wf_chain ms2" "ms2 \<noteq> []" "pos \<le> m_len (hd ms2)" "chain_bytes ms2 = chain_bytes ms1 @ t"
  shows "left = 0 \<and> chain_shape ms1 = chain_shape ms \<and>
    (\<exists>p2 ms3. crypt_loop dec s pos (m_len (hd ms2) - pos) (chain_len ms2 - pos - length t) ms2
       = (s1, 0, p2, ms3) \<and> chain_bytes ms3 = chain_bytes ms @ t \<and> chain_shape ms3 = chain_shape ms2)"
proof -
  define xs where "xs = drop pos (chain_bytes ms)"
  obtain s' ys where st: "map_state enc s xs = (s', ys)" by fastforce
  have le: "pos \<le> chain_len ms" using assms(2,3) by (cases ms) auto
  have lx: "length xs = chain_len ms - pos" using assms(1) by (simp add: xs_def)
  have ly: "length ys = length xs" using length_map_stateD [OF st] .
  have "map_state enc s (take (chain_len ms - pos) (drop pos (chain_bytes ms))) = (s', ys)"
    using st lx by (simp add: xs_def)
  from crypt_loop_spec [OF assms(1-3) this] assms(4)
  have r: "s1 = s'" "left = 0" "chain_bytes ms1 = put_at pos ys (chain_bytes ms)"
      "chain_shape ms1 = chain_shape ms" by auto
  have b1: "chain_bytes ms1 = take pos (chain_bytes ms) @ ys"
    using lx ly le assms(1) by (simp add: r(3) put_at_def)
  have len2: "chain_len ms2 = chain_len ms + length t"
    using arg_cong [OF assms(8), of length] lx ly le assms(1,5) by (simp add: b1)
  have "take (chain_len ms2 - pos - length t) (drop pos (chain_bytes ms2)) = ys"
    using lx ly le assms(1) by (simp add: assms(8) b1 len2)
  then have "map_state dec s (take (chain_len ms2 - pos - length t) (drop pos (chain_bytes ms2))) = (s', xs)"
    using dec_enc_bytes [OF st] by simp
  from crypt_loop_spec [OF assms(5-7) this]
  obtain p2 ms3 where l3: "crypt_loop dec s pos (m_len (hd ms2) - pos) (chain_len ms2 - pos - length t) ms2
        = (s', chain_len ms2 - pos - length t - (chain_len ms2 - pos), p2, ms3)"
      "chain_bytes ms3 = put_at pos xs (chain_bytes ms2)" "chain_shape ms3 = chain_shape ms2"
    by blast
  have "chain_bytes ms3 = chain_bytes ms @ t"
    using lx ly le assms(1) by (simp add: l3(2) assms(8) b1 put_at_def xs_def)
  then show ?thesis using l3 r by auto
qed

end

lemma wep_dec_enc: "wep_enc_byte s x = (s', y) \<Longrightarrow> wep_dec_byte s y = (s', x)"
  by (auto simp: wep_enc_byte_def wep_dec_byte_def split: prod.splits)

interpretation wep_stream: stream_codec wep_enc_byte wep_dec_byte
  by unfold_locales (rule wep_dec_enc)

lemma rc4_xor_xor: "rc4_xor r x = (r', y) \<Longrightarrow> rc4_xor r y = (r', x)"
  by (auto simp: rc4_xor_def split: prod.splits)

interpretation rc4_stream: stream_codec rc4_xor rc4_xor
  by unfold_locales (rule rc4_xor_xor)

text \<open>
  Encrypting the data of a frame from \<open>off\<close> on and decrypting it in a chain that carries the
  same bytes and the check value, with the check value in one buffer.
\<close>

lemma rc4_frame:
  assumes "wf_packet ms" "off \<le> front_len ms"
    and enc: "rc4_encrypt r ms off (pkt_len ms - off) = (left, icv, ms1)"
  shows "left = 0" "length icv = 4" "chain_shape ms1 = chain_shape ms"
    and "take off (chain_bytes ms1) = take off (chain_bytes ms)"
    and "\<lbrakk>wf_packet ms2; off \<le> front_len ms2; chain_bytes ms2 = chain_bytes ms1 @ icv;
          4 \<le> m_len (last ms2)\<rbrakk> \<Longrightarrow>
         \<exists>ms3. rc4_decrypt r ms2 off (pkt_len ms2 - off - 4) = (0, True, ms3) \<and>
           chain_bytes ms3 = chain_bytes ms @ icv \<and> chain_shape ms3 = chain_shape ms2"
proof -
  note wf = wf_packetD [OF assms(1)]
  have plen: "pkt_len ms = chain_len ms" using assms(1) wf by (simp add: pkt_len_bytes)
  obtain crc r' p where
    loop: "crypt_loop wep_enc_byte (- 1, r) off (front_len ms - off) (chain_len ms - off) ms
        = ((crc, r'), left, p, ms1)"
    and icv: "icv = snd (map_state rc4_xor r' (le32enc (NOT crc)))"
    using enc assms(2) plen by (auto simp: rc4_encrypt_def split: prod.splits)
  show len: "length icv = 4" by (simp add: icv)
  have off: "off \<le> chain_len ms" using assms(2) front_len_le [OF assms(1)] wf by simp
  obtain s' out where st: "map_state wep_enc_byte (- 1, r)
      (take (chain_len ms - off) (drop off (chain_bytes ms))) = (s', out)" by fastforce
  have enc': "left = 0" "chain_shape ms1 = chain_shape ms"
      "chain_bytes ms1 = put_at off out (chain_bytes ms)"
    using crypt_loop_spec [OF wf assms(2) st] loop by auto
  then show "left = 0" "chain_shape ms1 = chain_shape ms" by simp_all
  show "take off (chain_bytes ms1) = take off (chain_bytes ms)"
    using off wf(1) by (simp add: enc'(3))
  assume ms2: "wf_packet ms2" "off \<le> front_len ms2" "chain_bytes ms2 = chain_bytes ms1 @ icv"
    and tail: "4 \<le> m_len (last ms2)"
  note wf2 = wf_packetD [OF ms2(1)]
  have plen2: "pkt_len ms2 = chain_len ms2" using ms2(1) wf2 by (simp add: pkt_len_bytes)
  from wep_stream.chain_codec [OF wf assms(2) loop wf2 ms2(2,3)] obtain p2 ms3 where
    dec: "crypt_loop wep_dec_byte (- 1, r) off (front_len ms2 - off) (chain_len ms2 - off - 4) ms2
        = ((crc, r'), 0, p2, ms3)"
    and ms3: "chain_bytes ms3 = chain_bytes ms @ icv" "chain_shape ms3 = chain_shape ms2"
    by (auto simp: len)
  have "chain_len ms2 = chain_len ms + 4"
    using arg_cong [OF ms2(3), of length] wf wf2 len chain_shape_eq [OF enc'(2)] by simp
  then have "p2 + 4 = m_len (last ms3)"
    using crypt_loop_pos [OF dec wf2(2) ms2(2) _ tail] off chain_shape_packet [OF ms3(2) ms2(1)]
    by simp
  moreover have "wf_chain ms3" "ms3 \<noteq> []" "chain_len ms3 = chain_len ms + 4"
    using chain_shape_eq [OF ms3(2)] wf2 \<open>chain_len ms2 = chain_len ms + 4\<close> by auto
  ultimately have "take 4 (drop (m_data (last ms3) + p2) (m_cluster (last ms3))) = icv"
    using chain_tail_bytes [of ms3 p2 4] wf(1) by (simp add: ms3(1))
  then show "\<exists>ms3. rc4_decrypt r ms2 off (pkt_len ms2 - off - 4) = (0, True, ms3) \<and>
      chain_bytes ms3 = chain_bytes ms @ icv \<and> chain_shape ms3 = chain_shape ms2"
    using dec ms3 ms2(2) by (simp add: rc4_decrypt_def plen2 icv)
qed

subsection \<open>The RC4 state is a permutation\<close>

text \<open>All array accesses of the generator stay inside \<open>S\<close>, which remains a permutation.\<close>

definition rc4_ok :: "rc4 \<Rightarrow> bool" where
  "rc4_ok r \<longleftrightarrow> length (rc_S r) = 256 \<and> distinct (rc_S r) \<and> unat (rc_i r) < 256 \<and> unat (rc_j r) < 256"

lemma mask8_less [simp]: "unat ((x :: u32) AND 0xff) < 256"
proof -
  have "x AND 0xff \<le> 0xff" by (rule word_and_le1)
  then show ?thesis by (simp add: word_le_nat_alt)
qed

lemma S_SWAP_perm:
  assumes "length S = 256" "distinct S" "a < 256" "b < 256"
  shows "length (S_SWAP a b S) = 256" "distinct (S_SWAP a b S)"
  using assms by (simp_all add: S_SWAP_def)

lemma rc4_setup_step_perm:
  assumes "length (snd js) = 256" "distinct (snd js)" "i < 256"
  shows "length (snd (rc4_setup_step key n i js)) = 256 \<and> distinct (snd (rc4_setup_step key n i js))"
  using assms by (cases js) (simp add: rc4_setup_step_def Let_def S_SWAP_perm)

lemma rc4_setup_ok: "rc4_ok (rc4_setup key n)"
proof -
  have "length (snd (fold (rc4_setup_step key n) is js)) = 256 \<and> distinct (snd (fold (rc4_setup_step key n) is js))"
    if "length (snd js) = 256" "distinct (snd js)" "\<forall>i\<in>set is. i < 256" for "is" js
    using that by (induction "is" arbitrary: js) (simp_all add: rc4_setup_step_perm)
  moreover have "distinct (map of_nat [0..<256] :: u8 list)"
    using inj_on_word_of_nat [where 'a = 8] by (simp add: distinct_map)
  ultimately show ?thesis by (simp add: rc4_ok_def rc4_setup_def)
qed

lemma rc4_next_ok: "rc4_ok r \<Longrightarrow> rc4_ok (snd (rc4_next r))"
  by (simp add: rc4_ok_def rc4_next_def Let_def S_SWAP_perm)

lemma rc4_xor_ok: "rc4_ok r \<Longrightarrow> rc4_ok (fst (map_state rc4_xor r xs))"
proof (induction xs arbitrary: r)
  case (Cons x xs)
  then show ?case using rc4_next_ok [of r]
    by (auto simp: rc4_xor_def split: prod.splits) (metis fst_conv)
qed simp

subsection \<open>The CRC table\<close>

definition crc32_bit :: "u32 \<Rightarrow> u32" where
  "crc32_bit c = (if bit c 0 then drop_bit 1 c XOR 0xEDB88320 else drop_bit 1 c)"

lemma crc32_bit_xor: "crc32_bit (a XOR b) = crc32_bit a XOR crc32_bit b"
  by (auto simp: crc32_bit_def bit_simps drop_bit_xor ac_simps)

lemma crc32_bits_xor: "(crc32_bit ^^ n) (a XOR b) = (crc32_bit ^^ n) a XOR (crc32_bit ^^ n) b"
  by (induction n) (simp_all add: crc32_bit_xor)

lemma crc32_bits_shift: "(\<And>i. i < n \<Longrightarrow> \<not> bit c i) \<Longrightarrow> (crc32_bit ^^ n) c = drop_bit n c"
proof (induction n arbitrary: c)
  case (Suc n)
  then have "crc32_bit c = drop_bit 1 c" by (simp add: crc32_bit_def)
  then have "(crc32_bit ^^ Suc n) c = (crc32_bit ^^ n) (drop_bit 1 c)"
    by (simp add: funpow_swap1)
  also have "\<dots> = drop_bit n (drop_bit 1 c)"
    by (rule Suc.IH) (simp add: bit_simps Suc.prems)
  finally show ?case by simp
qed simp

abbreviation crc32_byte :: "u32 \<Rightarrow> u32" where
  "crc32_byte \<equiv> crc32_bit ^^ 8"

lemma crc32_byte_unfold:
  "crc32_byte c = crc32_bit (crc32_bit (crc32_bit (crc32_bit
     (crc32_bit (crc32_bit (crc32_bit (crc32_bit c)))))))"
  by (simp add: numeral_eq_Suc)

text \<open>The table is the exclusive or of the entries of its first row and its first column.\<close>

lemma crc32_row: "map crc32_byte [0, 1, 2, 3, 4, 5, 6, 7, 8, 9, 10, 11, 12, 13, 14, 15] =
    [0x00000000, 0x77073096, 0xee0e612c, 0x990951ba, 0x076dc419, 0x706af48f, 0xe963a535, 0x9e6495a3,
     0x0edb8832, 0x79dcb8a4, 0xe0d5e91e, 0x97d2d988, 0x09b64c2b, 0x7eb17cbd, 0xe7b82d07, 0x90bf1d91]"
  by (simp add: crc32_byte_unfold crc32_bit_def)

lemma crc32_column: "map crc32_byte [0x0, 0x10, 0x20, 0x30, 0x40, 0x50, 0x60, 0x70, 0x80, 0x90, 0xa0, 0xb0, 0xc0, 0xd0, 0xe0, 0xf0] =
    [0x00000000, 0x1db71064, 0x3b6e20c8, 0x26d930ac, 0x76dc4190, 0x6b6b51f4, 0x4db26158, 0x5005713c,
     0xedb88320, 0xf00f9344, 0xd6d6a3e8, 0xcb61b38c, 0x9b64c2b0, 0x86d3d2d4, 0xa00ae278, 0xbdbdf21c]"
  by (simp add: crc32_byte_unfold crc32_bit_def)

lemma crc32_table_rows:
  "crc32_table = concat (map (\<lambda>h. map (\<lambda>l. crc32_byte (of_nat (h * 16)) XOR crc32_byte (of_nat l))
     [0..<16]) [0..<16])"
proof -
  have "crc32_table = concat (map (\<lambda>h. map (\<lambda>l. h XOR l) (map crc32_byte [0, 1, 2, 3, 4, 5, 6, 7, 8, 9, 10, 11, 12, 13, 14, 15]))
      (map crc32_byte [0x0, 0x10, 0x20, 0x30, 0x40, 0x50, 0x60, 0x70, 0x80, 0x90, 0xa0, 0xb0, 0xc0, 0xd0, 0xe0, 0xf0]))"
    unfolding crc32_row crc32_column by (simp add: crc32_table_def)
  also have "[0x0, 0x10, 0x20, 0x30, 0x40, 0x50, 0x60, 0x70, 0x80, 0x90, 0xa0, 0xb0, 0xc0, 0xd0, 0xe0, 0xf0] = map (\<lambda>h. of_nat (h * 16) :: u32) [0..<16]"
    by (simp add: upt_conv_Cons)
  also have "[0, 1, 2, 3, 4, 5, 6, 7, 8, 9, 10, 11, 12, 13, 14, 15] = (map of_nat [0..<16] :: u32 list)"
    by (simp add: upt_conv_Cons)
  finally show ?thesis by (simp only: map_map comp_def)
qed

lemma nibbles_xor: "l < 16 \<Longrightarrow> (of_nat (h * 16) XOR of_nat l :: u32) = of_nat (h * 16 + l)"
proof -
  assume l: "l < 16"
  have "push_bit 4 (of_nat h :: u32) AND of_nat l = 0"
  proof (rule bit_word_eqI)
    fix n assume "n < LENGTH(32)"
    have "\<not> bit l n" if "4 \<le> n"
    proof -
      have "(2 :: nat) ^ 4 \<le> 2 ^ n" using that by (intro power_increasing) simp_all
      then show ?thesis using l by (simp add: bit_iff_odd)
    qed
    then show "bit (push_bit 4 (of_nat h :: u32) AND of_nat l) n = bit (0 :: u32) n"
      by (auto simp: bit_simps bit_of_nat_iff)
  qed
  then have "push_bit 4 (of_nat h :: u32) + of_nat l = push_bit 4 (of_nat h) XOR of_nat l"
    by (simp add: disjunctive_add_eq_xor)
  then show ?thesis by (simp add: push_bit_eq_mult mult.commute)
qed

lemma crc32_table_entry:
  assumes "i < 256"
  shows "crc32_table ! i = crc32_byte (of_nat i)"
proof -
  define a b where "a = i div 16" and "b = i mod 16"
  have ab: "a < 16" "b < 16" "i = a * 16 + b" using assms by (auto simp: a_def b_def)
  have "crc32_table ! (a * 16 + b) = crc32_byte (of_nat (a * 16)) XOR crc32_byte (of_nat b)"
    unfolding crc32_table_rows using ab by (subst nth_concat_rows) auto
  then show ?thesis using ab(3) nibbles_xor [OF ab(2), of a] by (simp flip: crc32_bits_xor)
qed

lemma crc32_step_split:
  fixes crc :: u32 and b :: u8
  defines "x \<equiv> crc XOR ucast b"
  shows "x = (x AND 0xff) XOR (x AND NOT 0xff)" "crc32_byte (x AND NOT 0xff) = drop_bit 8 crc"
proof -
  have mask: "(0xff :: u32) = mask 8" by (simp add: mask_eq_exp_minus_1)
  show "x = (x AND 0xff) XOR (x AND NOT 0xff)"
    by (auto simp: bit_eq_iff bit_simps)
  have "crc32_byte (x AND NOT 0xff) = drop_bit 8 (x AND NOT 0xff)"
    by (rule crc32_bits_shift) (simp add: mask bit_simps)
  also have "\<dots> = drop_bit 8 crc"
    by (rule bit_word_eqI) (auto simp: x_def mask bit_simps dest: bit_imp_le_length)
  finally show "crc32_byte (x AND NOT 0xff) = drop_bit 8 crc" .
qed

subsection \<open>Properties\<close>

text \<open>
  C27: one step of the table-driven CRC equals eight steps of the bit-serial CRC-32 with the
  reflected polynomial \<open>0xEDB88320\<close>: every one of the 256 table entries is right.
\<close>

theorem crc32_step_bitwise: "crc32_step crc b = (crc32_bit ^^ 8) (crc XOR ucast b)"
proof -
  define x where "x = crc XOR ucast b"
  have "crc32_byte x = crc32_byte (x AND 0xff) XOR crc32_byte (x AND NOT 0xff)"
    using crc32_step_split(1) [of crc b] crc32_bits_xor by (metis x_def)
  moreover have "crc32_table ! unat (x AND 0xff) = crc32_byte (x AND 0xff)"
    using crc32_table_entry [OF mask8_less] by simp
  ultimately show ?thesis
    using crc32_step_split(2) [of crc b] by (simp add: crc32_step_def x_def)
qed

text \<open>
  After the key setup and any number of output bytes the RC4 state is a permutation of
  the 256 byte values and both indices are inside it, so no table access is out of bounds.
\<close>

theorem rc4_state_permutation: "rc4_ok (fst (map_state rc4_xor (rc4_setup rc4key keylen) xs))"
  by (rule rc4_xor_ok) (rule rc4_setup_ok)

end
