(* ===== verification/Wep.thy ===== *)
theory Wep
  imports Rc4
begin

text \<open>
  The WEP module (\<open>net80211/ieee80211_crypto_wep.c\<close>).  The per-key context
  \<open>struct wep_ctx\<close> is an explicit argument and result; \<open>wc_ic\<close>, the back pointer
  to the device, is the device state the operations take and return.
\<close>

record wep_ctx =
  wc_iv :: u32

text \<open>The allocation succeeds or not, and \<open>get_random_bytes\<close> supplies the first IV.\<close>

definition wep_attach :: "bool \<Rightarrow> u32 \<Rightarrow> 'b com_scheme \<Rightarrow> wep_ctx option \<times> 'b com_scheme" where
  "wep_attach alloc rnd ic =
     (if \<not> alloc then (None, inc_stat is_crypto_nomem ic) else (Some \<lparr>wc_iv = rnd\<rparr>, ic))"

definition wep_setkey :: "'a ieee80211_key_scheme \<Rightarrow> bool" where
  "wep_setkey k \<longleftrightarrow> wk_keylen k \<ge> 40 div 8"

definition wep_rc4 :: "'a ieee80211_key_scheme \<Rightarrow> chain \<Rightarrow> nat \<Rightarrow> rc4" where
  "wep_rc4 k m hdrlen =
     rc4_setup (take IEEE80211_WEP_IVLEN (drop hdrlen (mtod m)) @ take (wk_keylen k) (wk_key k))
       (wk_keylen k + IEEE80211_WEP_IVLEN)"

definition wep_encrypt ::
  "bytes option list \<Rightarrow> 'a ieee80211_key_scheme \<Rightarrow> 'b com_scheme \<Rightarrow> chain \<Rightarrow> nat \<Rightarrow>
   bool \<times> 'b com_scheme \<times> chain" where
  "wep_encrypt mems key ic m0 hdrlen =
     (let ic1 = inc_stat is_crypto_wep ic;
          off = hdrlen + ic_header cipher_wep;
          (left, icv, m1) = rc4_encrypt (wep_rc4 key m0 hdrlen) m0 off (uint_sub (pkt_len m0) off)
      in if left \<noteq> 0 then (False, ic1, m1)
         else let (ok, m2) = m_append mems m1 icv in (ok, ic1, m2))"

definition wep_decrypt ::
  "'a ieee80211_key_scheme \<Rightarrow> 'b com_scheme \<Rightarrow> chain \<Rightarrow> nat \<Rightarrow> bool \<times> 'b com_scheme \<times> chain" where
  "wep_decrypt key ic m0 hdrlen =
     (let ic1 = inc_stat is_crypto_wep ic;
          off = hdrlen + ic_header cipher_wep;
          (left, icv_ok, m1) = rc4_decrypt (wep_rc4 key m0 hdrlen) m0 off
             (uint_sub (pkt_len m0) (off + ic_trailer cipher_wep))
      in if left \<noteq> 0 then (False, ic1, m1) else (icv_ok, ic1, m1))"

text \<open>The IV of the next frame: the stored one, moved on past the weak block.\<close>

definition wep_next_iv :: "u32 \<Rightarrow> u32" where
  "wep_next_iv iv =
     (if iv AND 0xff00 = 0xff00
      then (let B = drop_bit 16 (iv AND 0xff0000) in if 3 \<le> B \<and> B < 16 then iv + 0x0100 else iv)
      else iv)"

definition wep_encap ::
  "bytes option list \<Rightarrow> 'a ieee80211_key_scheme \<Rightarrow> wep_ctx \<Rightarrow> 'b com_scheme \<Rightarrow> chain \<Rightarrow> u8 \<Rightarrow>
   bool \<times> wep_ctx \<times> 'b com_scheme \<times> chain" where
  "wep_encap mems k ctx ic m keyid =
     (let hdrlen = ieee80211_hdrspace (ic_flags ic) (mtod m);
          iv = wep_next_iv (wc_iv ctx);
          ctx1 = ctx\<lparr>wc_iv := iv + 1\<rparr>;
          m1 = m_poke m hdrlen [ucast (drop_bit 16 iv), ucast (drop_bit 8 iv), ucast iv, keyid]
      in if swcrypt k
         then (case wep_encrypt mems k ic m1 hdrlen of (ok, ic1, m2) \<Rightarrow> (ok, ctx1, ic1, m2))
         else (True, ctx1, ic, m1))"

text \<open>Copy up the 802.11 header and strip the privacy header and the trailer.\<close>

definition strip_crypto :: "cipher \<Rightarrow> chain \<Rightarrow> nat \<Rightarrow> chain" where
  "strip_crypto cip m hdrlen =
     m_adj (m_adj (m_poke m (ic_header cip) (take hdrlen (mtod m))) (int (ic_header cip)))
       (- int (ic_trailer cip))"

definition wep_decap ::
  "'a ieee80211_key_scheme \<Rightarrow> 'b com_scheme \<Rightarrow> chain \<Rightarrow> nat \<Rightarrow> bool \<times> 'b com_scheme \<times> chain" where
  "wep_decap k ic m hdrlen =
     (let (ok, ic1, m1) = (if swcrypt k then wep_decrypt k ic m hdrlen else (True, ic, m))
      in if \<not> ok then (False, inc_stat is_rx_wepfail ic1, m1)
         else (True, ic1, strip_crypto cipher_wep m1 hdrlen))"

definition wep_enmic :: "chain \<Rightarrow> bool" where "wep_enmic m \<longleftrightarrow> True"
definition wep_demic :: "chain \<Rightarrow> bool" where "wep_demic m \<longleftrightarrow> True"

subsection \<open>Stripping\<close>

lemma strip_crypto_packet:
  assumes "wf_packet m" "hdrlen + ic_header cip \<le> front_len m"
  shows "chain_bytes (strip_crypto cip m hdrlen) =
      take (length (chain_bytes m) - ic_header cip - ic_trailer cip)
        (take hdrlen (chain_bytes m) @ drop (hdrlen + ic_header cip) (chain_bytes m))"
    and "wf_packet (strip_crypto cip m hdrlen)"
proof -
  have "take hdrlen (mtod m) = take hdrlen (chain_bytes m)"
    using assms by (intro take_mtod) simp_all
  then show "chain_bytes (strip_crypto cip m hdrlen) =
      take (length (chain_bytes m) - ic_header cip - ic_trailer cip)
        (take hdrlen (chain_bytes m) @ drop (hdrlen + ic_header cip) (chain_bytes m))"
    "wf_packet (strip_crypto cip m hdrlen)"
    using mb.strip_data [OF assms, of "ic_trailer cip"] mb.strip_ok [OF assms]
    by (simp_all add: strip_crypto_def)
qed

text \<open>
  What stripping leaves of a frame: the 802.11 header and the payload between the privacy
  header and a trailer of the cipher's length.
\<close>

definition stripped :: "cipher \<Rightarrow> nat \<Rightarrow> bytes \<Rightarrow> bytes" where
  "stripped cip hdrlen frame = take hdrlen frame @ drop (hdrlen + ic_header cip) frame"

lemma strip_crypto_trailer:
  assumes "wf_packet m" "hdrlen + ic_header cip \<le> front_len m"
    and "chain_bytes m = frame @ t" "length t = ic_trailer cip" "hdrlen + ic_header cip \<le> length frame"
  shows "chain_bytes (strip_crypto cip m hdrlen) = stripped cip hdrlen frame"
  using assms(3-5) by (simp add: strip_crypto_packet [OF assms(1,2)] stripped_def)

subsection \<open>Appending the check value\<close>

lemma m_append_small:
  assumes "wf_packet ms" "length cl = MCLBYTES + MH_ALIGN" "length cp \<le> MLEN"
  obtains ms' where "m_append [Some cl] ms cp = (True, ms')" "chain_bytes ms' = chain_bytes ms @ cp"
    "wf_packet ms'" "front_len ms \<le> front_len ms'"
proof -
  have "snd (m_append_loop [Some cl] t c) = []" if "length c \<le> MLEN" for t c
    using that by (simp add: m_get_impl_def Let_def)
  then have "fst (m_append [Some cl] ms cp)"
    using assms(3) by (simp add: m_append_def Let_def split_beta del: m_append_loop.simps)
  then obtain ms' where ap: "m_append [Some cl] ms cp = (True, ms')"
    by (cases "m_append [Some cl] ms cp") simp
  have "fresh_mems [Some cl]" using assms(2) by (simp add: fresh_mems_def)
  from m_append_spec [OF assms(1) this ap] show ?thesis by (intro that [OF ap]) simp_all
qed

text \<open>Encrypting a frame and appending the check value, and the way back.\<close>

lemma rc4_send:
  assumes "wf_packet m1" "off \<le> front_len m1" "length cl = MCLBYTES + MH_ALIGN"
  obtains icv m2 ms1 where
    "rc4_encrypt r m1 off (pkt_len m1 - off) = (0, icv, m2)" "m_append [Some cl] m2 icv = (True, ms1)"
    "chain_bytes ms1 = chain_bytes m2 @ icv" "wf_packet ms1" "front_len m1 \<le> front_len ms1"
    "take off (chain_bytes ms1) = take off (chain_bytes m1)"
    "length (chain_bytes ms1) = length (chain_bytes m1) + 4"
proof -
  obtain left icv m2 where enc: "rc4_encrypt r m1 off (pkt_len m1 - off) = (left, icv, m2)"
    by (metis prod_cases3)
  note fr = rc4_frame [OF assms(1,2) enc]
  note m2 = chain_shape_packet [OF fr(3) assms(1)]
  have "length icv \<le> MLEN" by (simp add: fr(2) MLEN_def)
  then obtain ms1 where ap: "m_append [Some cl] m2 icv = (True, ms1)"
      "chain_bytes ms1 = chain_bytes m2 @ icv" "wf_packet ms1" "front_len m2 \<le> front_len ms1"
    by (rule m_append_small [OF m2(1) assms(3)])
  have len: "length (chain_bytes m2) = length (chain_bytes m1)"
    using chain_shape_eq [OF fr(3)] wf_packetD(1) [OF assms(1)] by simp
  have "off \<le> length (chain_bytes m2)"
    using assms(2) front_len_le [OF assms(1)] len by simp
  then show ?thesis using that [of icv m2 ms1] enc fr ap len m2(2) by simp
qed

lemma rc4_receive:
  assumes "wf_packet m1" "off \<le> front_len m1" "rc4_encrypt r m1 off (pkt_len m1 - off) = (0, icv, m2)"
    and "wf_packet ms2" "off \<le> front_len ms2" "chain_bytes ms2 = chain_bytes m2 @ icv"
    and "4 \<le> m_len (last ms2)" "off = hdrlen + ic_header cip" "ic_trailer cip = 4"
  obtains ms3 where "rc4_decrypt r ms2 off (pkt_len ms2 - (off + 4)) = (0, True, ms3)"
    "chain_bytes (strip_crypto cip ms3 hdrlen) = stripped cip hdrlen (chain_bytes m1)"
    "wf_packet (strip_crypto cip ms3 hdrlen)"
proof -
  note fr = rc4_frame [OF assms(1-3)]
  obtain ms3 where dec: "rc4_decrypt r ms2 off (pkt_len ms2 - off - 4) = (0, True, ms3)"
      "chain_bytes ms3 = chain_bytes m1 @ icv" "chain_shape ms3 = chain_shape ms2"
    using fr(5) [OF assms(4-7)] by blast
  note ms3 = chain_shape_packet [OF dec(3) assms(4)]
  have fits: "hdrlen + ic_header cip \<le> front_len ms3" using assms(5,8) ms3(2) by simp
  have "hdrlen + ic_header cip \<le> length (chain_bytes m1)"
    using assms(2,8) front_len_le [OF assms(1)] by simp
  then have "chain_bytes (strip_crypto cip ms3 hdrlen) = stripped cip hdrlen (chain_bytes m1)"
    using fr(2) assms(9) by (intro strip_crypto_trailer [OF ms3(1) fits dec(2)]) simp_all
  then show ?thesis
    using that [of ms3] dec(1) strip_crypto_packet(2) [OF ms3(1) fits] by simp
qed

subsection \<open>Encapsulation and decapsulation\<close>

lemma wep_encap_sw:
  assumes "wf_packet ms" "hdrlen = ieee80211_hdrspace (ic_flags ic) (mtod ms)"
    and "hdrlen + ic_header cipher_wep \<le> front_len ms" "swcrypt k" "length cl = MCLBYTES + MH_ALIGN"
  obtains m1 iv icv m2 ms1 where
    "m1 = m_poke ms hdrlen iv" "length iv = 4" "wf_packet m1" "front_len m1 = front_len ms"
    "chain_bytes m1 = put_at hdrlen iv (chain_bytes ms)"
    "rc4_encrypt (wep_rc4 k m1 hdrlen) m1 (hdrlen + 4) (pkt_len m1 - (hdrlen + 4)) = (0, icv, m2)"
    "wep_encap [Some cl] k ctx ic ms keyid =
       (True, ctx\<lparr>wc_iv := wep_next_iv (wc_iv ctx) + 1\<rparr>, inc_stat is_crypto_wep ic, ms1)"
    "chain_bytes ms1 = chain_bytes m2 @ icv" "wf_packet ms1"
proof -
  define iv where "iv = wep_next_iv (wc_iv ctx)"
  define ivb where "ivb = [ucast (drop_bit 16 iv), ucast (drop_bit 8 iv), ucast iv, keyid]"
  define m1 where "m1 = m_poke ms hdrlen ivb"
  have fits: "hdrlen + length ivb \<le> front_len ms" using assms(3) by (simp add: ivb_def wep_lens)
  note m1 = m_poke_chain [OF assms(1) fits, folded m1_def]
  have off: "hdrlen + 4 \<le> front_len m1" using fits by (simp add: m1(3) ivb_def)
  have le: "hdrlen + 4 \<le> pkt_len m1"
    using off front_len_le [OF m1(2)] by (simp add: pkt_len_bytes [OF m1(2)])
  obtain left icv m2 where
    enc: "rc4_encrypt (wep_rc4 k m1 hdrlen) m1 (hdrlen + 4) (pkt_len m1 - (hdrlen + 4)) = (left, icv, m2)"
    by (metis prod_cases3)
  note fr = rc4_frame [OF m1(2) off enc]
  have "length icv \<le> MLEN" by (simp add: fr(2) MLEN_def)
  then obtain ms1 where ap: "m_append [Some cl] m2 icv = (True, ms1)"
      "chain_bytes ms1 = chain_bytes m2 @ icv" "wf_packet ms1"
    using m_append_small [OF chain_shape_packet(1) [OF fr(3) m1(2)] assms(5)] by metis
  have "wep_encap [Some cl] k ctx ic ms keyid =
      (True, ctx\<lparr>wc_iv := iv + 1\<rparr>, inc_stat is_crypto_wep ic, ms1)"
    using enc fr(1) ap(1) le assms(4)
    by (simp add: wep_encap_def assms(2) [symmetric] iv_def [symmetric] ivb_def [symmetric]
        m1_def [symmetric] wep_encrypt_def wep_lens Let_def)
  then show ?thesis
    using that [of m1 ivb icv m2 ms1] m1 enc fr(1) ap by (simp add: m1_def iv_def ivb_def)
qed

lemma wep_rc4_cong:
  assumes "wf_packet m" "wf_packet m'" "hdrlen + 3 \<le> front_len m" "hdrlen + 3 \<le> front_len m'"
    and "take (hdrlen + 3) (chain_bytes m') = take (hdrlen + 3) (chain_bytes m)"
    and "wk_key k' = wk_key k" "wk_keylen k' = wk_keylen k"
  shows "wep_rc4 k' m' hdrlen = wep_rc4 k m hdrlen"
proof -
  have "take 3 (drop hdrlen (mtod m')) = take 3 (drop hdrlen (mtod m))"
    using slice_mtod [OF assms(1,3)] slice_mtod [OF assms(2,4)] assms(5)
    by (metis add_diff_cancel_left' drop_take)
  then show ?thesis using assms(6,7) by (simp add: wep_rc4_def wep_lens)
qed

subsection \<open>The weak initial vectors\<close>

lemma byte1_ff: "(ucast (drop_bit 8 iv) :: u8) = 0xff \<longleftrightarrow> (iv :: u32) AND 0xff00 = 0xff00"
proof -
  have m: "(0xff :: u8) = mask 8" "(0xff00 :: u32) = push_bit 8 (mask 8)" by (simp_all add: mask_eq_exp_minus_1)
  have "(ucast (drop_bit 8 iv) :: u8) = 0xff \<longleftrightarrow> (\<forall>n<8. bit iv (8 + n))"
    unfolding m by (auto simp: bit_eq_iff bit_simps)
  also have "\<dots> \<longleftrightarrow> iv AND 0xff00 = 0xff00"
  proof
    assume *: "\<forall>n<8. bit iv (8 + n)"
    show "iv AND 0xff00 = 0xff00"
    proof (rule bit_word_eqI)
      fix n
      show "bit (iv AND 0xff00) n = bit (0xff00 :: u32) n"
        using *[rule_format, of "n - 8"] unfolding m by (auto simp: bit_simps)
    qed
  next
    assume *: "iv AND 0xff00 = 0xff00"
    show "\<forall>n<8. bit iv (8 + n)"
    proof (intro allI impI)
      fix n :: nat assume "n < 8"
      then show "bit iv (8 + n)"
        using arg_cong [OF *, of "\<lambda>w. bit w (8 + n)"] unfolding m by (simp add: bit_simps)
    qed
  qed
  finally show ?thesis .
qed

lemma byte2: "unat (drop_bit 16 (iv AND 0xff0000) :: u32) = unat (ucast (drop_bit 16 iv) :: u8)"
proof -
  have m: "(0xff0000 :: u32) = push_bit 16 (mask 8)" by (simp add: mask_eq_exp_minus_1)
  have "drop_bit 16 (iv AND 0xff0000) = (ucast (ucast (drop_bit 16 iv) :: u8) :: u32)"
    unfolding m by (rule bit_word_eqI) (auto simp: bit_simps)
  then show ?thesis by (simp add: unsigned_ucast_eq unsigned_take_bit_eq)
qed

lemma byte1_carry:
  assumes "(iv :: u32) AND 0xff00 = 0xff00"
  shows "(ucast (drop_bit 8 (iv + 0x100)) :: u8) = 0"
proof -
  have b: "unat (ucast (drop_bit 8 x) :: u8) = unat x div 256 mod 256" for x :: u32
    by (simp only: unsigned_ucast_eq unat_drop_bit_eq) (simp add: take_bit_eq_mod drop_bit_eq_div)
  have "(unat iv div 256) mod 256 = 255" using assms byte1_ff [of iv] b [of iv] by simp
  then have "Suc (unat iv div 256) mod 256 = 0" unfolding mod_Suc by simp
  moreover have "(unat iv + 256) div 256 = Suc (unat iv div 256)" by (subst div_add_self2) simp_all
  ultimately have *: "(unat iv + 256) div 256 mod 256 = 0" by simp
  have "unat (iv + 0x100) = (unat iv + 256) mod (256 * 16777216)" by (simp add: unat_word_ariths)
  then have "unat (iv + 0x100) div 256 mod 256
      = ((256 * ((unat iv + 256) div 256 mod 16777216) + (unat iv + 256) mod 256) div 256) mod 256"
    by (simp only: mod_mult2_eq)
  also have "\<dots> = ((unat iv + 256) div 256) mod 16777216 mod 256" by simp
  also have "\<dots> = (unat iv + 256) div 256 mod 256" by (rule mod_mod_cancel) simp
  also have "\<dots> = 0" by (rule *)
  finally show ?thesis using b [of "iv + 0x100"] by (simp add: unat_eq_zero)
qed

text \<open>The initial vectors of Fluhrer, Mantin and Shamir: \<open>(B, 255, N)\<close> with \<open>3 \<le> B < 16\<close>.\<close>

definition fms_weak :: "bytes \<Rightarrow> bool" where
  "fms_weak iv \<longleftrightarrow> 3 \<le> iv ! 0 \<and> iv ! 0 < 16 \<and> iv ! 1 = 0xff"

lemma wep_next_iv_not_weak:
  fixes iv :: u32
  defines "v \<equiv> wep_next_iv iv"
  shows "\<not> (3 \<le> (ucast (drop_bit 16 v) :: u8) \<and> (ucast (drop_bit 16 v) :: u8) < 16 \<and>
    (ucast (drop_bit 8 v) :: u8) = 0xff)"
proof (cases "iv AND 0xff00 = 0xff00 \<and> 3 \<le> drop_bit 16 (iv AND 0xff0000) \<and>
    drop_bit 16 (iv AND 0xff0000) < 16")
  case True
  then have "v = iv + 0x100" by (simp add: v_def wep_next_iv_def Let_def)
  then show ?thesis using byte1_carry [of iv] True by simp
next
  case False
  then have "v = iv" by (auto simp: v_def wep_next_iv_def Let_def)
  then show ?thesis
    using False byte1_ff [of iv] byte2 [of iv] by (auto simp: word_le_nat_alt word_less_nat_alt)
qed

lemma wep_encap_iv:
  assumes "wf_packet m" "hdrlen = ieee80211_hdrspace (ic_flags ic) (mtod m)"
    and "hdrlen + ic_header cipher_wep \<le> front_len m" "fresh_mems mems"
    and "wep_encap mems k ctx ic m keyid = (True, ctx', ic', m')"
  shows "take 4 (drop hdrlen (chain_bytes m')) =
    (let iv = wep_next_iv (wc_iv ctx)
     in [ucast (drop_bit 16 iv), ucast (drop_bit 8 iv), ucast iv, keyid])"
proof -
  define iv where "iv = wep_next_iv (wc_iv ctx)"
  define ivb where "ivb = [ucast (drop_bit 16 iv), ucast (drop_bit 8 iv), ucast iv, keyid]"
  define m1 where "m1 = m_poke m hdrlen ivb"
  have fits: "hdrlen + length ivb \<le> front_len m" using assms(3) by (simp add: ivb_def wep_lens)
  note m1 = m_poke_chain [OF assms(1) fits, folded m1_def]
  have len: "hdrlen + 4 \<le> length (chain_bytes m)"
    using fits front_len_le [OF assms(1)] by (simp add: ivb_def)
  have rd: "take 4 (drop hdrlen (chain_bytes m1)) = ivb"
    using len by (simp add: m1(1) ivb_def)
  show ?thesis
  proof (cases "swcrypt k")
    case False
    then have "m' = m1"
      using assms(5) by (simp add: wep_encap_def assms(2) [symmetric] iv_def [symmetric]
          ivb_def [symmetric] m1_def [symmetric] Let_def)
    then show ?thesis using rd by (simp add: ivb_def iv_def Let_def)
  next
    case True
    have off: "hdrlen + 4 \<le> front_len m1" using fits by (simp add: m1(3) ivb_def)
    have le: "hdrlen + 4 \<le> pkt_len m1"
      using off front_len_le [OF m1(2)] by (simp add: pkt_len_bytes [OF m1(2)])
    obtain left icv m2 where
      enc: "rc4_encrypt (wep_rc4 k m1 hdrlen) m1 (hdrlen + 4) (pkt_len m1 - (hdrlen + 4)) = (left, icv, m2)"
      by (metis prod_cases3)
    note fr = rc4_frame [OF m1(2) off enc]
    have "m_append mems m2 icv = (True, m')"
      using assms(5) True enc fr(1) le
      by (simp add: wep_encap_def assms(2) [symmetric] iv_def [symmetric] ivb_def [symmetric]
          m1_def [symmetric] wep_encrypt_def wep_lens Let_def split: prod.splits)
    then have "chain_bytes m' = chain_bytes m2 @ icv"
      using m_append_spec [OF chain_shape_packet(1) [OF fr(3) m1(2)] assms(4)] by blast
    moreover have "hdrlen + 4 \<le> length (chain_bytes m2)"
      using off front_len_le [OF m1(2)] chain_shape_eq [OF fr(3)] wf_packetD(1) [OF m1(2)] by simp
    ultimately have "take (hdrlen + 4) (chain_bytes m') = take (hdrlen + 4) (chain_bytes m1)"
      using fr(4) by simp
    then have "take 4 (drop hdrlen (chain_bytes m')) = take 4 (drop hdrlen (chain_bytes m1))"
      by (metis add_diff_cancel_left' drop_take)
    then show ?thesis using rd by (simp add: ivb_def iv_def Let_def)
  qed
qed

lemma wep_encap_length:
  assumes "wf_packet ms" "hdrlen = ieee80211_hdrspace (ic_flags ic) (mtod ms)"
    and "hdrlen + ic_header cipher_wep \<le> front_len ms" "swcrypt k" "length cl = MCLBYTES + MH_ALIGN"
  shows "length (chain_bytes (snd (snd (snd (wep_encap [Some cl] k ctx ic ms keyid)))))
    = length (chain_bytes ms) + 4"
proof -
  obtain m1 iv icv m2 ms1 where m1: "m1 = m_poke ms hdrlen iv" "length iv = 4" "wf_packet m1"
      "front_len m1 = front_len ms" "chain_bytes m1 = put_at hdrlen iv (chain_bytes ms)"
    and enc: "rc4_encrypt (wep_rc4 k m1 hdrlen) m1 (hdrlen + 4) (pkt_len m1 - (hdrlen + 4)) = (0, icv, m2)"
    and encap: "wep_encap [Some cl] k ctx ic ms keyid =
       (True, ctx\<lparr>wc_iv := wep_next_iv (wc_iv ctx) + 1\<rparr>, inc_stat is_crypto_wep ic, ms1)"
    and ms1: "chain_bytes ms1 = chain_bytes m2 @ icv"
    by (rule wep_encap_sw [OF assms])
  have off: "hdrlen + 4 \<le> front_len m1" using assms(3) by (simp add: m1(4) wep_lens)
  note fr = rc4_frame [OF m1(3) off enc]
  have "length (chain_bytes m2) = length (chain_bytes m1)"
    using chain_shape_eq [OF fr(3)] wf_packetD(1) [OF m1(3)] by simp
  moreover have "hdrlen + 4 \<le> length (chain_bytes ms)"
    using assms(3) front_len_le [OF assms(1)] by (simp add: wep_lens)
  ultimately show ?thesis using m1(2) fr(2) by (simp add: encap ms1 m1(5))
qed

subsection \<open>Properties\<close>



text \<open>
  C31: the IV of a WEP frame is never one of the weak vectors of Fluhrer, Mantin and Shamir,
  whatever the stored IV, with software or hardware encryption.
\<close>

theorem wep_iv_not_weak:
  assumes "wf_packet m" "hdrlen = ieee80211_hdrspace (ic_flags ic) (mtod m)"
    and "hdrlen + ic_header cipher_wep \<le> front_len m" "fresh_mems mems"
    and "wep_encap mems k ctx ic m keyid = (True, ctx', ic', m')"
  shows "\<not> fms_weak (take 3 (drop hdrlen (chain_bytes m')))"
proof -
  define v where "v = wep_next_iv (wc_iv ctx)"
  have "take 3 (take 4 (drop hdrlen (chain_bytes m'))) = [ucast (drop_bit 16 v), ucast (drop_bit 8 v), ucast v]"
    unfolding wep_encap_iv [OF assms] by (simp add: v_def Let_def numeral_3_eq_3)
  then have "take 3 (drop hdrlen (chain_bytes m')) = [ucast (drop_bit 16 v), ucast (drop_bit 8 v), ucast v]"
    by simp
  then show ?thesis using wep_next_iv_not_weak [of "wc_iv ctx"] by (simp add: fms_weak_def v_def)
qed

theorem wep_iv_not_weak_witness:
  "fms_weak [4, 0xff, 7] \<and>
   (case wep_encap [] (ex_key\<lparr>wk_flags := 0\<rparr>) \<lparr>wc_iv = 0x04ff07\<rparr> ex_com
      (packet_of (8 # replicate 27 0 @ [1, 2, 3])) 0 of
      (ok, ctx', ic', m') \<Rightarrow> ok \<and> \<not> fms_weak (take 3 (drop 24 (chain_bytes m'))))"
proof -
  define ms where "ms = packet_of (8 # replicate 27 0 @ [1, 2, 3])"
  define k where "k = ex_key\<lparr>wk_flags := 0\<rparr>"
  obtain ctx' ic' m' where enc: "wep_encap [] k \<lparr>wc_iv = 0x04ff07\<rparr> ex_com ms 0 = (True, ctx', ic', m')"
    by (simp add: wep_encap_def Let_def k_def swcrypt_def has_flag_def)
  have "\<not> fms_weak (take 3 (drop 24 (chain_bytes m')))"
    by (rule wep_iv_not_weak [OF _ _ _ _ enc])
      (simp_all add: ms_def ex_hdrspace wep_lens fresh_mems_def)
  then show ?thesis using enc by (simp add: ms_def k_def fms_weak_def)
qed

end
