(* ===== verification/Michael.thy ===== *)
theory Michael
  imports Com
begin

text \<open>
  The Michael message integrity code (\<open>michael_block\<close>, \<open>michael_mic_hdr\<close> and
  \<open>michael_mic\<close> of \<open>net80211/ieee80211_crypto_tkip.c\<close>).  The loop over the buffers, which
  carries up to three bytes from one buffer to the next, is shown equal to the textbook
  definition on the padded message.
\<close>

subsection \<open>The block function\<close>

definition rotl :: "u32 \<Rightarrow> nat \<Rightarrow> u32" where
  "rotl val bits = push_bit bits val OR drop_bit (32 - bits) val"

definition rotr :: "u32 \<Rightarrow> nat \<Rightarrow> u32" where
  "rotr val bits = drop_bit bits val OR push_bit (32 - bits) val"

definition xswap :: "u32 \<Rightarrow> u32" where
  "xswap val = push_bit 8 (val AND 0x00ff00ff) OR drop_bit 8 (val AND 0xff00ff00)"

type_synonym lr = "u32 \<times> u32"

definition michael_block :: "lr \<Rightarrow> lr" where
  "michael_block lr =
     (case lr of (l, r) \<Rightarrow>
        let r = r XOR rotl l 17; l = l + r;
            r = r XOR xswap l; l = l + r;
            r = r XOR rotl l 3; l = l + r;
            r = r XOR rotr l 2; l = l + r
        in (l, r))"

text \<open>\<open>l ^= get_le32(p); michael_block(l, r)\<close>.\<close>

definition michael_word :: "lr \<Rightarrow> bytes \<Rightarrow> lr" where
  "michael_word lr p = michael_block (fst lr XOR le32dec p, snd lr)"

definition IEEE80211_QOS_TID :: u8 where "IEEE80211_QOS_TID = 0x0f"

definition michael_mic_hdr :: "bytes \<Rightarrow> bytes" where
  "michael_mic_hdr wh =
     (let dir = i_fc wh 1 AND IEEE80211_FC1_DIR_MASK;
          addrs = (if dir = IEEE80211_FC1_DIR_NODS then i_addr1 wh @ i_addr2 wh
                   else if dir = IEEE80211_FC1_DIR_TODS then i_addr3 wh @ i_addr2 wh
                   else if dir = IEEE80211_FC1_DIR_FROMDS then i_addr1 wh @ i_addr3 wh
                   else i_addr3 wh @ i_addr4 wh);
          prio = (if has_flag (i_fc wh 0) IEEE80211_FC0_SUBTYPE_QOS
                  then wh ! 24 AND IEEE80211_QOS_TID else 0)
      in addrs @ [prio, 0, 0, 0])"

subsection \<open>The loop over the buffers\<close>

text \<open>Collect 32-bit blocks; what is left goes to the spill.\<close>

fun michael_blocks :: "lr \<Rightarrow> bytes \<Rightarrow> lr \<times> bytes" where
  "michael_blocks lr (a # b # c # d # data) = michael_blocks (michael_word lr [a, b, c, d]) data"
| "michael_blocks lr data = (lr, data)"

text \<open>\<open>None\<close>: the chain ends before the data does, and the code follows a null pointer.\<close>

fun michael_loop :: "lr \<Rightarrow> bytes \<Rightarrow> nat \<Rightarrow> nat \<Rightarrow> nat \<Rightarrow> chain \<Rightarrow> (lr \<times> bytes) option" where
  "michael_loop lr spill pos space data_len [] = None"
| "michael_loop lr spill pos space data_len (m # ms) =
     (let n = (if space > data_len then data_len else space);
          data = take n (drop pos (m_bytes m));
          k = min (4 - length spill) n;
          (lr1, spill1) =
            (if spill = [] then michael_blocks lr data
             else if length spill + k = 4
             then michael_blocks (michael_word lr (spill @ take k data)) (drop k data)
             else (lr, spill @ take k data))
      in if data_len - n = 0 then Some (lr1, spill1)
         else michael_loop lr1 spill1 0 (m_len (hd ms)) (data_len - n) ms)"

definition michael_final :: "lr \<Rightarrow> bytes \<Rightarrow> bytes" where
  "michael_final lr spill =
     (case michael_block (michael_word lr (spill @ 0x5a # replicate (3 - length spill) 0)) of
        (l, r) \<Rightarrow> le32enc l @ le32enc r)"

definition michael_mic :: "bytes \<Rightarrow> chain \<Rightarrow> nat \<Rightarrow> nat \<Rightarrow> bytes option" where
  "michael_mic key m off data_len =
     (let hdr = michael_mic_hdr (mtod m);
          lr = (le32dec key, le32dec (drop 4 key));
          lr = michael_word lr hdr;
          lr = michael_word lr (drop 4 hdr);
          lr = michael_word lr (drop 8 hdr);
          lr = michael_word lr (drop 12 hdr)
      in map_option (\<lambda>(lr, spill). michael_final lr spill)
           (michael_loop lr [] off (uint_sub (front_len m) off) data_len m))"

subsection \<open>The reference definition\<close>

text \<open>
  The message is followed by \<open>0x5a\<close> and between four and seven zero bytes, and every 32-bit
  little-endian word of the result goes through the block function.
\<close>

fun le_words :: "bytes \<Rightarrow> u32 list" where
  "le_words (a # b # c # d # data) = le32dec [a, b, c, d] # le_words data"
| "le_words data = []"

definition michael_pad :: "nat \<Rightarrow> bytes" where
  "michael_pad n = 0x5a # replicate (7 - n mod 4) 0"

definition michael_ref :: "bytes \<Rightarrow> bytes \<Rightarrow> bytes" where
  "michael_ref key msg =
     (case foldl (\<lambda>(l, r) w. michael_block (l XOR w, r)) (le32dec key, le32dec (drop 4 key))
             (le_words (msg @ michael_pad (length msg))) of
        (l, r) \<Rightarrow> le32enc l @ le32enc r)"

subsection \<open>Blocks\<close>

lemma le32dec_4: "le32dec (a # b # c # d # xs) = le32dec [a, b, c, d]"
  by (simp add: le32dec_def)

lemma michael_blocks_append:
  "michael_blocks lr (xs @ ys) =
     (case michael_blocks lr xs of (lr', rest) \<Rightarrow> michael_blocks lr' (rest @ ys))"
  by (induction lr xs rule: michael_blocks.induct) auto

lemma michael_blocks_rest: "length (snd (michael_blocks lr xs)) = length xs mod 4"
  by (induction lr xs rule: michael_blocks.induct) (auto simp: mod_Suc)

lemma michael_blocks_foldl:
  "fst (michael_blocks lr xs) = foldl (\<lambda>(l, r) w. michael_block (l XOR w, r)) lr (le_words xs)"
  by (induction lr xs rule: michael_blocks.induct)
    (auto simp: michael_word_def split_beta)

lemma michael_blocks_4: "length xs = 4 \<Longrightarrow> michael_blocks lr xs = (michael_word lr xs, [])"
  by (elim length_4_cases) simp

lemma michael_blocks_short: "length xs < 4 \<Longrightarrow> michael_blocks lr xs = (lr, xs)"
  by (cases "(lr, xs)" rule: michael_blocks.cases) auto

text \<open>One turn of the loop processes the spill followed by the data of the buffer.\<close>

lemma michael_turn:
  assumes "length spill < 4"
  shows "(if spill = [] then michael_blocks lr data
      else if length spill + min (4 - length spill) (length data) = 4
      then michael_blocks (michael_word lr (spill @ take (min (4 - length spill) (length data)) data))
             (drop (min (4 - length spill) (length data)) data)
      else (lr, spill @ take (min (4 - length spill) (length data)) data))
    = michael_blocks lr (spill @ data)"
proof (cases "spill = []")
  case False
  define k where "k = min (4 - length spill) (length data)"
  show ?thesis
  proof (cases "length spill + k = 4")
    case True
    then have "michael_blocks lr ((spill @ take k data) @ drop k data)
        = michael_blocks (michael_word lr (spill @ take k data)) (drop k data)"
      unfolding michael_blocks_append [of lr "spill @ take k data"]
      by (subst michael_blocks_4) (simp_all add: k_def min_def split: if_splits)
    then show ?thesis using False True by (simp add: k_def [symmetric])
  next
    case short: False
    then have "k = length data" using assms by (auto simp: k_def min_def split: if_splits)
    then show ?thesis
      using False short assms by (simp add: k_def [symmetric] michael_blocks_short)
        (auto simp: k_def min_def michael_blocks_short split: if_splits)
  qed
qed simp

lemma michael_loop_spec:
  assumes "wf_chain ms" "ms \<noteq> []" "pos \<le> m_len (hd ms)" "pos + data_len \<le> chain_len ms" "length spill < 4"
  shows "michael_loop lr spill pos (m_len (hd ms) - pos) data_len ms =
    Some (michael_blocks lr (spill @ take data_len (drop pos (chain_bytes ms))))"
  using assms
proof (induction ms arbitrary: lr spill pos data_len)
  case (Cons m ms)
  define n where "n = min (m_len m - pos) data_len"
  have n: "(if m_len m - pos > data_len then data_len else m_len m - pos) = n" by (auto simp: n_def)
  have wf: "wf_mbuf m" "wf_chain ms" and pos: "pos \<le> m_len m" using Cons.prems by simp_all
  define data where "data = take n (drop pos (m_bytes m))"
  have len: "length data = n" using wf pos by (auto simp: data_def n_def)
  have split: "take data_len (drop pos (chain_bytes (m # ms))) = data @ take (data_len - n) (chain_bytes ms)"
    using wf pos by (simp add: data_def n_def min_def)
  obtain lr1 spill1 where turn: "michael_blocks lr (spill @ data) = (lr1, spill1)" by fastforce
  have "length spill1 < 4" using michael_blocks_rest [of lr "spill @ data"] by (simp add: turn)
  note step = michael_turn [OF Cons.prems(5), of lr data, unfolded len, folded data_def]
  have unfold: "michael_loop lr spill pos (m_len (hd (m # ms)) - pos) data_len (m # ms) =
      (if data_len - n = 0 then Some (lr1, spill1)
       else michael_loop lr1 spill1 0 (m_len (hd ms)) (data_len - n) ms)"
    by (simp only: michael_loop.simps(2) list.sel Let_def n data_def [symmetric] step turn prod.case)
  show ?case
  proof (cases "data_len - n = 0")
    case True
    then show ?thesis using turn unfolding unfold split by simp
  next
    case False
    then have nn: "n = m_len m - pos" by (auto simp: n_def min_def split: if_splits)
    have ne: "ms \<noteq> []" using False Cons.prems(4) pos nn by auto
    have "michael_loop lr1 spill1 0 (m_len (hd ms) - 0) (data_len - n) ms =
        Some (michael_blocks lr1 (spill1 @ take (data_len - n) (drop 0 (chain_bytes ms))))"
      by (rule Cons.IH) (use wf ne Cons.prems(4) pos nn \<open>length spill1 < 4\<close> in auto)
    then show ?thesis
      using False turn unfolding unfold split
      by (simp add: michael_blocks_append [of lr "spill @ data", simplified])
  qed
qed simp

subsection \<open>The code against the reference\<close>

lemma length_michael_mic_hdr:
  "30 \<le> length wh \<Longrightarrow> length (michael_mic_hdr wh) = 16"
  by (simp add: michael_mic_hdr_def i_addr1_def i_addr2_def i_addr3_def i_addr4_def Let_def)

lemma length_michael_mic_hdr24:
  "24 \<le> length wh \<Longrightarrow> \<not> IEEE80211_IS_DSTODS wh \<Longrightarrow> length (michael_mic_hdr wh) = 16"
  using dir_cases [of wh]
  by (auto simp: michael_mic_hdr_def i_addr1_def i_addr2_def i_addr3_def i_addr4_def Let_def
      IEEE80211_IS_DSTODS_def)

lemma michael_final_blocks:
  assumes "length spill < 4"
  shows "michael_blocks lr (spill @ 0x5a # replicate (7 - length spill) 0)
    = (michael_block (michael_word lr (spill @ 0x5a # replicate (3 - length spill) 0)), [])"
proof -
  define last where "last = spill @ 0x5a # replicate (3 - length spill) (0 :: u8)"
  have four: "replicate 4 (0 :: u8) = [0, 0, 0, 0]" by (simp add: numeral_eq_Suc)
  have "7 - length spill = (3 - length spill) + 4" using assms by simp
  then have "spill @ 0x5a # replicate (7 - length spill) (0 :: u8) = last @ [0, 0, 0, 0]"
    by (simp only: replicate_add four) (simp add: last_def)
  moreover have "length last = 4" using assms by (simp add: last_def)
  moreover from this have "michael_blocks lr (last @ [0, 0, 0, 0])
      = (michael_word (michael_word lr last) [0, 0, 0, 0], [])"
    by (subst michael_blocks_append) (simp only: michael_blocks_4 prod.case append_Nil
        michael_blocks.simps)
  moreover have "michael_word lr' [0, 0, 0, 0] = michael_block lr'" for lr'
    by (simp add: michael_word_def le32dec_def)
  ultimately show ?thesis by (simp only: last_def [symmetric])
qed

lemma michael_ref_blocks:
  "michael_ref key msg =
    (case michael_blocks (le32dec key, le32dec (drop 4 key)) msg of (lr, spill) \<Rightarrow> michael_final lr spill)"
proof -
  obtain lr spill where b: "michael_blocks (le32dec key, le32dec (drop 4 key)) msg = (lr, spill)" by fastforce
  have len: "length spill = length msg mod 4"
    using michael_blocks_rest [of "(le32dec key, le32dec (drop 4 key))" msg] by (simp add: b)
  then have "length spill < 4" by simp
  then have "fst (michael_blocks (le32dec key, le32dec (drop 4 key)) (msg @ michael_pad (length msg)))
      = michael_block (michael_word lr (spill @ 0x5a # replicate (3 - length spill) 0))"
    by (subst michael_blocks_append)
      (simp only: b prod.case michael_pad_def len [symmetric] michael_final_blocks fst_conv)
  then show ?thesis
    by (simp add: michael_ref_def b michael_final_def michael_blocks_foldl [symmetric])
qed

lemma michael_hdr_blocks:
  assumes "length hdr = 16"
  shows "michael_blocks lr (hdr @ msg) = michael_blocks (michael_word (michael_word (michael_word
    (michael_word lr hdr) (drop 4 hdr)) (drop 8 hdr)) (drop 12 hdr)) msg"
proof -
  obtain a b where h: "hdr = a @ b" "length a = 8" "length b = 8"
    using assms by (intro that [of "take 8 hdr" "drop 8 hdr"]) simp_all
  then obtain a1 a2 a3 a4 a5 a6 a7 a8 b1 b2 b3 b4 b5 b6 b7 b8 where
    "hdr = [a1, a2, a3, a4, a5, a6, a7, a8, b1, b2, b3, b4, b5, b6, b7, b8]"
    by (auto simp: numeral_eq_Suc length_Suc_conv)
  then show ?thesis by (simp add: michael_word_def le32dec_def)
qed

subsection \<open>Properties\<close>

text \<open>
  C19: the Michael routine, run over the buffers of a chain from an offset, returns the code
  of the pseudo header followed by the data, as the textbook definition gives it on the
  contiguous bytes: the bytes spilled between buffers are handled correctly for every split.
\<close>

theorem michael_mic_correct:
  assumes "wf_packet m" "off \<le> front_len m" "off + data_len \<le> length (chain_bytes m)"
    and "length (michael_mic_hdr (mtod m)) = 16"
  shows "michael_mic key m off data_len =
    Some (michael_ref key (michael_mic_hdr (mtod m) @ take data_len (drop off (chain_bytes m))))"
proof -
  note wf = wf_packetD [OF assms(1)]
  have "off + data_len \<le> chain_len m" using assms(3) wf by simp
  from michael_loop_spec [OF wf assms(2) this, of "[]"] show ?thesis
    using assms(2) michael_hdr_blocks [OF assms(4)]
    by (simp add: michael_mic_def Let_def michael_ref_blocks)
qed

theorem michael_mic_correct_witness:
  "michael_mic [1, 2, 3, 4, 5, 6, 7, 8]
     [\<lparr>m_flags = M_PKTHDR, m_data = 0, m_len = 26, m_type = 1, m_pkthdr = no_pkthdr\<lparr>ph_len := 29\<rparr>,
        m_cluster = replicate 24 0 @ [1, 2]\<rparr>,
      \<lparr>m_flags = 0, m_data = 1, m_len = 3, m_type = 1, m_pkthdr = no_pkthdr, m_cluster = [9, 3, 4, 5]\<rparr>]
     24 5 =
   Some (michael_ref [1, 2, 3, 4, 5, 6, 7, 8] (replicate 16 0 @ [1, 2, 3, 4, 5]))"
proof -
  define m where "m =
     [\<lparr>m_flags = M_PKTHDR, m_data = 0, m_len = 26, m_type = 1, m_pkthdr = no_pkthdr\<lparr>ph_len := 29\<rparr>,
        m_cluster = replicate 24 0 @ [1, 2]\<rparr>,
      \<lparr>m_flags = 0, m_data = 1, m_len = 3, m_type = 1, m_pkthdr = no_pkthdr, m_cluster = [9, 3, 4, 5]\<rparr>]"
  have wf: "wf_packet m" "front_len m = 26"
    by (simp_all add: m_def wf_packet_def wf_chain_def wf_mbuf_def chain_len_def has_flag_def M_PKTHDR_def)
  have b: "chain_bytes m = replicate 24 0 @ [1, 2, 3, 4, 5]"
    by (simp add: m_def m_bytes_def)
  have h: "michael_mic_hdr (mtod m) = replicate 16 0"
    by (simp add: m_def mtod_def michael_mic_hdr_def i_fc_def fc_defs i_addr1_def i_addr2_def
        has_flag_def numeral_eq_Suc)
  show ?thesis
    unfolding m_def [symmetric]
    using michael_mic_correct [of m 24 5 "[1, 2, 3, 4, 5, 6, 7, 8]"] wf by (simp add: b h)
qed

subsection \<open>Injectivity\<close>

definition mix :: "(u32 \<Rightarrow> u32) \<Rightarrow> lr \<Rightarrow> lr" where
  "mix f lr = (let r = snd lr XOR f (fst lr) in (fst lr + r, r))"

lemma mix_inj: "mix f x = mix f y \<Longrightarrow> x = y"
proof -
  assume eq: "mix f x = mix f y"
  then have r: "snd x XOR f (fst x) = snd y XOR f (fst y)" by (simp add: mix_def Let_def)
  moreover from eq r have "fst x = fst y" by (simp add: mix_def Let_def)
  ultimately have "snd x = snd y" by (metis xor_word_cancel(2))
  then show "x = y" using \<open>fst x = fst y\<close> by (simp add: prod_eq_iff)
qed

lemma michael_block_mix:
  "michael_block = mix (\<lambda>l. rotr l 2) \<circ> mix (\<lambda>l. rotl l 3) \<circ> mix xswap \<circ> mix (\<lambda>l. rotl l 17)"
  by (rule ext) (simp add: michael_block_def mix_def Let_def split_beta)

lemma michael_block_inj: "michael_block x = michael_block y \<Longrightarrow> x = y"
  unfolding michael_block_mix comp_def by (drule mix_inj)+

definition michael_step :: "lr \<Rightarrow> u32 \<Rightarrow> lr" where
  "michael_step lr w = michael_block (fst lr XOR w, snd lr)"

lemma xor_word_inj: "(a :: 'a::len word) XOR w = b XOR w \<Longrightarrow> a = b"
  by (metis xor_word_cancel(2))

lemma michael_step_inj: "michael_step s w = michael_step s' w \<Longrightarrow> s = s'"
proof -
  assume "michael_step s w = michael_step s' w"
  then have "(fst s XOR w, snd s) = (fst s' XOR w, snd s')"
    unfolding michael_step_def by (rule michael_block_inj)
  then show "s = s'" using xor_word_inj [of "fst s" w "fst s'"] by (simp add: prod_eq_iff)
qed

lemma michael_step_word_inj: "michael_step s w = michael_step s w' \<Longrightarrow> w = w'"
proof -
  assume "michael_step s w = michael_step s w'"
  then have "(fst s XOR w, snd s) = (fst s XOR w', snd s)"
    unfolding michael_step_def by (rule michael_block_inj)
  then show "w = w'" using xor_word_inj [of w "fst s" w'] by (simp add: xor.commute)
qed

lemma michael_foldl_inj: "foldl michael_step s ws = foldl michael_step s' ws \<Longrightarrow> s = s'"
proof (induction ws arbitrary: s s')
  case (Cons w ws)
  then have "michael_step s w = michael_step s' w" by simp
  then show ?case by (rule michael_step_inj)
qed simp

lemma le_words_append: "length xs mod 4 = 0 \<Longrightarrow> le_words (xs @ ys) = le_words xs @ le_words ys"
  by (induction xs rule: le_words.induct) (auto simp: mod_Suc split: if_splits)

lemma le32enc_inject [simp]: "le32enc a = le32enc b \<longleftrightarrow> a = b"
proof
  assume "le32enc a = le32enc b"
  from arg_cong [OF this, of le32dec] show "a = b" by simp
qed simp



end
