(* ===== verification/Tkip.thy ===== *)
theory Tkip
  imports Wep Michael
begin

text \<open>
  The TKIP module (\<open>net80211/ieee80211_crypto_tkip.c\<close>): per-packet key mixing, the
  encapsulation and decapsulation with the replay check, and the MIC operations.  The
  context \<open>struct tkip_ctx\<close> is an explicit argument and result, like the key, whose transmit
  and receive counters the operations change.
\<close>

subsection \<open>Key mixing\<close>

definition RotR1 :: "u16 \<Rightarrow> u16" where
  "RotR1 val = drop_bit 1 val OR push_bit 15 val"

definition Lo8 :: "u16 \<Rightarrow> u8" where "Lo8 val = ucast (val AND 0xff)"
definition Hi8 :: "u16 \<Rightarrow> u8" where "Hi8 val = ucast (drop_bit 8 val)"
definition Lo16 :: "u32 \<Rightarrow> u16" where "Lo16 val = ucast (val AND 0xffff)"
definition Hi16 :: "u32 \<Rightarrow> u16" where "Hi16 val = ucast (drop_bit 16 val)"
definition Mk16 :: "u8 \<Rightarrow> u8 \<Rightarrow> u16" where "Mk16 hi lo = ucast lo OR push_bit 8 (ucast hi)"

text \<open>\<open>Mk16_le((const u16 *) &TK[i])\<close>: the little-endian word at offset \<open>i\<close>.\<close>

definition Mk16_le :: "bytes \<Rightarrow> nat \<Rightarrow> u16" where
  "Mk16_le TK i = Mk16 (TK ! (i + 1)) (TK ! i)"

definition Sbox :: "u16 list" where
  "Sbox =
    [0xC6A5, 0xF884, 0xEE99, 0xF68D, 0xFF0D, 0xD6BD, 0xDEB1, 0x9154, 0x6050, 0x0203,
     0xCEA9, 0x567D, 0xE719, 0xB562, 0x4DE6, 0xEC9A, 0x8F45, 0x1F9D, 0x8940, 0xFA87,
     0xEF15, 0xB2EB, 0x8EC9, 0xFB0B, 0x41EC, 0xB367, 0x5FFD, 0x45EA, 0x23BF, 0x53F7,
     0xE496, 0x9B5B, 0x75C2, 0xE11C, 0x3DAE, 0x4C6A, 0x6C5A, 0x7E41, 0xF502, 0x834F,
     0x685C, 0x51F4, 0xD134, 0xF908, 0xE293, 0xAB73, 0x6253, 0x2A3F, 0x080C, 0x9552,
     0x4665, 0x9D5E, 0x3028, 0x37A1, 0x0A0F, 0x2FB5, 0x0E09, 0x2436, 0x1B9B, 0xDF3D,
     0xCD26, 0x4E69, 0x7FCD, 0xEA9F, 0x121B, 0x1D9E, 0x5874, 0x342E, 0x362D, 0xDCB2,
     0xB4EE, 0x5BFB, 0xA4F6, 0x764D, 0xB761, 0x7DCE, 0x527B, 0xDD3E, 0x5E71, 0x1397,
     0xA6F5, 0xB968, 0x0000, 0xC12C, 0x4060, 0xE31F, 0x79C8, 0xB6ED, 0xD4BE, 0x8D46,
     0x67D9, 0x724B, 0x94DE, 0x98D4, 0xB0E8, 0x854A, 0xBB6B, 0xC52A, 0x4FE5, 0xED16,
     0x86C5, 0x9AD7, 0x6655, 0x1194, 0x8ACF, 0xE910, 0x0406, 0xFE81, 0xA0F0, 0x7844,
     0x25BA, 0x4BE3, 0xA2F3, 0x5DFE, 0x80C0, 0x058A, 0x3FAD, 0x21BC, 0x7048, 0xF104,
     0x63DF, 0x77C1, 0xAF75, 0x4263, 0x2030, 0xE51A, 0xFD0E, 0xBF6D, 0x814C, 0x1814,
     0x2635, 0xC32F, 0xBEE1, 0x35A2, 0x88CC, 0x2E39, 0x9357, 0x55F2, 0xFC82, 0x7A47,
     0xC8AC, 0xBAE7, 0x322B, 0xE695, 0xC0A0, 0x1998, 0x9ED1, 0xA37F, 0x4466, 0x547E,
     0x3BAB, 0x0B83, 0x8CCA, 0xC729, 0x6BD3, 0x283C, 0xA779, 0xBCE2, 0x161D, 0xAD76,
     0xDB3B, 0x6456, 0x744E, 0x141E, 0x92DB, 0x0C0A, 0x486C, 0xB8E4, 0x9F5D, 0xBD6E,
     0x43EF, 0xC4A6, 0x39A8, 0x31A4, 0xD337, 0xF28B, 0xD532, 0x8B43, 0x6E59, 0xDAB7,
     0x018C, 0xB164, 0x9CD2, 0x49E0, 0xD8B4, 0xACFA, 0xF307, 0xCF25, 0xCAAF, 0xF48E,
     0x47E9, 0x1018, 0x6FD5, 0xF088, 0x4A6F, 0x5C72, 0x3824, 0x57F1, 0x73C7, 0x9751,
     0xCB23, 0xA17C, 0xE89C, 0x3E21, 0x96DD, 0x61DC, 0x0D86, 0x0F85, 0xE090, 0x7C42,
     0x71C4, 0xCCAA, 0x90D8, 0x0605, 0xF701, 0x1C12, 0xC2A3, 0x6A5F, 0xAEF9, 0x69D0,
     0x1791, 0x9958, 0x3A27, 0x27B9, 0xD938, 0xEB13, 0x2BB3, 0x2233, 0xD2BB, 0xA970,
     0x0789, 0x33A7, 0x2DB6, 0x3C22, 0x1592, 0xC920, 0x8749, 0xAAFF, 0x5078, 0xA57A,
     0x038F, 0x59F8, 0x0980, 0x1A17, 0x65DA, 0xD731, 0x84C6, 0xD0B8, 0x82C3, 0x29B0,
     0x5A77, 0x1E11, 0x7BCB, 0xA8FC, 0x6DD6, 0x2C3A]"

definition S_box :: "u16 \<Rightarrow> u16" where
  "S_box v =
     (let t = Sbox ! unat (Hi8 v)
      in Sbox ! unat (Lo8 v) XOR (push_bit 8 t OR drop_bit 8 t))"

definition PHASE1_LOOP_COUNT :: nat where "PHASE1_LOOP_COUNT = 8"

record ttak =
  ttak0 :: u16
  ttak1 :: u16
  ttak2 :: u16
  ttak3 :: u16
  ttak4 :: u16

definition phase1_round :: "bytes \<Rightarrow> nat \<Rightarrow> ttak \<Rightarrow> ttak" where
  "phase1_round TK i T =
     (let j = 2 * (i mod 2);
          t0 = ttak0 T + S_box (ttak4 T XOR Mk16 (TK ! (1 + j)) (TK ! (0 + j)));
          t1 = ttak1 T + S_box (t0 XOR Mk16 (TK ! (5 + j)) (TK ! (4 + j)));
          t2 = ttak2 T + S_box (t1 XOR Mk16 (TK ! (9 + j)) (TK ! (8 + j)));
          t3 = ttak3 T + S_box (t2 XOR Mk16 (TK ! (13 + j)) (TK ! (12 + j)));
          t4 = ttak4 T + S_box (t3 XOR Mk16 (TK ! (1 + j)) (TK ! (0 + j))) + of_nat i
      in \<lparr>ttak0 = t0, ttak1 = t1, ttak2 = t2, ttak3 = t3, ttak4 = t4\<rparr>)"

definition tkip_mixing_phase1 :: "bytes \<Rightarrow> bytes \<Rightarrow> u32 \<Rightarrow> ttak" where
  "tkip_mixing_phase1 TK TA IV32 =
     fold (phase1_round TK) [0..<PHASE1_LOOP_COUNT]
       \<lparr>ttak0 = Lo16 IV32, ttak1 = Hi16 IV32, ttak2 = Mk16 (TA ! 1) (TA ! 0),
        ttak3 = Mk16 (TA ! 3) (TA ! 2), ttak4 = Mk16 (TA ! 5) (TA ! 4)\<rparr>"

definition le16enc :: "u16 \<Rightarrow> bytes" where
  "le16enc v = [Lo8 v, Hi8 v]"

definition tkip_mixing_phase2 :: "bytes \<Rightarrow> ttak \<Rightarrow> u16 \<Rightarrow> bytes" where
  "tkip_mixing_phase2 TK T IV16 =
     (let p0 = ttak0 T; p1 = ttak1 T; p2 = ttak2 T; p3 = ttak3 T; p4 = ttak4 T; p5 = ttak4 T + IV16;
          p0 = p0 + S_box (p5 XOR Mk16_le TK 0);
          p1 = p1 + S_box (p0 XOR Mk16_le TK 2);
          p2 = p2 + S_box (p1 XOR Mk16_le TK 4);
          p3 = p3 + S_box (p2 XOR Mk16_le TK 6);
          p4 = p4 + S_box (p3 XOR Mk16_le TK 8);
          p5 = p5 + S_box (p4 XOR Mk16_le TK 10);
          p0 = p0 + RotR1 (p5 XOR Mk16_le TK 12);
          p1 = p1 + RotR1 (p0 XOR Mk16_le TK 14);
          p2 = p2 + RotR1 p1;
          p3 = p3 + RotR1 p2;
          p4 = p4 + RotR1 p3;
          p5 = p5 + RotR1 p4
      in [Hi8 IV16, (Hi8 IV16 OR 0x20) AND 0x7F, Lo8 IV16,
          Lo8 (drop_bit 1 (p5 XOR Mk16_le TK 0))]
         @ le16enc p0 @ le16enc p1 @ le16enc p2 @ le16enc p3 @ le16enc p4 @ le16enc p5)"

subsection \<open>Encryption and decryption of the data\<close>

record tkip_ctx =
  tx_ttak :: ttak
  tx_phase1_done :: bool
  tx_rc4key :: bytes
  rx_ttak :: ttak
  rx_phase1_done :: bool
  rx_rc4key :: bytes
  rx_rsc :: u64

definition zero_ttak :: ttak where
  "zero_ttak = \<lparr>ttak0 = 0, ttak1 = 0, ttak2 = 0, ttak3 = 0, ttak4 = 0\<rparr>"

definition tkip_attach :: "bool \<Rightarrow> 'b com_scheme \<Rightarrow> tkip_ctx option \<times> 'b com_scheme" where
  "tkip_attach alloc ic =
     (if \<not> alloc then (None, inc_stat is_crypto_nomem ic)
      else (Some \<lparr>tx_ttak = zero_ttak, tx_phase1_done = False, tx_rc4key = replicate 16 0,
              rx_ttak = zero_ttak, rx_phase1_done = False, rx_rc4key = replicate 16 0, rx_rsc = 0\<rparr>, ic))"

definition tkip_setkey :: "'a ieee80211_key_scheme \<Rightarrow> bool \<times> 'a ieee80211_key_scheme" where
  "tkip_setkey k = (if wk_keylen k \<noteq> 128 div 8 then (False, k) else (True, k\<lparr>wk_keytsc := 1\<rparr>))"

text \<open>The copies of the WEP routines with a 16-byte key; \<open>i & 0x0f\<close> is \<open>i mod 16\<close>.\<close>

definition tkip_wep_encrypt :: "bytes \<Rightarrow> chain \<Rightarrow> nat \<Rightarrow> nat \<Rightarrow> bytes \<times> chain" where
  "tkip_wep_encrypt key m0 off data_len =
     (case rc4_encrypt (rc4_setup key 16) m0 off data_len of (left, icv, m1) \<Rightarrow> (icv, m1))"

definition tkip_wep_decrypt :: "bytes \<Rightarrow> chain \<Rightarrow> nat \<Rightarrow> nat \<Rightarrow> bool \<times> chain" where
  "tkip_wep_decrypt key m off data_len =
     (case rc4_decrypt (rc4_setup key 16) m off data_len of (left, icv_ok, m1) \<Rightarrow> (icv_ok, m1))"

definition tkip_encrypt ::
  "bytes option list \<Rightarrow> 'a ieee80211_key_scheme \<Rightarrow> tkip_ctx \<Rightarrow> 'b com_scheme \<Rightarrow> chain \<Rightarrow> nat \<Rightarrow>
   bool \<times> 'a ieee80211_key_scheme \<times> tkip_ctx \<times> 'b com_scheme \<times> chain" where
  "tkip_encrypt mems key ctx ic m hdrlen =
     (let ic1 = inc_stat is_crypto_tkip ic;
          wh = mtod m;
          ctx1 = (if tx_phase1_done ctx then ctx
                  else ctx\<lparr>tx_ttak := tkip_mixing_phase1 (wk_key key) (i_addr2 wh)
                                         (ucast (drop_bit 16 (wk_keytsc key))),
                           tx_phase1_done := True\<rparr>);
          ctx2 = ctx1\<lparr>tx_rc4key := tkip_mixing_phase2 (wk_key key) (tx_ttak ctx1) (ucast (wk_keytsc key))\<rparr>;
          off = hdrlen + ic_header cipher_tkip;
          (icv, m1) = tkip_wep_encrypt (tx_rc4key ctx2) m off (uint_sub (pkt_len m) off);
          (ok, m2) = m_append mems m1 icv
      in if \<not> ok then (False, key, ctx2, ic1, m2)
         else let key1 = key\<lparr>wk_keytsc := wk_keytsc key + 1\<rparr>;
                  ctx3 = (if (ucast (wk_keytsc key1) :: u16) = 0 then ctx2\<lparr>tx_phase1_done := False\<rparr> else ctx2)
              in (True, key1, ctx3, ic1, m2))"

text \<open>The receive side of the per-packet key: the cached first phase, then the second.\<close>

definition tkip_rx_key :: "'a ieee80211_key_scheme \<Rightarrow> tkip_ctx \<Rightarrow> bytes \<Rightarrow> tkip_ctx" where
  "tkip_rx_key key ctx wh =
     (let iv16 = (ucast (rx_rsc ctx) :: u16);
          iv32 = (ucast (drop_bit 16 (rx_rsc ctx)) :: u32);
          ctx1 = (if iv32 \<noteq> ucast (drop_bit 16 (wk_keyrsc key)) \<or> \<not> rx_phase1_done ctx
                  then ctx\<lparr>rx_ttak := tkip_mixing_phase1 (wk_key key) (i_addr2 wh) iv32,
                           rx_phase1_done := True\<rparr>
                  else ctx)
      in ctx1\<lparr>rx_rc4key := tkip_mixing_phase2 (wk_key key) (rx_ttak ctx1) iv16\<rparr>)"

definition tkip_decrypt ::
  "'a ieee80211_key_scheme \<Rightarrow> tkip_ctx \<Rightarrow> 'b com_scheme \<Rightarrow> chain \<Rightarrow> nat \<Rightarrow>
   bool \<times> tkip_ctx \<times> 'b com_scheme \<times> chain" where
  "tkip_decrypt key ctx ic m hdrlen =
     (let ic1 = inc_stat is_crypto_tkip ic;
          iv32 = (ucast (drop_bit 16 (rx_rsc ctx)) :: u32);
          ctx1 = tkip_rx_key key ctx (mtod m);
          off = hdrlen + ic_header cipher_tkip;
          (icv_ok, m1) = tkip_wep_decrypt (rx_rc4key ctx1) m off
             (uint_sub (pkt_len m) (off + ic_trailer cipher_tkip))
      in if \<not> icv_ok
         then (False,
               (if iv32 \<noteq> ucast (drop_bit 16 (wk_keyrsc key)) then ctx1\<lparr>rx_phase1_done := False\<rparr> else ctx1),
               inc_stat is_rx_tkipicv ic1, m1)
         else (True, ctx1, ic1, m1))"

subsection \<open>Encapsulation and decapsulation\<close>

definition IEEE80211_F_COUNTERM :: u32 where "IEEE80211_F_COUNTERM = 0x04000000"

definition tkip_encap ::
  "bytes option list \<Rightarrow> 'a ieee80211_key_scheme \<Rightarrow> tkip_ctx \<Rightarrow> 'b com_scheme \<Rightarrow> chain \<Rightarrow> u8 \<Rightarrow>
   bool \<times> 'a ieee80211_key_scheme \<times> tkip_ctx \<times> 'b com_scheme \<times> chain" where
  "tkip_encap mems k ctx ic m keyid =
     (if has_flag (ic_flags ic) IEEE80211_F_COUNTERM
      then (False, k, ctx, inc_stat is_crypto_tkipcm ic, m)
      else
        let hdrlen = ieee80211_hdrspace (ic_flags ic) (mtod m);
            tsc = wk_keytsc k;
            iv0 = (ucast (drop_bit 8 tsc) :: u8);
            m1 = m_poke m hdrlen
              [iv0, (iv0 OR 0x20) AND 0x7f, ucast tsc, keyid OR IEEE80211_WEP_EXTIV,
               ucast (drop_bit 16 tsc), ucast (drop_bit 24 tsc),
               ucast (drop_bit 32 tsc), ucast (drop_bit 40 tsc)]
        in if swcrypt k then tkip_encrypt mems k ctx ic m1 hdrlen
           else (True, k\<lparr>wk_keytsc := tsc + 1\<rparr>, ctx, ic, m1))"

definition READ_6 :: "u8 \<Rightarrow> u8 \<Rightarrow> u8 \<Rightarrow> u8 \<Rightarrow> u8 \<Rightarrow> u8 \<Rightarrow> u64" where
  "READ_6 b0 b1 b2 b3 b4 b5 =
     (let iv32 = (ucast b0 OR push_bit 8 (ucast b1) OR push_bit 16 (ucast b2) OR push_bit 24 (ucast b3) :: u32);
          iv16 = (ucast b4 OR push_bit 8 (ucast b5) :: u16)
      in push_bit 32 (ucast iv16) OR ucast iv32)"

definition tkip_decap ::
  "'a ieee80211_key_scheme \<Rightarrow> tkip_ctx \<Rightarrow> 'b com_scheme \<Rightarrow> chain \<Rightarrow> nat \<Rightarrow>
   bool \<times> tkip_ctx \<times> 'b com_scheme \<times> chain" where
  "tkip_decap k ctx ic m hdrlen =
     (let wh = mtod m; ivp = drop hdrlen (mtod m)
      in if \<not> has_flag (ivp ! IEEE80211_WEP_IVLEN) IEEE80211_WEP_EXTIV
         then (False, ctx, inc_stat is_rx_tkipformat ic, m)
         else if has_flag (ic_flags ic) IEEE80211_F_COUNTERM
         then (False, ctx, inc_stat is_crypto_tkipcm ic, m)
         else
           let ctx1 = ctx\<lparr>rx_rsc := READ_6 (ivp ! 2) (ivp ! 0) (ivp ! 4) (ivp ! 5) (ivp ! 6) (ivp ! 7)\<rparr>
           in if rx_rsc ctx1 \<le> wk_keyrsc k
              then (False, ctx1,
                    inc_stat is_rx_tkipreplay (ieee80211_notify_replay_failure wh k (rx_rsc ctx1) ic), m)
              else
                let (ok, ctx2, ic1, m1) =
                      (if swcrypt k then tkip_decrypt k ctx1 ic m hdrlen else (True, ctx1, ic, m))
                in if \<not> ok then (False, ctx2, ic1, m1)
                   else (True, ctx2, ic1, strip_crypto cipher_tkip m1 hdrlen))"

subsection \<open>The message integrity code\<close>

text \<open>\<open>None\<close> stands for the null pointer access of \<open>michael_mic\<close>.\<close>

definition tkip_enmic ::
  "bytes option list \<Rightarrow> 'a ieee80211_key_scheme \<Rightarrow> 'b com_scheme \<Rightarrow> chain \<Rightarrow> bool \<Rightarrow>
   (bool \<times> 'b com_scheme \<times> chain) option" where
  "tkip_enmic mems k ic m force =
     (if force \<or> swmic k
      then let ic1 = inc_stat is_crypto_tkipenmic ic;
               hdrlen = ieee80211_hdrspace (ic_flags ic1) (mtod m)
           in case michael_mic (wk_txmic k) m hdrlen (uint_sub (pkt_len m) hdrlen) of
                None \<Rightarrow> None
              | Some mic \<Rightarrow> (case m_append mems m mic of (ok, m1) \<Rightarrow> Some (ok, ic1, m1))
      else Some (True, ic, m))"

definition tkip_demic ::
  "'a ieee80211_key_scheme \<Rightarrow> tkip_ctx \<Rightarrow> 'b com_scheme \<Rightarrow> chain \<Rightarrow> bool \<Rightarrow>
   (bool \<times> 'a ieee80211_key_scheme \<times> 'b com_scheme \<times> chain) option" where
  "tkip_demic k ctx ic m force =
     (let accept = (\<lambda>ic1. Some (True, k\<lparr>wk_keyrsc := rx_rsc ctx\<rparr>, ic1, m_adj m (- int (ic_miclen cipher_tkip))))
      in if force \<or> swmic k
         then let wh = mtod m;
                  hdrlen = ieee80211_hdrspace (ic_flags ic) wh;
                  ic1 = inc_stat is_crypto_tkipdemic ic
              in case michael_mic (wk_rxmic k) m hdrlen
                        (uint_sub (pkt_len m) (hdrlen + ic_miclen cipher_tkip)) of
                   None \<Rightarrow> None
                 | Some mic \<Rightarrow>
                     if mic \<noteq> m_copydata m (pkt_len m - ic_miclen cipher_tkip) (ic_miclen cipher_tkip)
                     then Some (False, k,
                            ieee80211_notify_michael_failure wh
                              (if wk_rxkeyix k \<noteq> IEEE80211_KEYIX_NONE then wk_rxkeyix k else wk_keyix k) ic1, m)
                     else accept ic1
         else accept ic)"

subsection \<open>The transmit counter in the header\<close>

definition tsc_header :: "u64 \<Rightarrow> u8 \<Rightarrow> bytes" where
  "tsc_header tsc keyid =
     [ucast (drop_bit 8 tsc), (ucast (drop_bit 8 tsc) OR 0x20) AND 0x7f, ucast tsc,
      keyid OR IEEE80211_WEP_EXTIV, ucast (drop_bit 16 tsc), ucast (drop_bit 24 tsc),
      ucast (drop_bit 32 tsc), ucast (drop_bit 40 tsc)]"

definition read_tsc :: "bytes \<Rightarrow> u64" where
  "read_tsc ivp = READ_6 (ivp ! 2) (ivp ! 0) (ivp ! 4) (ivp ! 5) (ivp ! 6) (ivp ! 7)"

lemma bit_u16_ge [simp]: "16 \<le> n \<Longrightarrow> \<not> bit (x :: u16) n"
  by (auto dest: bit_imp_le_length)

lemma bit_u32_ge [simp]: "32 \<le> n \<Longrightarrow> \<not> bit (x :: u32) n"
  by (auto dest: bit_imp_le_length)

lemma READ_6_bits: "READ_6 (ucast v) (ucast (drop_bit 8 v)) (ucast (drop_bit 16 v))
    (ucast (drop_bit 24 v)) (ucast (drop_bit 32 v)) (ucast (drop_bit 40 v)) = take_bit 48 (v :: u64)"
proof (rule bit_word_eqI)
  fix n :: nat
  show "bit (READ_6 (ucast v) (ucast (drop_bit 8 v)) (ucast (drop_bit 16 v))
    (ucast (drop_bit 24 v)) (ucast (drop_bit 32 v)) (ucast (drop_bit 40 v))) n = bit (take_bit 48 v) n"
  proof (cases "n < 48")
    case True
    define k i where "k = n div 8" and "i = n mod 8"
    have n: "n = 8 * k + i" "i < 8" by (simp_all add: k_def i_def)
    have "k = 0 \<or> k = 1 \<or> k = 2 \<or> k = 3 \<or> k = 4 \<or> k = 5" using True n by linarith
    then show ?thesis using n(2) unfolding n(1)
      by (elim disjE) (simp_all add: READ_6_def Let_def bit_simps)
  qed (auto simp: READ_6_def Let_def bit_simps)
qed

lemma length_tsc_header [simp]: "length (tsc_header tsc keyid) = 8"
  by (simp add: tsc_header_def)

lemma read_tsc_header: "read_tsc (tsc_header tsc keyid @ rest) = take_bit 48 tsc"
  using READ_6_bits [of tsc] by (simp add: read_tsc_def tsc_header_def)

lemma tsc_header_extiv: "has_flag (tsc_header tsc keyid ! 3) IEEE80211_WEP_EXTIV"
proof -
  have "(keyid OR 0x20) AND 0x20 = (0x20 :: u8)" by (auto simp: bit_eq_iff bit_simps)
  then show ?thesis by (simp add: has_flag_def tsc_header_def IEEE80211_WEP_EXTIV_def)
qed

subsection \<open>The cached first phase\<close>

definition tkip_seed :: "bytes \<Rightarrow> bytes \<Rightarrow> u64 \<Rightarrow> bytes" where
  "tkip_seed TK TA tsc =
     tkip_mixing_phase2 TK (tkip_mixing_phase1 TK TA (ucast (drop_bit 16 tsc))) (ucast tsc)"

definition tx_cache_ok :: "'a ieee80211_key_scheme \<Rightarrow> tkip_ctx \<Rightarrow> bytes \<Rightarrow> bool" where
  "tx_cache_ok k ctx TA \<longleftrightarrow> (tx_phase1_done ctx \<longrightarrow>
     tx_ttak ctx = tkip_mixing_phase1 (wk_key k) TA (ucast (drop_bit 16 (wk_keytsc k))))"

definition rx_cache_ok :: "'a ieee80211_key_scheme \<Rightarrow> tkip_ctx \<Rightarrow> bytes \<Rightarrow> bool" where
  "rx_cache_ok k ctx TA \<longleftrightarrow> (rx_phase1_done ctx \<longrightarrow>
     rx_ttak ctx = tkip_mixing_phase1 (wk_key k) TA (ucast (drop_bit 16 (wk_keyrsc k))))"

lemma tkip_rx_key_seed:
  "rx_cache_ok k ctx (i_addr2 wh) \<Longrightarrow>
   rx_rc4key (tkip_rx_key k ctx wh) = tkip_seed (wk_key k) (i_addr2 wh) (rx_rsc ctx)"
  by (auto simp: tkip_rx_key_def rx_cache_ok_def tkip_seed_def Let_def)

text \<open>Incrementing the counter keeps its upper part unless the low 16 bits become zero.\<close>

lemma tsc_step:
  assumes "(ucast (v + 1) :: u16) \<noteq> 0"
  shows "drop_bit 16 (v + 1) = drop_bit 16 (v :: u64)"
proof -
  have lo: "unat (ucast x :: u16) = unat x mod 65536" for x :: u64
    by (simp only: unsigned_ucast_eq) (simp add: take_bit_eq_mod)
  have nz: "unat (v + 1) mod 65536 \<noteq> 0" using assms lo [of "v + 1"] by (metis unat_eq_zero)
  have "unat (v + 1) = Suc (unat v)"
  proof (cases "v + 1 = 0")
    case True
    then show ?thesis using nz by simp
  next
    case False
    then show ?thesis using unatSuc [of v] by (simp add: add.commute)
  qed
  then have "unat (v + 1) div 65536 = unat v div 65536" using nz by (simp add: div_Suc)
  then have "unat (drop_bit 16 (v + 1)) = unat (drop_bit 16 v)"
    by (simp only: unat_drop_bit_eq) (simp add: drop_bit_eq_div)
  then show ?thesis by (simp add: word_unat_eq_iff)
qed

subsection \<open>Encapsulation\<close>

lemma slice_put_at:
  "i + n \<le> k \<Longrightarrow> k \<le> length b \<Longrightarrow> take n (drop i (put_at k src b)) = take n (drop i b)"
  by (simp add: drop_put_at)

lemma i_addr2_mtod:
  "wf_packet m \<Longrightarrow> 16 \<le> front_len m \<Longrightarrow> i_addr2 (mtod m) = take 6 (drop 10 (chain_bytes m))"
  unfolding i_addr2_def by (rule slice_mtod) simp_all

lemma poke_addr2:
  assumes "wf_packet m" "24 \<le> hdrlen" "hdrlen + length iv \<le> front_len m"
  shows "i_addr2 (mtod (m_poke m hdrlen iv)) = i_addr2 (mtod m)"
proof -
  note m1 = m_poke_chain [OF assms(1,3)]
  have "hdrlen \<le> length (chain_bytes m)" using assms(3) front_len_le [OF assms(1)] by simp
  then show ?thesis
    using assms m1 by (simp add: i_addr2_mtod slice_put_at)
qed

lemma tkip_encap_sw:
  fixes k :: "'a ieee80211_key_scheme"
  assumes "wf_packet ms" "hdrlen = ieee80211_hdrspace (ic_flags ic) (mtod ms)"
    and "hdrlen + ic_header cipher_tkip \<le> front_len ms" "swcrypt k" "length cl = MCLBYTES + MH_ALIGN"
    and "\<not> has_flag (ic_flags ic) IEEE80211_F_COUNTERM" "tx_cache_ok k ctx (i_addr2 (mtod ms))"
  obtains m1 icv m2 ms1 ctx' where
    "m1 = m_poke ms hdrlen (tsc_header (wk_keytsc k) keyid)" "wf_packet m1" "front_len m1 = front_len ms"
    "chain_bytes m1 = put_at hdrlen (tsc_header (wk_keytsc k) keyid) (chain_bytes ms)"
    "rc4_encrypt (rc4_setup (tkip_seed (wk_key k) (i_addr2 (mtod ms)) (wk_keytsc k)) 16) m1 (hdrlen + 8)
       (pkt_len m1 - (hdrlen + 8)) = (0, icv, m2)"
    "tkip_encap [Some cl] k ctx ic ms keyid =
       (True, k\<lparr>wk_keytsc := wk_keytsc k + 1\<rparr>, ctx', inc_stat is_crypto_tkip ic, ms1)"
    "chain_bytes ms1 = chain_bytes m2 @ icv" "wf_packet ms1"
    "take (hdrlen + 8) (chain_bytes ms1) = take (hdrlen + 8) (chain_bytes m1)"
    "length (chain_bytes ms1) = length (chain_bytes ms) + 4"
    "tx_cache_ok (k\<lparr>wk_keytsc := wk_keytsc k + 1\<rparr>) ctx' (i_addr2 (mtod ms))"
proof -
  define tsc where "tsc = wk_keytsc k"
  define TA where "TA = i_addr2 (mtod ms)"
  define iv where "iv = tsc_header tsc keyid"
  define m1 where "m1 = m_poke ms hdrlen iv"
  have fits: "hdrlen + length iv \<le> front_len ms" using assms(3) by (simp add: iv_def wep_lens)
  note m1 = m_poke_chain [OF assms(1) fits, folded m1_def]
  have off: "hdrlen + 8 \<le> front_len m1" using fits by (simp add: m1(3) iv_def)
  have le: "hdrlen + 8 \<le> pkt_len m1"
    using off front_len_le [OF m1(2)] by (simp add: pkt_len_bytes [OF m1(2)])
  have h24: "24 \<le> hdrlen" using hdrspace_bounds(1) assms(2) by simp
  have TA1: "i_addr2 (mtod m1) = TA"
    unfolding TA_def m1_def by (rule poke_addr2 [OF assms(1) h24 fits])
  define ctx1 where "ctx1 = (if tx_phase1_done ctx then ctx
      else ctx\<lparr>tx_ttak := tkip_mixing_phase1 (wk_key k) TA (ucast (drop_bit 16 tsc)), tx_phase1_done := True\<rparr>)"
  define ctx2 where "ctx2 = ctx1\<lparr>tx_rc4key := tkip_mixing_phase2 (wk_key k) (tx_ttak ctx1) (ucast tsc)\<rparr>"
  have ttak: "tx_phase1_done ctx1" "tx_ttak ctx1 = tkip_mixing_phase1 (wk_key k) TA (ucast (drop_bit 16 tsc))"
    using assms(7) by (auto simp: ctx1_def tx_cache_ok_def TA_def tsc_def)
  then have key: "tx_rc4key ctx2 = tkip_seed (wk_key k) TA tsc" by (simp add: ctx2_def tkip_seed_def)
  define ctx3 where "ctx3 = (if (ucast (tsc + 1) :: u16) = 0 then ctx2\<lparr>tx_phase1_done := False\<rparr> else ctx2)"
  have cache: "tx_cache_ok (k\<lparr>wk_keytsc := tsc + 1\<rparr>) ctx3 TA"
    using ttak tsc_step [of tsc] by (auto simp: tx_cache_ok_def ctx3_def ctx2_def)
  obtain icv m2 ms1 where snd:
      "rc4_encrypt (rc4_setup (tkip_seed (wk_key k) TA tsc) 16) m1 (hdrlen + 8) (pkt_len m1 - (hdrlen + 8))
        = (0, icv, m2)" "m_append [Some cl] m2 icv = (True, ms1)"
      "chain_bytes ms1 = chain_bytes m2 @ icv" "wf_packet ms1" "front_len m1 \<le> front_len ms1"
      "take (hdrlen + 8) (chain_bytes ms1) = take (hdrlen + 8) (chain_bytes m1)"
      "length (chain_bytes ms1) = length (chain_bytes m1) + 4"
    by (rule rc4_send [OF m1(2) off assms(5)])
  have "tkip_encrypt [Some cl] k ctx ic m1 hdrlen =
      (True, k\<lparr>wk_keytsc := tsc + 1\<rparr>, ctx3, inc_stat is_crypto_tkip ic, ms1)"
    using snd(1,2) le
    unfolding tkip_encrypt_def Let_def TA1 tsc_def [symmetric] ctx1_def [symmetric] ctx2_def [symmetric] key
    by (simp add: tkip_wep_encrypt_def wep_lens) (simp add: ctx3_def)
  then have "tkip_encap [Some cl] k ctx ic ms keyid =
      (True, k\<lparr>wk_keytsc := tsc + 1\<rparr>, ctx3, inc_stat is_crypto_tkip ic, ms1)"
    using assms(4,6)
    by (simp add: tkip_encap_def assms(2) [symmetric] tsc_def [symmetric] tsc_header_def [symmetric]
        iv_def [symmetric] m1_def [symmetric] Let_def)
  moreover have "length (chain_bytes ms1) = length (chain_bytes ms) + 4"
    using snd(7) fits front_len_le [OF assms(1)] by (simp add: m1(1))
  ultimately show ?thesis
    using that [of m1 icv m2 ctx3 ms1] m1 snd cache by (simp add: m1_def iv_def tsc_def TA_def)
qed

subsection \<open>Decapsulation\<close>

lemma read_tsc_take: "length ivp \<ge> 8 \<Longrightarrow> read_tsc (take 8 ivp) = read_tsc ivp"
  by (simp add: read_tsc_def)

lemma tkip_iv_bytes:
  assumes "wf_packet ms2" "hdrlen + 8 \<le> front_len ms2"
    and "take 8 (drop hdrlen (chain_bytes ms2)) = tsc_header tsc keyid"
  shows "has_flag (drop hdrlen (mtod ms2) ! IEEE80211_WEP_IVLEN) IEEE80211_WEP_EXTIV"
    "read_tsc (drop hdrlen (mtod ms2)) = take_bit 48 tsc"
proof -
  have iv: "take 8 (drop hdrlen (mtod ms2)) = tsc_header tsc keyid"
    using slice_mtod [OF assms(1,2)] assms(3) by simp
  have "min (length (drop hdrlen (mtod ms2))) 8 = 8"
    using arg_cong [OF iv, of length] unfolding length_take length_tsc_header .
  then have len: "8 \<le> length (drop hdrlen (mtod ms2))" by linarith
  have "drop hdrlen (mtod ms2) ! 3 = tsc_header tsc keyid ! 3"
    unfolding iv [symmetric] by simp
  then show "has_flag (drop hdrlen (mtod ms2) ! IEEE80211_WEP_IVLEN) IEEE80211_WEP_EXTIV"
    using tsc_header_extiv by (simp add: wep_lens)
  show "read_tsc (drop hdrlen (mtod ms2)) = take_bit 48 tsc"
    using read_tsc_take [OF len] read_tsc_header [of tsc keyid "[]"] iv by simp
qed

lemma tkip_decap_sw:
  assumes "wf_packet ms2" "hdrlen + 8 \<le> front_len ms2" "swcrypt k"
    and "take 8 (drop hdrlen (chain_bytes ms2)) = tsc_header tsc keyid" "take_bit 48 tsc = tsc"
    and "\<not> has_flag (ic_flags ic) IEEE80211_F_COUNTERM" "wk_keyrsc k < tsc"
    and "rx_cache_ok k ctx (i_addr2 (mtod ms2))"
    and "rc4_decrypt (rc4_setup (tkip_seed (wk_key k) (i_addr2 (mtod ms2)) tsc) 16) ms2 (hdrlen + 8)
          (pkt_len ms2 - (hdrlen + 8 + 4)) = (0, True, ms3)" "hdrlen + 12 \<le> pkt_len ms2"
  shows "tkip_decap k ctx ic ms2 hdrlen =
    (True, tkip_rx_key k (ctx\<lparr>rx_rsc := tsc\<rparr>) (mtod ms2), inc_stat is_crypto_tkip ic,
     strip_crypto cipher_tkip ms3 hdrlen)"
proof -
  note iv = tkip_iv_bytes [OF assms(1,2,4), unfolded assms(5)]
  define ctx1 where "ctx1 = ctx\<lparr>rx_rsc := tsc\<rparr>"
  have "rx_cache_ok k ctx1 (i_addr2 (mtod ms2))" using assms(8) by (simp add: rx_cache_ok_def ctx1_def)
  then have key: "rx_rc4key (tkip_rx_key k ctx1 (mtod ms2)) = tkip_seed (wk_key k) (i_addr2 (mtod ms2)) tsc"
    by (simp add: tkip_rx_key_seed ctx1_def)
  have "tkip_decrypt k ctx1 ic ms2 hdrlen
      = (True, tkip_rx_key k ctx1 (mtod ms2), inc_stat is_crypto_tkip ic, ms3)"
    using assms(9,10) by (simp add: tkip_decrypt_def key tkip_wep_decrypt_def wep_lens add.commute)
  moreover have "\<not> rx_rsc ctx1 \<le> wk_keyrsc k" using assms(7) by (simp add: ctx1_def)
  ultimately show ?thesis
    using assms(3,6) iv
    by (simp add: tkip_decap_def read_tsc_def [symmetric] ctx1_def [symmetric] Let_def)
qed

subsection \<open>The receive path of a TKIP key\<close>

text \<open>
  Decapsulation followed by the MIC check, as \<open>ieee80211_input\<close> runs them on an
  unfragmented frame.
\<close>

definition tkip_rx_frame ::
  "'a ieee80211_key_scheme \<Rightarrow> tkip_ctx \<Rightarrow> 'b com_scheme \<Rightarrow> chain \<Rightarrow> nat \<Rightarrow>
   (bool \<times> 'a ieee80211_key_scheme \<times> tkip_ctx \<times> 'b com_scheme) option" where
  "tkip_rx_frame k ctx ic m hdrlen =
     (case tkip_decap k ctx ic m hdrlen of (ok, ctx1, ic1, m1) \<Rightarrow>
        if \<not> ok then Some (False, k, ctx1, ic1)
        else case tkip_demic k ctx1 ic1 m1 False of
               None \<Rightarrow> None
             | Some (ok2, k2, ic2, m2) \<Rightarrow> Some (ok2, k2, ctx1, ic2))"

text \<open>The counters of the frames accepted in a sequence of received frames.\<close>

fun tkip_accepted ::
  "'a ieee80211_key_scheme \<Rightarrow> tkip_ctx \<Rightarrow> 'b com_scheme \<Rightarrow> (chain \<times> nat) list \<Rightarrow> u64 list" where
  "tkip_accepted k ctx ic [] = []"
| "tkip_accepted k ctx ic ((m, hdrlen) # frames) =
     (case tkip_rx_frame k ctx ic m hdrlen of
        None \<Rightarrow> []
      | Some (ok, k', ctx', ic') \<Rightarrow>
          (if ok then [read_tsc (drop hdrlen (mtod m))] else []) @ tkip_accepted k' ctx' ic' frames)"

lemma tkip_rx_key_simps [simp]:
  "rx_rsc (tkip_rx_key k ctx wh) = rx_rsc ctx" "tx_ttak (tkip_rx_key k ctx wh) = tx_ttak ctx"
  "rx_phase1_done (tkip_rx_key k ctx wh)"
  by (simp_all add: tkip_rx_key_def Let_def)

lemma tkip_decrypt_rsc: "tkip_decrypt k ctx ic m h = (ok, ctx', ic', m') \<Longrightarrow> rx_rsc ctx' = rx_rsc ctx"
  by (auto simp: tkip_decrypt_def Let_def split: prod.splits if_splits)

lemma tkip_decap_accept:
  assumes "tkip_decap k ctx ic m h = (True, ctx', ic', m')"
  shows "rx_rsc ctx' = read_tsc (drop h (mtod m))" "wk_keyrsc k < rx_rsc ctx'"
  using assms
  by (auto simp: tkip_decap_def Let_def read_tsc_def not_le split: if_splits prod.splits
      dest!: tkip_decrypt_rsc)

lemma tkip_demic_key:
  assumes "tkip_demic k ctx ic m force = Some (ok, k', ic', m')"
  shows "k' = (if ok then k\<lparr>wk_keyrsc := rx_rsc ctx\<rparr> else k)"
  using assms by (auto simp: tkip_demic_def Let_def split: if_splits option.splits)

lemma tkip_rx_frame_rsc:
  assumes "tkip_rx_frame k ctx ic m h = Some (ok, k', ctx', ic')"
  shows "if ok then k' = k\<lparr>wk_keyrsc := read_tsc (drop h (mtod m))\<rparr> \<and> wk_keyrsc k < read_tsc (drop h (mtod m))
    else k' = k"
proof -
  obtain ok1 ctx1 ic1 m1 where d: "tkip_decap k ctx ic m h = (ok1, ctx1, ic1, m1)" by (metis prod_cases4)
  show ?thesis
    using assms tkip_decap_accept [of k ctx ic m h ctx1 ic1 m1]
    by (auto simp: tkip_rx_frame_def d split: if_splits option.splits prod.splits dest!: tkip_demic_key)
qed

lemma tkip_accepted_sorted:
  "sorted_wrt (<) (tkip_accepted k ctx ic frames) \<and> (\<forall>t \<in> set (tkip_accepted k ctx ic frames). wk_keyrsc k < t)"
proof (induction frames arbitrary: k ctx ic)
  case (Cons f frames)
  obtain m h where f: "f = (m, h)" by fastforce
  show ?case
  proof (cases "tkip_rx_frame k ctx ic m h")
    case None
    then show ?thesis by (simp add: f)
  next
    case (Some r)
    obtain ok k' ctx' ic' where r: "r = (ok, k', ctx', ic')" by (metis prod_cases4)
    note rsc = tkip_rx_frame_rsc [OF Some [unfolded r]]
    show ?thesis using Cons.IH [of k' ctx' ic'] rsc
      by (cases ok) (auto simp: f Some r dest: less_trans)
  qed
qed simp

subsection \<open>The MIC check\<close>

lemma michael_loop_None:
  assumes "pos \<le> m_len (hd ms)" "chain_len ms < pos + data_len"
  shows "michael_loop lr spill pos (m_len (hd ms) - pos) data_len ms = None"
  using assms
proof (induction ms arbitrary: lr spill pos data_len)
  case (Cons m ms)
  define n where "n = (if m_len m - pos > data_len then data_len else m_len m - pos)"
  have n: "n = m_len m - pos" "data_len - n \<noteq> 0" using Cons.prems by (auto simp: n_def)
  have IH: "michael_loop lr' spill' 0 (m_len (hd ms) - 0) (data_len - n) ms = None" for lr' spill'
    by (rule Cons.IH) (use Cons.prems n in auto)
  show ?case
    unfolding michael_loop.simps(2) list.sel n_def [symmetric] Let_def
    using IH n(2) by (simp split: prod.split)
qed simp

lemma tkip_demic_short:
  assumes "hdrlen = ieee80211_hdrspace (ic_flags ic) (mtod m)" "hdrlen \<le> front_len m" "wf_packet m"
    and "pkt_len m < hdrlen + 8" "swmic k"
  shows "tkip_demic k ctx ic m force = None"
proof -
  have wf: "wf_chain m" using assms(3) by auto
  have h: "hdrlen \<le> 32" using hdrspace_bounds(2) assms(1) by simp
  have "chain_len m < hdrlen + uint_sub (pkt_len m) (hdrlen + 8)"
    using assms(4) pkt_len_bytes [OF assms(3)] wf h by (simp add: uint_sub_def)
  then have "michael_mic key m hdrlen (uint_sub (pkt_len m) (hdrlen + 8)) = None" for key
    using assms(2) by (simp add: michael_mic_def Let_def michael_loop_None)
  then show ?thesis using assms(5) by (simp add: tkip_demic_def assms(1) [symmetric] wep_lens Let_def)
qed

lemma tkip_demic_spec:
  assumes "hdrlen = ieee80211_hdrspace (ic_flags ic) (mtod m)" "hdrlen \<le> front_len m" "wf_packet m"
    and "hdrlen + 8 \<le> length (chain_bytes m)" "length (michael_mic_hdr (mtod m)) = 16" "swmic k"
  shows "tkip_demic k ctx ic m force =
    (let n = length (chain_bytes m) - 8; ic1 = inc_stat is_crypto_tkipdemic ic
     in if drop n (chain_bytes m) = michael_ref (wk_rxmic k)
             (michael_mic_hdr (mtod m) @ take (n - hdrlen) (drop hdrlen (chain_bytes m)))
        then Some (True, k\<lparr>wk_keyrsc := rx_rsc ctx\<rparr>, ic1, m_adj m (- 8))
        else Some (False, k, ieee80211_notify_michael_failure (mtod m)
               (if wk_rxkeyix k \<noteq> IEEE80211_KEYIX_NONE then wk_rxkeyix k else wk_keyix k) ic1, m))"
proof -
  define n where "n = length (chain_bytes m) - 8"
  have pl: "pkt_len m = n + 8" using assms(3,4) by (simp add: pkt_len_bytes n_def)
  have le: "hdrlen \<le> n" using assms(4) by (simp add: n_def)
  have mic: "michael_mic (wk_rxmic k) m hdrlen (n - hdrlen) = Some (michael_ref (wk_rxmic k)
      (michael_mic_hdr (mtod m) @ take (n - hdrlen) (drop hdrlen (chain_bytes m))))"
    using assms(4) le by (intro michael_mic_correct assms(2,3,5)) (simp add: n_def)
  have cd: "m_copydata m n 8 = drop n (chain_bytes m)"
    using wf_packetD(1) [OF assms(3)] assms(4) by (simp add: m_copydata_bytes n_def)
  have sub: "uint_sub (pkt_len m) (hdrlen + 8) = n - hdrlen" using le by (simp add: pl)
  have lens: "ic_miclen cipher_tkip = 8" by (simp add: wep_lens)
  show ?thesis
    unfolding tkip_demic_def Let_def assms(1) [symmetric] lens sub mic n_def [symmetric]
    using assms(6) by (auto simp: pl cd)
qed

subsection \<open>A context for examples\<close>

definition ex_tkip_ctx :: tkip_ctx where
  "ex_tkip_ctx = the (fst (tkip_attach True ex_com))"

lemma ex_tx_cache: "tx_cache_ok k ex_tkip_ctx TA" and ex_rx_cache: "rx_cache_ok k ex_tkip_ctx TA"
  by (simp_all add: tx_cache_ok_def rx_cache_ok_def ex_tkip_ctx_def tkip_attach_def)

lemma ex_mic_hdr: "22 \<le> length bs \<Longrightarrow> length (michael_mic_hdr (mtod (packet_of (8 # 0 # bs)))) = 16"
  by (rule length_michael_mic_hdr24)
    (simp_all add: mtod_def packet_of_def IEEE80211_IS_DSTODS_def i_fc_def fc_defs)

lemma ex_no_cm: "\<not> has_flag (ic_flags ex_com) IEEE80211_F_COUNTERM" and ex_ifp: "ic_ifp ex_com"
  by (simp_all add: ex_com_def has_flag_def)

subsection \<open>Properties\<close>



text \<open>
  C13: no TKIP frame is accepted twice.  Over any sequence of received frames, whatever they
  contain, the counters of the accepted ones are strictly increasing and above the receive
  counter of the key.
\<close>

theorem tkip_no_replay: "sorted_wrt (<) (wk_keyrsc k # tkip_accepted k ctx ic frames)"
  using tkip_accepted_sorted [of k ctx ic frames] by simp



text \<open>
  C33: a frame that decapsulation has left shorter than its header and a MIC makes the MIC
  check run off the end of the buffer chain: the unsigned data length wraps around.
\<close>

theorem tkip_demic_short_frame:
  assumes "hdrlen = ieee80211_hdrspace (ic_flags ic) (mtod m)" "hdrlen \<le> front_len m" "wf_packet m"
    and "swmic k" "length (michael_mic_hdr (mtod m)) = 16"
  shows "tkip_demic k ctx ic m force = None \<longleftrightarrow> pkt_len m < hdrlen + 8"
proof (cases "pkt_len m < hdrlen + 8")
  case True
  then show ?thesis using tkip_demic_short [OF assms(1-3) True assms(4)] by simp
next
  case False
  then have len: "hdrlen + 8 \<le> length (chain_bytes m)" using pkt_len_bytes [OF assms(3)] by simp
  show ?thesis
    unfolding tkip_demic_spec [OF assms(1-3) len assms(5,4)] using False by (simp add: Let_def) blast
qed

theorem tkip_demic_short_frame_witness:
  "tkip_demic ex_key ex_tkip_ctx ex_com (packet_of (8 # 0 # replicate 22 0 @ [1, 2, 3])) False = None"
  using tkip_demic_short_frame [of 24 ex_com "packet_of (8 # 0 # replicate 22 0 @ [1, 2, 3])" ex_key ex_tkip_ctx False]
  by (simp add: ex_hdrspace ex_mic_hdr pkt_len_bytes)

text \<open>
  C30: the cached first phase of the receive key.  A frame that fails the header checks, or
  fails the ICV check, or passes the MIC check too, leaves the cache consistent with the
  receive counter: the next frame is decrypted with the right key.
\<close>

theorem tkip_rx_cache_kept:
  assumes "rx_cache_ok k ctx (i_addr2 (mtod m))" "tkip_rx_frame k ctx ic m h = Some (ok, k', ctx', ic')"
    and "swcrypt k" "ok \<or> \<not> fst (tkip_decap k ctx ic m h)"
  shows "rx_cache_ok k' ctx' (i_addr2 (mtod m))"
proof -
  obtain ok1 ctx1 ic1 m1 where d: "tkip_decap k ctx ic m h = (ok1, ctx1, ic1, m1)" by (metis prod_cases4)
  have eq: "ctx' = ctx1" "ok1 = ok" and k': "k' = (if ok then k\<lparr>wk_keyrsc := rx_rsc ctx1\<rparr> else k)"
    using assms(2,4)
    by (auto simp: tkip_rx_frame_def d split: if_splits option.splits prod.splits dest!: tkip_demic_key)
  have "rx_cache_ok (if ok1 then k\<lparr>wk_keyrsc := rx_rsc ctx1\<rparr> else k) ctx1 (i_addr2 (mtod m))"
    using d assms(1,3)
    by (auto simp: tkip_decap_def tkip_decrypt_def tkip_rx_key_def rx_cache_ok_def Let_def
        split: if_splits prod.splits)
  then show ?thesis using eq k' by simp
qed

theorem tkip_rx_cache_kept_witness:
  "tkip_rx_frame ex_key ex_tkip_ctx ex_com (packet_of (8 # 0 # replicate 40 0)) 24
     = Some (False, ex_key, ex_tkip_ctx, inc_stat is_rx_tkipformat ex_com) \<and>
   rx_cache_ok ex_key ex_tkip_ctx (replicate 6 0)"
proof -
  let ?m = "packet_of (8 # 0 # replicate 40 0)"
  have d: "tkip_decap ex_key ex_tkip_ctx ex_com ?m 24
      = (False, ex_tkip_ctx, inc_stat is_rx_tkipformat ex_com, ?m)"
    by (simp add: tkip_decap_def Let_def packet_of_def mtod_def has_flag_def wep_lens)
  then have r: "tkip_rx_frame ex_key ex_tkip_ctx ex_com ?m 24
      = Some (False, ex_key, ex_tkip_ctx, inc_stat is_rx_tkipformat ex_com)"
    by (simp add: tkip_rx_frame_def)
  have "i_addr2 (mtod ?m) = replicate 6 0" by (simp add: i_addr2_def packet_of_def mtod_def)
  then show ?thesis
    using tkip_rx_cache_kept [OF _ r] d ex_rx_cache r by simp
qed





end
