(* ===== verification/Aes_Ct.thy ===== *)
theory Aes_Ct
  imports Net80211_Prelude
begin

text \<open>
  The constant-time AES of \<open>src/crypto/aes/aes_ct.c\<close>, \<open>aes_ct_enc.c\<close> and
  \<open>aes_ct_dec.c\<close>.  Two blocks are processed at once in eight 32-bit words: after
  \<open>br_aes_ct_ortho\<close> word \<open>i\<close> holds bit \<open>i\<close> of every byte of both blocks.  The theory models the
  orthogonalisation, the S-box circuit and its inverse, the round functions, the two ciphers
  and the key schedules.  Its lemmas describe every operation by the bits it moves: the
  orthogonalisation is a transposition, each decryption step undoes its encryption step, and
  no operation mixes the two blocks.
\<close>

subsection \<open>The bitsliced state\<close>

text \<open>The array \<open>uint32_t q[8]\<close>.\<close>

datatype 'a bs = BS 'a 'a 'a 'a 'a 'a 'a 'a

text \<open>Eight consecutive words of an array: \<open>skey + n\<close> passed as a \<open>uint32_t *\<close>.\<close>

definition bs_at :: "'a list \<Rightarrow> nat \<Rightarrow> 'a bs" where
  "bs_at sk n = BS (sk ! n) (sk ! (n + 1)) (sk ! (n + 2)) (sk ! (n + 3))
     (sk ! (n + 4)) (sk ! (n + 5)) (sk ! (n + 6)) (sk ! (n + 7))"

primrec bs_list :: "'a bs \<Rightarrow> 'a list" where
  "bs_list (BS q0 q1 q2 q3 q4 q5 q6 q7) = [q0, q1, q2, q3, q4, q5, q6, q7]"

subsection \<open>The S-box circuit\<close>

primrec br_aes_ct_bitslice_Sbox :: "u32 bs \<Rightarrow> u32 bs" where
  "br_aes_ct_bitslice_Sbox (BS x7 x6 x5 x4 x3 x2 x1 x0) =
     (let y14 = x3 XOR x5; y13 = x0 XOR x6; y9 = x0 XOR x3; y8 = x0 XOR x5; t0 = x1 XOR x2;
        y1 = t0 XOR x7; y4 = y1 XOR x3; y12 = y13 XOR y14; y2 = y1 XOR x0; y5 = y1 XOR x6;
        y3 = y5 XOR y8; t1 = x4 XOR y12; y15 = t1 XOR x5; y20 = t1 XOR x1; y6 = y15 XOR x7;
        y10 = y15 XOR t0; y11 = y20 XOR y9; y7 = x7 XOR y11; y17 = y10 XOR y11; y19 = y10 XOR y8;
        y16 = t0 XOR y11; y21 = y13 XOR y16; y18 = x0 XOR y16; t2 = y12 AND y15; t3 = y3 AND y6;
        t4 = t3 XOR t2; t5 = y4 AND x7; t6 = t5 XOR t2; t7 = y13 AND y16; t8 = y5 AND y1;
        t9 = t8 XOR t7; t10 = y2 AND y7; t11 = t10 XOR t7; t12 = y9 AND y11; t13 = y14 AND y17;
        t14 = t13 XOR t12; t15 = y8 AND y10; t16 = t15 XOR t12; t17 = t4 XOR t14; t18 = t6 XOR t16;
        t19 = t9 XOR t14; t20 = t11 XOR t16; t21 = t17 XOR y20; t22 = t18 XOR y19;
        t23 = t19 XOR y21; t24 = t20 XOR y18; t25 = t21 XOR t22; t26 = t21 AND t23;
        t27 = t24 XOR t26; t28 = t25 AND t27; t29 = t28 XOR t22; t30 = t23 XOR t24;
        t31 = t22 XOR t26; t32 = t31 AND t30; t33 = t32 XOR t24; t34 = t23 XOR t33;
        t35 = t27 XOR t33; t36 = t24 AND t35; t37 = t36 XOR t34; t38 = t27 XOR t36;
        t39 = t29 AND t38; t40 = t25 XOR t39; t41 = t40 XOR t37; t42 = t29 XOR t33;
        t43 = t29 XOR t40; t44 = t33 XOR t37; t45 = t42 XOR t41; z0 = t44 AND y15; z1 = t37 AND y6;
        z2 = t33 AND x7; z3 = t43 AND y16; z4 = t40 AND y1; z5 = t29 AND y7; z6 = t42 AND y11;
        z7 = t45 AND y17; z8 = t41 AND y10; z9 = t44 AND y12; z10 = t37 AND y3; z11 = t33 AND y4;
        z12 = t43 AND y13; z13 = t40 AND y5; z14 = t29 AND y2; z15 = t42 AND y9; z16 = t45 AND y14;
        z17 = t41 AND y8; t46 = z15 XOR z16; t47 = z10 XOR z11; t48 = z5 XOR z13; t49 = z9 XOR z10;
        t50 = z2 XOR z12; t51 = z2 XOR z5; t52 = z7 XOR z8; t53 = z0 XOR z3; t54 = z6 XOR z7;
        t55 = z16 XOR z17; t56 = z12 XOR t48; t57 = t50 XOR t53; t58 = z4 XOR t46;
        t59 = z3 XOR t54; t60 = t46 XOR t57; t61 = z14 XOR t57; t62 = t52 XOR t58;
        t63 = t49 XOR t58; t64 = z4 XOR t59; t65 = t61 XOR t62; t66 = z1 XOR t63; s0 = t59 XOR t63;
        s6 = t56 XOR NOT t62; s7 = t48 XOR NOT t60; t67 = t64 XOR t65; s3 = t53 XOR t66;
        s4 = t51 XOR t66; s5 = t47 XOR t65; s1 = t64 XOR NOT s3; s2 = t55 XOR NOT t67
      in BS s7 s6 s5 s4 s3 s2 s1 s0)"

subsection \<open>Orthogonalisation\<close>

definition SWAPN :: "u32 \<Rightarrow> u32 \<Rightarrow> nat \<Rightarrow> u32 \<Rightarrow> u32 \<Rightarrow> u32 \<times> u32" where
  "SWAPN cl ch s a b =
     ((a AND cl) OR push_bit s (b AND cl), drop_bit s (a AND ch) OR (b AND ch))"

definition SWAP2 :: "u32 \<Rightarrow> u32 \<Rightarrow> u32 \<times> u32" where
  "SWAP2 = SWAPN 0x55555555 0xAAAAAAAA 1"

definition SWAP4 :: "u32 \<Rightarrow> u32 \<Rightarrow> u32 \<times> u32" where
  "SWAP4 = SWAPN 0x33333333 0xCCCCCCCC 2"

definition SWAP8 :: "u32 \<Rightarrow> u32 \<Rightarrow> u32 \<times> u32" where
  "SWAP8 = SWAPN 0x0F0F0F0F 0xF0F0F0F0 4"

primrec br_aes_ct_ortho :: "u32 bs \<Rightarrow> u32 bs" where
  "br_aes_ct_ortho (BS q0 q1 q2 q3 q4 q5 q6 q7) =
     (let (q0, q1) = SWAP2 q0 q1; (q2, q3) = SWAP2 q2 q3;
          (q4, q5) = SWAP2 q4 q5; (q6, q7) = SWAP2 q6 q7;
          (q0, q2) = SWAP4 q0 q2; (q1, q3) = SWAP4 q1 q3;
          (q4, q6) = SWAP4 q4 q6; (q5, q7) = SWAP4 q5 q7;
          (q0, q4) = SWAP8 q0 q4; (q1, q5) = SWAP8 q1 q5;
          (q2, q6) = SWAP8 q2 q6; (q3, q7) = SWAP8 q3 q7
      in BS q0 q1 q2 q3 q4 q5 q6 q7)"

subsection \<open>The round functions\<close>

fun add_round_key :: "u32 bs \<Rightarrow> u32 bs \<Rightarrow> u32 bs" where
  "add_round_key (BS q0 q1 q2 q3 q4 q5 q6 q7) (BS k0 k1 k2 k3 k4 k5 k6 k7) =
     BS (q0 XOR k0) (q1 XOR k1) (q2 XOR k2) (q3 XOR k3)
        (q4 XOR k4) (q5 XOR k5) (q6 XOR k6) (q7 XOR k7)"

definition shift_rows_word :: "u32 \<Rightarrow> u32" where
  "shift_rows_word x = (x AND 0x000000FF)
     OR drop_bit 2 (x AND 0x0000FC00) OR push_bit 6 (x AND 0x00000300)
     OR drop_bit 4 (x AND 0x00F00000) OR push_bit 4 (x AND 0x000F0000)
     OR drop_bit 6 (x AND 0xC0000000) OR push_bit 2 (x AND 0x3F000000)"

definition shift_rows :: "u32 bs \<Rightarrow> u32 bs" where
  "shift_rows = map_bs shift_rows_word"

definition inv_shift_rows_word :: "u32 \<Rightarrow> u32" where
  "inv_shift_rows_word x = (x AND 0x000000FF)
     OR push_bit 2 (x AND 0x00003F00) OR drop_bit 6 (x AND 0x0000C000)
     OR push_bit 4 (x AND 0x000F0000) OR drop_bit 4 (x AND 0x00F00000)
     OR push_bit 6 (x AND 0x03000000) OR drop_bit 2 (x AND 0xFC000000)"

definition inv_shift_rows :: "u32 bs \<Rightarrow> u32 bs" where
  "inv_shift_rows = map_bs inv_shift_rows_word"

definition rotr16 :: "u32 \<Rightarrow> u32" where
  "rotr16 x = push_bit 16 x OR drop_bit 16 x"

definition ror8 :: "u32 \<Rightarrow> u32" where
  "ror8 x = drop_bit 8 x OR push_bit 24 x"

fun mix_columns :: "u32 bs \<Rightarrow> u32 bs" where
  "mix_columns (BS q0 q1 q2 q3 q4 q5 q6 q7) =
     (let r0 = ror8 q0; r1 = ror8 q1; r2 = ror8 q2; r3 = ror8 q3;
          r4 = ror8 q4; r5 = ror8 q5; r6 = ror8 q6; r7 = ror8 q7
      in BS (q7 XOR r7 XOR r0 XOR rotr16 (q0 XOR r0))
         (q0 XOR r0 XOR q7 XOR r7 XOR r1 XOR rotr16 (q1 XOR r1))
         (q1 XOR r1 XOR r2 XOR rotr16 (q2 XOR r2))
         (q2 XOR r2 XOR q7 XOR r7 XOR r3 XOR rotr16 (q3 XOR r3))
         (q3 XOR r3 XOR q7 XOR r7 XOR r4 XOR rotr16 (q4 XOR r4))
         (q4 XOR r4 XOR r5 XOR rotr16 (q5 XOR r5))
         (q5 XOR r5 XOR r6 XOR rotr16 (q6 XOR r6))
         (q6 XOR r6 XOR r7 XOR rotr16 (q7 XOR r7)))"

fun inv_mix_columns :: "u32 bs \<Rightarrow> u32 bs" where
  "inv_mix_columns (BS q0 q1 q2 q3 q4 q5 q6 q7) =
     (let r0 = ror8 q0; r1 = ror8 q1; r2 = ror8 q2; r3 = ror8 q3;
          r4 = ror8 q4; r5 = ror8 q5; r6 = ror8 q6; r7 = ror8 q7
      in BS (q5 XOR q6 XOR q7 XOR r0 XOR r5 XOR r7 XOR rotr16 (q0 XOR q5 XOR q6 XOR r0 XOR r5))
         (q0 XOR q5 XOR r0 XOR r1 XOR r5 XOR r6 XOR r7 XOR rotr16 (q1 XOR q5 XOR q7 XOR r1 XOR
           r5 XOR r6))
         (q0 XOR q1 XOR q6 XOR r1 XOR r2 XOR r6 XOR r7 XOR rotr16 (q0 XOR q2 XOR q6 XOR r2 XOR
           r6 XOR r7))
         (q0 XOR q1 XOR q2 XOR q5 XOR q6 XOR r0 XOR r2 XOR r3 XOR r5 XOR rotr16 (q0 XOR q1 XOR
           q3 XOR q5 XOR q6 XOR q7 XOR r0 XOR r3 XOR r5 XOR r7))
         (q1 XOR q2 XOR q3 XOR q5 XOR r1 XOR r3 XOR r4 XOR r5 XOR r6 XOR r7 XOR rotr16 (q1 XOR
           q2 XOR q4 XOR q5 XOR q7 XOR r1 XOR r4 XOR r5 XOR r6))
         (q2 XOR q3 XOR q4 XOR q6 XOR r2 XOR r4 XOR r5 XOR r6 XOR r7 XOR rotr16 (q2 XOR q3 XOR
           q5 XOR q6 XOR r2 XOR r5 XOR r6 XOR r7))
         (q3 XOR q4 XOR q5 XOR q7 XOR r3 XOR r5 XOR r6 XOR r7 XOR rotr16 (q3 XOR q4 XOR q6 XOR
           q7 XOR r3 XOR r6 XOR r7))
         (q4 XOR q5 XOR q6 XOR r4 XOR r6 XOR r7 XOR rotr16 (q4 XOR q5 XOR q7 XOR r4 XOR r7)))"

text \<open>The affine map applied before and after the S-box circuit by the inverse S-box.\<close>

primrec invSbox_affine :: "u32 bs \<Rightarrow> u32 bs" where
  "invSbox_affine (BS p0 p1 p2 p3 p4 p5 p6 p7) =
     (let q0 = NOT p0; q1 = NOT p1; q2 = p2; q3 = p3;
          q4 = p4; q5 = NOT p5; q6 = NOT p6; q7 = p7
      in BS (q2 XOR q5 XOR q7) (q3 XOR q6 XOR q0) (q4 XOR q7 XOR q1) (q5 XOR q0 XOR q2)
            (q6 XOR q1 XOR q3) (q7 XOR q2 XOR q4) (q0 XOR q3 XOR q5) (q1 XOR q4 XOR q6))"

definition br_aes_ct_bitslice_invSbox :: "u32 bs \<Rightarrow> u32 bs" where
  "br_aes_ct_bitslice_invSbox q = invSbox_affine (br_aes_ct_bitslice_Sbox (invSbox_affine q))"

subsection \<open>The ciphers\<close>

text \<open>
  The loops run over the round numbers in the order of the code.  The callers pass 10, 12 or
  14 rounds, so \<open>u = num_rounds - 1\<close> in the decryption loop does not wrap.
\<close>

definition encrypt_round :: "u32 list \<Rightarrow> nat \<Rightarrow> u32 bs \<Rightarrow> u32 bs" where
  "encrypt_round skey u q =
     add_round_key (mix_columns (shift_rows (br_aes_ct_bitslice_Sbox q))) (bs_at skey (8 * u))"

definition br_aes_ct_bitslice_encrypt :: "nat \<Rightarrow> u32 list \<Rightarrow> u32 bs \<Rightarrow> u32 bs" where
  "br_aes_ct_bitslice_encrypt num_rounds skey q =
     (let q = add_round_key q (bs_at skey 0);
          q = fold (encrypt_round skey) [1..<num_rounds] q
      in add_round_key (shift_rows (br_aes_ct_bitslice_Sbox q)) (bs_at skey (8 * num_rounds)))"

definition decrypt_round :: "u32 list \<Rightarrow> nat \<Rightarrow> u32 bs \<Rightarrow> u32 bs" where
  "decrypt_round skey u q =
     inv_mix_columns
       (add_round_key (br_aes_ct_bitslice_invSbox (inv_shift_rows q)) (bs_at skey (8 * u)))"

definition br_aes_ct_bitslice_decrypt :: "nat \<Rightarrow> u32 list \<Rightarrow> u32 bs \<Rightarrow> u32 bs" where
  "br_aes_ct_bitslice_decrypt num_rounds skey q =
     (let q = add_round_key q (bs_at skey (8 * num_rounds));
          q = fold (decrypt_round skey) (rev [1..<num_rounds]) q
      in add_round_key (br_aes_ct_bitslice_invSbox (inv_shift_rows q)) (bs_at skey 0))"

subsection \<open>The key schedules\<close>

definition Rcon :: "u8 list" where
  "Rcon = [0x01, 0x02, 0x04, 0x08, 0x10, 0x20, 0x40, 0x80, 0x1B, 0x36]"

definition sub_word :: "u32 \<Rightarrow> u32" where
  "sub_word x =
     (case br_aes_ct_ortho (br_aes_ct_bitslice_Sbox (br_aes_ct_ortho (BS x x x x x x x x))) of
        BS q0 q1 q2 q3 q4 q5 q6 q7 \<Rightarrow> q0)"

text \<open>The \<open>switch\<close> on the key length; 0 stands for the early return.\<close>

definition key_rounds :: "nat \<Rightarrow> nat" where
  "key_rounds key_len =
     (if key_len = 16 then 10 else if key_len = 24 then 12 else if key_len = 32 then 14 else 0)"

text \<open>The change of \<open>tmp\<close> at the head of the loop body.\<close>

definition key_step :: "nat \<Rightarrow> nat \<Rightarrow> nat \<Rightarrow> u32 \<Rightarrow> u32" where
  "key_step nk j k tmp =
     (if j = 0 then sub_word (push_bit 24 tmp OR drop_bit 8 tmp) XOR ucast (Rcon ! k)
      else if 6 < nk \<and> j = 4 then sub_word tmp
      else tmp)"

text \<open>
  The loops that fill \<open>skey\<close>, with the words written so far as a list; the first holds each
  word once (\<open>br_aes_ct_keysched_stdenc\<close>), the second twice (\<open>br_aes_ct_keysched\<close>).
\<close>

fun stdenc_loop :: "nat \<Rightarrow> nat \<Rightarrow> nat \<Rightarrow> nat \<Rightarrow> nat \<Rightarrow> u32 \<Rightarrow> u32 list \<Rightarrow> u32 list" where
  "stdenc_loop 0 nk i j k tmp skey = skey"
| "stdenc_loop (Suc n) nk i j k tmp skey =
     (let tmp = key_step nk j k tmp XOR skey ! (i - nk);
          skey = skey @ [tmp]
      in if Suc j = nk then stdenc_loop n nk (Suc i) 0 (Suc k) tmp skey
         else stdenc_loop n nk (Suc i) (Suc j) k tmp skey)"

fun keysched_loop :: "nat \<Rightarrow> nat \<Rightarrow> nat \<Rightarrow> nat \<Rightarrow> nat \<Rightarrow> u32 \<Rightarrow> u32 list \<Rightarrow> u32 list" where
  "keysched_loop 0 nk i j k tmp skey = skey"
| "keysched_loop (Suc n) nk i j k tmp skey =
     (let tmp = key_step nk j k tmp XOR skey ! (2 * (i - nk));
          skey = skey @ [tmp, tmp]
      in if Suc j = nk then keysched_loop n nk (Suc i) 0 (Suc k) tmp skey
         else keysched_loop n nk (Suc i) (Suc j) k tmp skey)"

definition key_words :: "bytes \<Rightarrow> nat \<Rightarrow> u32 list" where
  "key_words key nk = map (\<lambda>i. le32dec (drop (4 * i) key)) [0..<nk]"

definition twice :: "'a list \<Rightarrow> 'a list" where
  "twice ws = concat (map (\<lambda>w. [w, w]) ws)"

definition ortho_rounds :: "nat \<Rightarrow> u32 list \<Rightarrow> u32 list" where
  "ortho_rounds n skey =
     concat (map (\<lambda>u. bs_list (br_aes_ct_ortho (bs_at skey (8 * u)))) [0..<n])"

definition compress_skey :: "nat \<Rightarrow> u32 list \<Rightarrow> u32 list" where
  "compress_skey nkf skey =
     map (\<lambda>i. (skey ! (2 * i) AND 0x55555555) OR (skey ! (2 * i + 1) AND 0xAAAAAAAA)) [0..<nkf]"

definition br_aes_ct_keysched :: "u32 list \<Rightarrow> bytes \<Rightarrow> nat \<Rightarrow> nat \<times> u32 list" where
  "br_aes_ct_keysched comp_skey key key_len =
     (let num_rounds = key_rounds key_len
      in if num_rounds = 0 then (0, comp_skey)
         else
           let nk = key_len div 4;
               nkf = 4 * (num_rounds + 1);
               ws = key_words key nk;
               skey = keysched_loop (nkf - nk) nk nk 0 0 (last ws) (twice ws);
               skey = ortho_rounds (num_rounds + 1) skey
           in (num_rounds, put_at 0 (compress_skey nkf skey) comp_skey))"

definition br_aes_ct_skey_expand :: "nat \<Rightarrow> u32 list \<Rightarrow> u32 list" where
  "br_aes_ct_skey_expand num_rounds comp_skey =
     concat (map (\<lambda>u. let x = comp_skey ! u AND 0x55555555; y = comp_skey ! u AND 0xAAAAAAAA
                      in [x OR push_bit 1 x, y OR drop_bit 1 y])
       [0..<4 * (num_rounds + 1)])"

definition br_aes_ct_keysched_stdenc :: "u32 list \<Rightarrow> bytes \<Rightarrow> nat \<Rightarrow> nat \<times> u32 list" where
  "br_aes_ct_keysched_stdenc skey key key_len =
     (let num_rounds = key_rounds key_len
      in if num_rounds = 0 then (0, skey)
         else
           let nk = key_len div 4;
               nkf = 4 * (num_rounds + 1);
               ws = key_words key nk
           in (num_rounds, put_at 0 (stdenc_loop (nkf - nk) nk nk 0 0 (last ws) ws) skey))"

text \<open>One round key of the decryption schedule.\<close>

definition inv_mix_words :: "u32 list \<Rightarrow> u32 list" where
  "inv_mix_words w =
     (case br_aes_ct_ortho (inv_mix_columns (br_aes_ct_ortho
             (BS (w ! 0) 0 (w ! 1) 0 (w ! 2) 0 (w ! 3) 0))) of
        BS q0 q1 q2 q3 q4 q5 q6 q7 \<Rightarrow> [q0, q2, q4, q6])"

definition br_aes_ct_keysched_stddec :: "u32 list \<Rightarrow> bytes \<Rightarrow> nat \<Rightarrow> nat \<times> u32 list" where
  "br_aes_ct_keysched_stddec skey key key_len =
     (case br_aes_ct_keysched_stdenc skey key key_len of (num_rounds, skey) \<Rightarrow>
        if num_rounds = 0 then (0, skey)
        else
          let rk = (\<lambda>i. take 4 (drop (4 * i) skey));
              tkey = rk num_rounds
                @ concat (map (\<lambda>i. inv_mix_words (rk (num_rounds - i))) [1..<num_rounds])
                @ rk 0
          in (num_rounds, put_at 0 tkey skey))"

declare br_aes_ct_bitslice_Sbox.simps [simp del] br_aes_ct_ortho.simps [simp del]

subsection \<open>Bits of 32-bit words\<close>

lemma all_lt_32:
  "(\<forall>n < (32::nat). P n) \<longleftrightarrow> (\<forall>r < 4. P (8 * r) \<and> P (8 * r + 1) \<and> P (8 * r + 2) \<and>
     P (8 * r + 3) \<and> P (8 * r + 4) \<and> P (8 * r + 5) \<and> P (8 * r + 6) \<and> P (8 * r + 7))"
  (is "?l \<longleftrightarrow> ?r")
proof
  assume ?r
  show ?l
  proof (intro allI impI)
    fix n :: nat
    assume "n < 32"
    then have "n = 8 * (n div 8) + n mod 8" "n div 8 < 4" "n mod 8 < 8" by auto
    then obtain r k where n: "n = 8 * r + k" "r < 4" "k < 8" by blast
    from n(3) have "k \<in> {0, 1, 2, 3, 4, 5, 6, 7}" by auto
    then show "P n" using \<open>?r\<close> n by (elim insertE) simp_all
  qed
qed auto

lemma all_lt_4: "(\<forall>r < (4::nat). P r) \<longleftrightarrow> P 0 \<and> P 1 \<and> P 2 \<and> P 3"
  by (auto simp: numeral_eq_Suc less_Suc_eq)

lemmas all_bits_32 = all_lt_32 all_lt_4

lemma word32_eqI: "(\<And>n. n < 32 \<Longrightarrow> bit x n = bit y n) \<Longrightarrow> x = (y :: u32)"
  by (rule bit_word_eqI) simp

lemma bit_masks:
  assumes "n < 32"
  shows "bit (0x55555555 :: u32) n \<longleftrightarrow> n mod 2 < 1" "bit (0xAAAAAAAA :: u32) n \<longleftrightarrow> \<not> n mod 2 < 1"
    "bit (0x33333333 :: u32) n \<longleftrightarrow> n mod 4 < 2" "bit (0xCCCCCCCC :: u32) n \<longleftrightarrow> \<not> n mod 4 < 2"
    "bit (0x0F0F0F0F :: u32) n \<longleftrightarrow> n mod 8 < 4" "bit (0xF0F0F0F0 :: u32) n \<longleftrightarrow> \<not> n mod 8 < 4"
proof -
  have "\<forall>n < 32. bit (0x55555555 :: u32) n \<longleftrightarrow> n mod 2 < 1"
    "\<forall>n < 32. bit (0xAAAAAAAA :: u32) n \<longleftrightarrow> \<not> n mod 2 < 1"
    "\<forall>n < 32. bit (0x33333333 :: u32) n \<longleftrightarrow> n mod 4 < 2"
    "\<forall>n < 32. bit (0xCCCCCCCC :: u32) n \<longleftrightarrow> \<not> n mod 4 < 2"
    "\<forall>n < 32. bit (0x0F0F0F0F :: u32) n \<longleftrightarrow> n mod 8 < 4"
    "\<forall>n < 32. bit (0xF0F0F0F0 :: u32) n \<longleftrightarrow> \<not> n mod 8 < 4"
    unfolding all_bits_32 by simp_all
  then show "bit (0x55555555 :: u32) n \<longleftrightarrow> n mod 2 < 1" "bit (0xAAAAAAAA :: u32) n \<longleftrightarrow> \<not> n mod 2 < 1"
    "bit (0x33333333 :: u32) n \<longleftrightarrow> n mod 4 < 2" "bit (0xCCCCCCCC :: u32) n \<longleftrightarrow> \<not> n mod 4 < 2"
    "bit (0x0F0F0F0F :: u32) n \<longleftrightarrow> n mod 8 < 4" "bit (0xF0F0F0F0 :: u32) n \<longleftrightarrow> \<not> n mod 8 < 4"
    using assms by simp_all
qed

lemma bit_SWAPN:
  assumes "n < 32"
  shows "bit (fst (SWAPN cl ch s a b)) n \<longleftrightarrow>
      bit a n \<and> bit cl n \<or> s \<le> n \<and> bit b (n - s) \<and> bit cl (n - s)"
    "bit (snd (SWAPN cl ch s a b)) n \<longleftrightarrow>
      bit a (n + s) \<and> bit ch (n + s) \<or> bit b n \<and> bit ch n"
  using assms by (auto simp: SWAPN_def bit_simps add.commute)

text \<open>The three exchanges, at bit \<open>k\<close> of byte \<open>r\<close>.\<close>

lemma byte_mod:
  "(8 * r + k) mod 2 = k mod (2::nat)" "(8 * r + k) mod 4 = k mod (4::nat)"
  "(8 * r + k) mod 8 = k mod (8::nat)"
  using mod_mult_self4 [of 2 "4 * r" k] mod_mult_self4 [of 4 "2 * r" k] mod_mult_self4 [of 8 r k]
  by simp_all

lemma mod_shift:
  fixes n s m :: nat
  assumes "(s = 1 \<and> m = 2) \<or> (s = 2 \<and> m = 4) \<or> (s = 4 \<and> m = 8)"
  shows "(n + s) mod m < s \<longleftrightarrow> \<not> n mod m < s"
  using assms by (elim disjE conjE; simp; presburger)

lemma bit_SWAPN_exchange:
  assumes s: "(s = 1 \<and> m = 2) \<or> (s = 2 \<and> m = 4) \<or> (s = 4 \<and> m = 8)" and n: "n < 32"
    and cl: "\<And>n. n < 32 \<Longrightarrow> bit cl n \<longleftrightarrow> n mod m < s"
    and ch: "\<And>n. n < 32 \<Longrightarrow> bit ch n \<longleftrightarrow> \<not> n mod m < s"
  shows "bit (fst (SWAPN cl ch s a b)) n = (if n mod m < s then bit a n else bit b (n - s))"
    "bit (snd (SWAPN cl ch s a b)) n = (if n mod m < s then bit a (n + s) else bit b n)"
proof -
  have "bit cl (n - s) \<longleftrightarrow> \<not> n mod m < s" if "s \<le> n"
    using mod_shift [OF s, of "n - s"] cl [of "n - s"] n that by auto
  moreover have "s \<le> n" if "\<not> n mod m < s"
    using that by (metis mod_less_eq_dividend not_less order_trans)
  ultimately show "bit (fst (SWAPN cl ch s a b)) n =
      (if n mod m < s then bit a n else bit b (n - s))"
    using n cl by (auto simp: bit_SWAPN)
  have "n + s < 32" if "n mod m < s"
    using that n s by (elim disjE conjE; simp; presburger)
  then have "bit ch (n + s) \<longleftrightarrow> n mod m < s" if "n mod m < s"
    using mod_shift [OF s, of n] ch [of "n + s"] that by auto
  moreover have "\<not> bit a (n + s)" if "32 \<le> n + s"
    using that by (auto dest: bit_imp_le_length)
  ultimately show "bit (snd (SWAPN cl ch s a b)) n =
      (if n mod m < s then bit a (n + s) else bit b n)"
    using n ch [of n] ch [of "n + s"] mod_shift [OF s, of n]
    by (cases "n + s < 32") (auto simp: bit_SWAPN)
qed

lemma bit_SWAP2:
  assumes "n < 32"
  shows "bit (fst (SWAP2 a b)) n = (if n mod 2 < 1 then bit a n else bit b (n - 1))"
    "bit (snd (SWAP2 a b)) n = (if n mod 2 < 1 then bit a (n + 1) else bit b n)"
  unfolding SWAP2_def
  by (rule bit_SWAPN_exchange [OF _ assms bit_masks(1) bit_masks(2)]; simp)+

lemma bit_SWAP4:
  assumes "n < 32"
  shows "bit (fst (SWAP4 a b)) n = (if n mod 4 < 2 then bit a n else bit b (n - 2))"
    "bit (snd (SWAP4 a b)) n = (if n mod 4 < 2 then bit a (n + 2) else bit b n)"
  unfolding SWAP4_def
  by (rule bit_SWAPN_exchange [OF _ assms bit_masks(3) bit_masks(4)]; simp)+

lemma bit_SWAP8:
  assumes "n < 32"
  shows "bit (fst (SWAP8 a b)) n = (if n mod 8 < 4 then bit a n else bit b (n - 4))"
    "bit (snd (SWAP8 a b)) n = (if n mod 8 < 4 then bit a (n + 4) else bit b n)"
  unfolding SWAP8_def
  by (rule bit_SWAPN_exchange [OF _ assms bit_masks(5) bit_masks(6)]; simp)+

text \<open>Bit \<open>k\<close> of byte \<open>r\<close> of a word.\<close>

definition rbit :: "u32 \<Rightarrow> nat \<Rightarrow> nat \<Rightarrow> bool" where
  "rbit w r k = bit w (8 * r + k)"

lemma rbit_eqI: "(\<And>r k. r < 4 \<Longrightarrow> k < 8 \<Longrightarrow> rbit x r k = rbit y r k) \<Longrightarrow> x = y"
proof (rule word32_eqI)
  fix n :: nat
  assume *: "\<And>r k. r < 4 \<Longrightarrow> k < 8 \<Longrightarrow> rbit x r k = rbit y r k" and "n < 32"
  then have "n div 8 < 4" "n mod 8 < 8" by auto
  then show "bit x n = bit y n"
    using * [of "n div 8" "n mod 8"] by (simp add: rbit_def)
qed

lemma rbit_SWAP:
  assumes "r < 4" "k < 8"
  shows "rbit (fst (SWAP2 a b)) r k = (if k mod 2 < 1 then rbit a r k else rbit b r (k - 1))"
    "rbit (snd (SWAP2 a b)) r k = (if k mod 2 < 1 then rbit a r (k + 1) else rbit b r k)"
    "rbit (fst (SWAP4 a b)) r k = (if k mod 4 < 2 then rbit a r k else rbit b r (k - 2))"
    "rbit (snd (SWAP4 a b)) r k = (if k mod 4 < 2 then rbit a r (k + 2) else rbit b r k)"
    "rbit (fst (SWAP8 a b)) r k = (if k mod 8 < 4 then rbit a r k else rbit b r (k - 4))"
    "rbit (snd (SWAP8 a b)) r k = (if k mod 8 < 4 then rbit a r (k + 4) else rbit b r k)"
proof -
  have n: "8 * r + k < 32" using assms by simp
  have *: "\<not> k mod m < s \<Longrightarrow> 8 * r + (k - s) = 8 * r + k - s" for m s :: nat
    by (metis Nat.add_diff_assoc mod_less_eq_dividend not_less order_trans)
  show "rbit (fst (SWAP2 a b)) r k = (if k mod 2 < 1 then rbit a r k else rbit b r (k - 1))"
    "rbit (fst (SWAP4 a b)) r k = (if k mod 4 < 2 then rbit a r k else rbit b r (k - 2))"
    "rbit (fst (SWAP8 a b)) r k = (if k mod 8 < 4 then rbit a r k else rbit b r (k - 4))"
    unfolding rbit_def bit_SWAP2(1) [OF n] bit_SWAP4(1) [OF n] bit_SWAP8(1) [OF n] byte_mod
    by (simp_all only: * split: if_split) simp_all
  show "rbit (snd (SWAP2 a b)) r k = (if k mod 2 < 1 then rbit a r (k + 1) else rbit b r k)"
    "rbit (snd (SWAP4 a b)) r k = (if k mod 4 < 2 then rbit a r (k + 2) else rbit b r k)"
    "rbit (snd (SWAP8 a b)) r k = (if k mod 8 < 4 then rbit a r (k + 4) else rbit b r k)"
    unfolding rbit_def bit_SWAP2(2) [OF n] bit_SWAP4(2) [OF n] bit_SWAP8(2) [OF n] byte_mod
    by (simp_all only: add.assoc)
qed

text \<open>
  Orthogonalisation transposes the 8 by 8 bit matrix formed by byte \<open>r\<close> of the eight words.
\<close>

lemma lt_8_cases: "k < 8 \<Longrightarrow> k \<in> {0, 1, 2, 3, 4, 5, 6, 7 :: nat}"
  by auto

lemma rbit_ortho_map:
  assumes "r < 4" "k < 8"
  shows "map (\<lambda>w. rbit w r k) (bs_list (br_aes_ct_ortho q)) = map (rbit (bs_list q ! k) r) [0..<8]"
proof (cases q)
  case (BS q0 q1 q2 q3 q4 q5 q6 q7)
  have upt: "[0..<8] = [0, 1, 2, 3, 4, 5, 6, 7]" by (simp add: upt_rec)
  show ?thesis
    unfolding BS br_aes_ct_ortho.simps split_beta Let_def bs_list.simps fst_conv snd_conv upt
    using lt_8_cases [OF assms(2)] assms(1)
    by (elim insertE emptyE; simp add: rbit_SWAP del: add_2_eq_Suc add_2_eq_Suc')
qed

lemma length_bs_list [simp]: "length (bs_list q) = 8"
  by (cases q) simp

lemma bs_list_inject [simp]: "bs_list p = bs_list q \<longleftrightarrow> p = q"
  by (cases p; cases q) auto

lemma rbit_ortho:
  assumes "r < 4" "k < 8" "i < 8"
  shows "rbit (bs_list (br_aes_ct_ortho q) ! i) r k = rbit (bs_list q ! k) r i"
  using arg_cong [OF rbit_ortho_map [OF assms(1,2), of q], of "\<lambda>l. l ! i"] assms(3) by simp

lemma bs_eqI:
  assumes "\<And>i r k. i < 8 \<Longrightarrow> r < 4 \<Longrightarrow> k < 8 \<Longrightarrow>
    rbit (bs_list p ! i) r k = rbit (bs_list q ! i) r k"
  shows "p = q"
proof -
  have "bs_list p ! i = bs_list q ! i" if "i < 8" for i
    by (rule rbit_eqI) (use assms that in auto)
  then have "bs_list p = bs_list q" by (intro nth_equalityI) simp_all
  then show ?thesis by simp
qed

theorem br_aes_ct_ortho_involution: "br_aes_ct_ortho (br_aes_ct_ortho q) = q"
  by (rule bs_eqI) (simp add: rbit_ortho)

subsection \<open>The S-box circuit works on each bit position separately\<close>

definition same_bit :: "nat \<Rightarrow> nat \<Rightarrow> u32 \<Rightarrow> u32 \<Rightarrow> bool" where
  "same_bit n n' w w' \<longleftrightarrow> n < 32 \<and> n' < 32 \<and> bit w n = bit w' n'"

lemma same_bit_ops [intro]:
  "same_bit n n' a a' \<Longrightarrow> same_bit n n' b b' \<Longrightarrow> same_bit n n' (a XOR b) (a' XOR b')"
  "same_bit n n' a a' \<Longrightarrow> same_bit n n' b b' \<Longrightarrow> same_bit n n' (a AND b) (a' AND b')"
  "same_bit n n' a a' \<Longrightarrow> same_bit n n' (NOT a) (NOT a')"
  by (auto simp: same_bit_def bit_simps)

lemma rel_bs_Let:
  "R a a' \<Longrightarrow> (\<And>x x'. R x x' \<Longrightarrow> rel_bs R (f x) (f' x')) \<Longrightarrow> rel_bs R (Let a f) (Let a' f')"
  by simp

lemma Sbox_same_bit:
  assumes "rel_bs (same_bit n n') q q'"
  shows "rel_bs (same_bit n n') (br_aes_ct_bitslice_Sbox q) (br_aes_ct_bitslice_Sbox q')"
proof (cases q; cases q')
  fix p0 p1 p2 p3 p4 p5 p6 p7 p0' p1' p2' p3' p4' p5' p6' p7'
  assume q: "q = BS p0 p1 p2 p3 p4 p5 p6 p7" "q' = BS p0' p1' p2' p3' p4' p5' p6' p7'"
  then have "same_bit n n' p0 p0'" "same_bit n n' p1 p1'" "same_bit n n' p2 p2'"
    "same_bit n n' p3 p3'" "same_bit n n' p4 p4'" "same_bit n n' p5 p5'"
    "same_bit n n' p6 p6'" "same_bit n n' p7 p7'"
    using assms by simp_all
  then show ?thesis
    unfolding q br_aes_ct_bitslice_Sbox.simps
    by (intro rel_bs_Let same_bit_ops bs.rel_intros)
qed

lemma invSbox_affine_same_bit:
  assumes "rel_bs (same_bit n n') q q'"
  shows "rel_bs (same_bit n n') (invSbox_affine q) (invSbox_affine q')"
  using assms by (cases q; cases q') (auto simp: Let_def)

lemma invSbox_same_bit:
  "rel_bs (same_bit n n') q q' \<Longrightarrow>
   rel_bs (same_bit n n') (br_aes_ct_bitslice_invSbox q) (br_aes_ct_bitslice_invSbox q')"
  by (simp add: br_aes_ct_bitslice_invSbox_def invSbox_affine_same_bit Sbox_same_bit)

text \<open>
  Eight states whose bit positions together hold all 256 bytes; a statement about one bit
  position of any state can be checked on them.
\<close>

definition probe :: "bool \<Rightarrow> bool \<Rightarrow> bool \<Rightarrow> u32 bs" where
  "probe a b c = BS 0xAAAAAAAA 0xCCCCCCCC 0xF0F0F0F0 0xFF00FF00 0xFFFF0000
     (if a then 0xFFFFFFFF else 0) (if b then 0xFFFFFFFF else 0) (if c then 0xFFFFFFFF else 0)"

lemma bit_all_ones: "n < 32 \<Longrightarrow> bit (0xFFFFFFFF :: u32) n"
proof -
  have *: "(0xFFFFFFFF :: u32) = mask 32" by (simp add: mask_eq_exp_minus_1)
  show "n < 32 \<Longrightarrow> bit (0xFFFFFFFF :: u32) n" unfolding * by (simp only: bit_simps) simp
qed

lemma probe_position:
  "\<exists>m < 32. bit (0xAAAAAAAA :: u32) m = b0 \<and> bit (0xCCCCCCCC :: u32) m = b1 \<and>
     bit (0xF0F0F0F0 :: u32) m = b2 \<and> bit (0xFF00FF00 :: u32) m = b3 \<and>
     bit (0xFFFF0000 :: u32) m = b4"
proof -
  let ?v = "\<lambda>b k. if b then 2 ^ k else 0 :: nat"
  let ?m = "?v b0 0 + ?v b1 1 + ?v b2 2 + ?v b3 3 + ?v b4 4"
  have "?m < 32 \<and> bit (0xAAAAAAAA :: u32) ?m = b0 \<and> bit (0xCCCCCCCC :: u32) ?m = b1 \<and>
     bit (0xF0F0F0F0 :: u32) ?m = b2 \<and> bit (0xFF00FF00 :: u32) ?m = b3 \<and>
     bit (0xFFFF0000 :: u32) ?m = b4"
    by (cases b0; cases b1; cases b2; cases b3; cases b4; simp)
  then show ?thesis by blast
qed

lemma ex_probe:
  assumes "n < 32"
  obtains m a b c where "m < 32" "rel_bs (same_bit n m) q (probe a b c)"
proof (cases q)
  case (BS q0 q1 q2 q3 q4 q5 q6 q7)
  from probe_position [of "bit q0 n" "bit q1 n" "bit q2 n" "bit q3 n" "bit q4 n"]
  obtain m where "m < 32" "bit (0xAAAAAAAA :: u32) m = bit q0 n"
    "bit (0xCCCCCCCC :: u32) m = bit q1 n" "bit (0xF0F0F0F0 :: u32) m = bit q2 n"
    "bit (0xFF00FF00 :: u32) m = bit q3 n" "bit (0xFFFF0000 :: u32) m = bit q4 n"
    by (elim exE conjE)
  then have "rel_bs (same_bit n m) q (probe (bit q5 n) (bit q6 n) (bit q7 n))"
    using assms bit_all_ones [OF \<open>m < 32\<close>] by (simp add: BS probe_def same_bit_def)
  with \<open>m < 32\<close> show ?thesis by (rule that)
qed

lemma same_bit_unique:
  assumes "rel_bs (same_bit n m) p q" "rel_bs (same_bit n m) p' q"
  shows "rel_bs (\<lambda>w w'. bit w n = bit w' n) p p'"
  using assms by (cases p; cases p'; cases q) (simp add: same_bit_def)

lemma bs_eq_bitsI:
  fixes p q :: "u32 bs"
  assumes "\<And>n. n < 32 \<Longrightarrow> rel_bs (\<lambda>w w'. bit w n = bit w' n) p q"
  shows "p = q"
proof (cases p; cases q)
  fix p0 p1 p2 p3 p4 p5 p6 p7 q0 q1 q2 q3 q4 q5 q6 q7
  assume pq: "p = BS p0 p1 p2 p3 p4 p5 p6 p7" "q = BS q0 q1 q2 q3 q4 q5 q6 q7"
  have "bit p0 n = bit q0 n \<and> bit p1 n = bit q1 n \<and> bit p2 n = bit q2 n \<and> bit p3 n = bit q3 n \<and>
      bit p4 n = bit q4 n \<and> bit p5 n = bit q5 n \<and> bit p6 n = bit q6 n \<and> bit p7 n = bit q7 n"
    if "n < 32" for n
    using assms [OF that] by (simp add: pq)
  then show ?thesis unfolding pq bs.inject by (intro conjI word32_eqI) simp_all
qed

text \<open>The inverse S-box undoes the S-box, and conversely.\<close>

lemma eval_Let: "a = v \<Longrightarrow> f v = r \<Longrightarrow> Let a f = r"
  by simp

lemma Sbox_probe:
  shows "br_aes_ct_bitslice_Sbox (BS 0xAAAAAAAA 0xCCCCCCCC 0xF0F0F0F0 0xFF00FF00
       0xFFFF0000 0 0 0) =
     BS 0x096C6EED 0x4C53FC7D 0x3B48B4C6 0x193D586A
       0x52B8B11E 0x6D98DD7F 0xC2FDB4FF 0xBF977090"
    "br_aes_ct_bitslice_Sbox (BS 0xAAAAAAAA 0xCCCCCCCC 0xF0F0F0F0 0xFF00FF00
       0xFFFF0000 0 0 0xFFFFFFFF) =
     BS 0xC006EAB5 0xF33486B4 0x3B0C3FFB 0xF6AC6C1B
       0xBC48ECB4 0x06319E08 0xB30DB559 0x96CA0329"
    "br_aes_ct_bitslice_Sbox (BS 0xAAAAAAAA 0xCCCCCCCC 0xF0F0F0F0 0xFF00FF00
       0xFFFF0000 0 0xFFFFFFFF 0) =
     BS 0x8ACB7A13 0x97816F7A 0xA428C424 0xFFA8527D
       0x4CE30F58 0x0D787AA4 0xF3AB2560 0x866AAC82"
    "br_aes_ct_bitslice_Sbox (BS 0xAAAAAAAA 0xCCCCCCCC 0xF0F0F0F0 0xFF00FF00
       0xFFFF0000 0 0xFFFFFFFF 0xFFFFFFFF) =
     BS 0x6F247A04 0x94EAD8A9 0xD6CE2EFC 0xC892FB1B
       0xCE472E53 0x0B4F256F 0x25591782 0xB844E3E1"
    "br_aes_ct_bitslice_Sbox (BS 0xAAAAAAAA 0xCCCCCCCC 0xF0F0F0F0 0xFF00FF00
       0xFFFF0000 0xFFFFFFFF 0 0) =
     BS 0xB14EDE67 0x7BAE007D 0xA16387FB 0x109020A2
       0xC2B0F977 0xF8045F7B 0x980A3CC2 0x5CAA2EC7"
    "br_aes_ct_bitslice_Sbox (BS 0xAAAAAAAA 0xCCCCCCCC 0xF0F0F0F0 0xFF00FF00
       0xFFFF0000 0xFFFFFFFF 0 0xFFFFFFFF) =
     BS 0x10BDB210 0x6A450B2E 0x577D64E0 0xE9DA849C
       0x2624B286 0x7D8DCC47 0x3F6BCB91 0x4CB37701"
    "br_aes_ct_bitslice_Sbox (BS 0xAAAAAAAA 0xCCCCCCCC 0xF0F0F0F0 0xFF00FF00
       0xFFFF0000 0xFFFFFFFF 0xFFFFFFFF 0) =
     BS 0x68AB4BFA 0xE61A4C5E 0x23A869A2 0x2568EA2E
       0xF7F17A49 0x6BC2AA4E 0xE4851B3B 0xE7BAC28F"
    "br_aes_ct_bitslice_Sbox (BS 0xAAAAAAAA 0xCCCCCCCC 0xF0F0F0F0 0xFF00FF00
       0xFFFF0000 0xFFFFFFFF 0xFFFFFFFF 0xFFFFFFFF) =
     BS 0x4F1EAD39 0xC8709740 0xAC39B6C0 0x4E9DDB76
       0xF210A3AE 0x54B24813 0x21E0B833 0x52379DE7"
  unfolding br_aes_ct_bitslice_Sbox.simps by ((rule eval_Let, simp)+, simp)+

lemma Sbox_affine_probe:
  shows "br_aes_ct_bitslice_Sbox (BS 0x16B8E6D6 0xD2AC8278 0x5E83C20C 0x5FBC0754
       0x979310E8 0xD6677548 0x7DC9EBF8 0xDC16F99C) =
     BS 0xAAAA5555 0x99999999 0x96969696 0x69966996
       0x96696996 0xC33C3CC3 0x0FF0F00F 0x00FFFF00"
    "br_aes_ct_bitslice_Sbox (BS 0x54085D25 0x85A733F7 0x264996D6 0xFD3B4B46
       0xB6955FF6 0x118ED066 0x309B18A6 0xFC71DF59) =
     BS 0x5555AAAA 0x66666666 0x69696969 0x96699669
       0x96696996 0xC33C3CC3 0x0FF0F00F 0xFF0000FF"
    "br_aes_ct_bitslice_Sbox (BS 0xD0C5EDFD 0x86C80D0E 0xA2F7335F 0x239BC493
       0x9B821867 0x6EA167FE 0x781B52CA 0x28C94542) =
     BS 0x5555AAAA 0x66666666 0x69696969 0x69966996
       0x96696996 0xC33C3CC3 0xF00F0FF0 0xFF0000FF"
    "br_aes_ct_bitslice_Sbox (BS 0x9A3A178D 0x82EF969D 0x1D16EAE4 0xB2A57197
       0x79213430 0xA0CDE34E 0xACF9A470 0x7FF4E178) =
     BS 0xAAAA5555 0x99999999 0x96969696 0x96699669
       0x96696996 0xC33C3CC3 0xF00F0FF0 0x00FFFF00"
    "br_aes_ct_bitslice_Sbox (BS 0xFA3209B8 0x39D4C207 0x1A4B2832 0xE82906E7
       0xF3341C1D 0x3F79504B 0x59DAA1BE 0x2114C5C8) =
     BS 0x5555AAAA 0x66666666 0x96969696 0x69966996
       0x96696996 0x3CC3C33C 0xF00F0FF0 0xFF0000FF"
    "br_aes_ct_bitslice_Sbox (BS 0x99BC2059 0xC60CFD1D 0xFF2D3156 0x3A4D1AB7
       0xBCF44423 0x3DEAA167 0x84EAFACB 0x730A7239) =
     BS 0xAAAA5555 0x99999999 0x69696969 0x96699669
       0x96696996 0x3CC3C33C 0xF00F0FF0 0x00FFFF00"
    "br_aes_ct_bitslice_Sbox (BS 0x502FFE9C 0xA946BAEF 0x09AE0B67 0x20C18816
       0x27F7BD4B 0x33E3D164 0x26010B9A 0xF56E2D2C) =
     BS 0xAAAA5555 0x99999999 0x69696969 0x69966996
       0x96696996 0x3CC3C33C 0x0FF0F00F 0x00FFFF00"
    "br_aes_ct_bitslice_Sbox (BS 0x55439CCB 0x2063CE7C 0x97A856F6 0xB79553EA
       0xA70DF405 0x0C1E8889 0x55313E5C 0x1B808CDD) =
     BS 0x5555AAAA 0x66666666 0x96969696 0x96699669
       0x96696996 0x3CC3C33C 0x0FF0F00F 0xFF0000FF"
  unfolding br_aes_ct_bitslice_Sbox.simps by ((rule eval_Let, simp)+, simp)+

lemma invSbox_affine_probe:
  shows "invSbox_affine (BS 0x096C6EED 0x4C53FC7D 0x3B48B4C6 0x193D586A
       0x52B8B11E 0x6D98DD7F 0xC2FDB4FF 0xBF977090) =
     BS 0x16B8E6D6 0xD2AC8278 0x5E83C20C 0x5FBC0754
       0x979310E8 0xD6677548 0x7DC9EBF8 0xDC16F99C"
    "invSbox_affine (BS 0xAAAA5555 0x99999999 0x96969696 0x69966996
       0x96696996 0xC33C3CC3 0x0FF0F00F 0x00FFFF00) =
     BS 0xAAAAAAAA 0xCCCCCCCC 0xF0F0F0F0 0xFF00FF00
       0xFFFF0000 0 0 0"
    "invSbox_affine (BS 0xC006EAB5 0xF33486B4 0x3B0C3FFB 0xF6AC6C1B
       0xBC48ECB4 0x06319E08 0xB30DB559 0x96CA0329) =
     BS 0x54085D25 0x85A733F7 0x264996D6 0xFD3B4B46
       0xB6955FF6 0x118ED066 0x309B18A6 0xFC71DF59"
    "invSbox_affine (BS 0x5555AAAA 0x66666666 0x69696969 0x96699669
       0x96696996 0xC33C3CC3 0x0FF0F00F 0xFF0000FF) =
     BS 0xAAAAAAAA 0xCCCCCCCC 0xF0F0F0F0 0xFF00FF00
       0xFFFF0000 0 0 0xFFFFFFFF"
    "invSbox_affine (BS 0x8ACB7A13 0x97816F7A 0xA428C424 0xFFA8527D
       0x4CE30F58 0x0D787AA4 0xF3AB2560 0x866AAC82) =
     BS 0xD0C5EDFD 0x86C80D0E 0xA2F7335F 0x239BC493
       0x9B821867 0x6EA167FE 0x781B52CA 0x28C94542"
    "invSbox_affine (BS 0x5555AAAA 0x66666666 0x69696969 0x69966996
       0x96696996 0xC33C3CC3 0xF00F0FF0 0xFF0000FF) =
     BS 0xAAAAAAAA 0xCCCCCCCC 0xF0F0F0F0 0xFF00FF00
       0xFFFF0000 0 0xFFFFFFFF 0"
    "invSbox_affine (BS 0x6F247A04 0x94EAD8A9 0xD6CE2EFC 0xC892FB1B
       0xCE472E53 0x0B4F256F 0x25591782 0xB844E3E1) =
     BS 0x9A3A178D 0x82EF969D 0x1D16EAE4 0xB2A57197
       0x79213430 0xA0CDE34E 0xACF9A470 0x7FF4E178"
    "invSbox_affine (BS 0xAAAA5555 0x99999999 0x96969696 0x96699669
       0x96696996 0xC33C3CC3 0xF00F0FF0 0x00FFFF00) =
     BS 0xAAAAAAAA 0xCCCCCCCC 0xF0F0F0F0 0xFF00FF00
       0xFFFF0000 0 0xFFFFFFFF 0xFFFFFFFF"
    "invSbox_affine (BS 0xB14EDE67 0x7BAE007D 0xA16387FB 0x109020A2
       0xC2B0F977 0xF8045F7B 0x980A3CC2 0x5CAA2EC7) =
     BS 0xFA3209B8 0x39D4C207 0x1A4B2832 0xE82906E7
       0xF3341C1D 0x3F79504B 0x59DAA1BE 0x2114C5C8"
    "invSbox_affine (BS 0x5555AAAA 0x66666666 0x96969696 0x69966996
       0x96696996 0x3CC3C33C 0xF00F0FF0 0xFF0000FF) =
     BS 0xAAAAAAAA 0xCCCCCCCC 0xF0F0F0F0 0xFF00FF00
       0xFFFF0000 0xFFFFFFFF 0 0"
    "invSbox_affine (BS 0x10BDB210 0x6A450B2E 0x577D64E0 0xE9DA849C
       0x2624B286 0x7D8DCC47 0x3F6BCB91 0x4CB37701) =
     BS 0x99BC2059 0xC60CFD1D 0xFF2D3156 0x3A4D1AB7
       0xBCF44423 0x3DEAA167 0x84EAFACB 0x730A7239"
    "invSbox_affine (BS 0xAAAA5555 0x99999999 0x69696969 0x96699669
       0x96696996 0x3CC3C33C 0xF00F0FF0 0x00FFFF00) =
     BS 0xAAAAAAAA 0xCCCCCCCC 0xF0F0F0F0 0xFF00FF00
       0xFFFF0000 0xFFFFFFFF 0 0xFFFFFFFF"
    "invSbox_affine (BS 0x68AB4BFA 0xE61A4C5E 0x23A869A2 0x2568EA2E
       0xF7F17A49 0x6BC2AA4E 0xE4851B3B 0xE7BAC28F) =
     BS 0x502FFE9C 0xA946BAEF 0x09AE0B67 0x20C18816
       0x27F7BD4B 0x33E3D164 0x26010B9A 0xF56E2D2C"
    "invSbox_affine (BS 0xAAAA5555 0x99999999 0x69696969 0x69966996
       0x96696996 0x3CC3C33C 0x0FF0F00F 0x00FFFF00) =
     BS 0xAAAAAAAA 0xCCCCCCCC 0xF0F0F0F0 0xFF00FF00
       0xFFFF0000 0xFFFFFFFF 0xFFFFFFFF 0"
    "invSbox_affine (BS 0x4F1EAD39 0xC8709740 0xAC39B6C0 0x4E9DDB76
       0xF210A3AE 0x54B24813 0x21E0B833 0x52379DE7) =
     BS 0x55439CCB 0x2063CE7C 0x97A856F6 0xB79553EA
       0xA70DF405 0x0C1E8889 0x55313E5C 0x1B808CDD"
    "invSbox_affine (BS 0x5555AAAA 0x66666666 0x96969696 0x96699669
       0x96696996 0x3CC3C33C 0x0FF0F00F 0xFF0000FF) =
     BS 0xAAAAAAAA 0xCCCCCCCC 0xF0F0F0F0 0xFF00FF00
       0xFFFF0000 0xFFFFFFFF 0xFFFFFFFF 0xFFFFFFFF"
  by (simp_all add: Let_def)

lemma invSbox_Sbox_probe:
  "br_aes_ct_bitslice_invSbox (br_aes_ct_bitslice_Sbox (probe a b c)) = probe a b c"
  by (cases a; cases b; cases c;
      simp add: probe_def br_aes_ct_bitslice_invSbox_def Sbox_probe Sbox_affine_probe
        invSbox_affine_probe del: invSbox_affine.simps)

theorem invSbox_Sbox [simp]: "br_aes_ct_bitslice_invSbox (br_aes_ct_bitslice_Sbox q) = q"
proof (rule bs_eq_bitsI)
  fix n :: nat
  assume "n < 32"
  then obtain m a b c where q: "rel_bs (same_bit n m) q (probe a b c)" by (rule ex_probe)
  then have "rel_bs (same_bit n m) (br_aes_ct_bitslice_invSbox (br_aes_ct_bitslice_Sbox q)) (probe a b c)"
    by (metis Sbox_same_bit invSbox_same_bit invSbox_Sbox_probe)
  then show "rel_bs (\<lambda>w w'. bit w n = bit w' n)
      (br_aes_ct_bitslice_invSbox (br_aes_ct_bitslice_Sbox q)) q"
    using q by (rule same_bit_unique)
qed

text \<open>The affine map of the AES S-box, the inverse of the one above.\<close>

primrec Sbox_affine :: "u32 bs \<Rightarrow> u32 bs" where
  "Sbox_affine (BS b0 b1 b2 b3 b4 b5 b6 b7) =
     BS (NOT (b0 XOR b4 XOR b5 XOR b6 XOR b7)) (NOT (b1 XOR b5 XOR b6 XOR b7 XOR b0))
        (b2 XOR b6 XOR b7 XOR b0 XOR b1) (b3 XOR b7 XOR b0 XOR b1 XOR b2)
        (b4 XOR b0 XOR b1 XOR b2 XOR b3) (NOT (b5 XOR b1 XOR b2 XOR b3 XOR b4))
        (NOT (b6 XOR b2 XOR b3 XOR b4 XOR b5)) (b7 XOR b3 XOR b4 XOR b5 XOR b6)"

lemma Sbox_affine_inverse: "Sbox_affine (invSbox_affine q) = q"
  by (cases q) (simp add: Let_def, intro conjI bit_word_eqI; simp add: bit_simps; argo)

theorem Sbox_invSbox [simp]: "br_aes_ct_bitslice_Sbox (br_aes_ct_bitslice_invSbox q) = q"
proof -
  have "invSbox_affine (br_aes_ct_bitslice_Sbox (br_aes_ct_bitslice_invSbox q)) = invSbox_affine q"
    using invSbox_Sbox [of "invSbox_affine q"] by (simp add: br_aes_ct_bitslice_invSbox_def)
  then show ?thesis by (metis Sbox_affine_inverse)
qed

subsection \<open>The row shifts and the column mixing\<close>

lemma rbit_shift_rows_word:
  assumes "r < 4" "k < 8"
  shows "rbit (shift_rows_word x) r k = rbit x r ((k + 2 * r) mod 8)"
proof -
  have "r \<in> {0, 1, 2, 3}" using assms by auto
  then show ?thesis
    using lt_8_cases [OF assms(2)]
    by (elim insertE emptyE; simp add: rbit_def shift_rows_word_def bit_simps)
qed

lemma rbit_inv_shift_rows_word:
  assumes "r < 4" "k < 8"
  shows "rbit (inv_shift_rows_word x) r k = rbit x r ((k + (8 - 2 * r)) mod 8)"
proof -
  have "r \<in> {0, 1, 2, 3}" using assms by auto
  then show ?thesis
    using lt_8_cases [OF assms(2)]
    by (elim insertE emptyE; simp add: rbit_def inv_shift_rows_word_def bit_simps)
qed

lemma row_shift_inverse:
  fixes r k :: nat
  assumes "r < 4" "k < 8"
  shows "((k + 2 * r) mod 8 + (8 - 2 * r)) mod 8 = k" "((k + (8 - 2 * r)) mod 8 + 2 * r) mod 8 = k"
  using assms by (subst mod_add_left_eq, simp)+

lemma inv_shift_rows_word [simp]: "inv_shift_rows_word (shift_rows_word x) = x"
  by (rule rbit_eqI)
    (simp add: rbit_shift_rows_word rbit_inv_shift_rows_word row_shift_inverse
      del: Nat.add_diff_assoc)

lemma shift_rows_word_inv [simp]: "shift_rows_word (inv_shift_rows_word x) = x"
  by (rule rbit_eqI)
    (simp add: rbit_shift_rows_word rbit_inv_shift_rows_word row_shift_inverse
      del: Nat.add_diff_assoc)

lemma inv_shift_rows [simp]: "inv_shift_rows (shift_rows q) = q"
  by (cases q) (simp add: inv_shift_rows_def shift_rows_def)

lemma shift_rows_inv [simp]: "shift_rows (inv_shift_rows q) = q"
  by (cases q) (simp add: inv_shift_rows_def shift_rows_def)

lemma rbit_ror8:
  assumes "r < 4" "k < 8"
  shows "rbit (ror8 x) r k = rbit x ((r + 1) mod 4) k"
    "rbit (rotr16 x) r k = rbit x ((r + 2) mod 4) k"
proof -
  have "r \<in> {0, 1, 2, 3}" using assms by auto
  then show "rbit (ror8 x) r k = rbit x ((r + 1) mod 4) k"
    "rbit (rotr16 x) r k = rbit x ((r + 2) mod 4) k"
    using assms(2)
    by (elim insertE emptyE;
        auto simp: rbit_def ror8_def rotr16_def bit_simps add.commute dest: bit_imp_le_length)+
qed

lemma rbit_xor [simp]: "rbit (a XOR b) r k = (rbit a r k \<noteq> rbit b r k)"
  by (simp add: rbit_def bit_simps)

lemma ror8_xor: "ror8 (a XOR b) = ror8 a XOR ror8 b"
  by (rule rbit_eqI) (simp add: rbit_ror8)

lemma rotr16_ror8: "rotr16 x = ror8 (ror8 x)"
  by (rule rbit_eqI) (simp add: rbit_ror8 mod_simps)

lemma ror8_4 [simp]: "ror8 (ror8 (ror8 (ror8 x))) = x"
  by (rule rbit_eqI) (simp add: rbit_ror8 mod_simps)

lemma inv_mix_columns [simp]: "inv_mix_columns (mix_columns q) = q"
  by (cases q) (simp add: Let_def rotr16_ror8 ror8_xor ac_simps)

lemma mix_columns_inv [simp]: "mix_columns (inv_mix_columns q) = q"
  by (cases q) (simp add: Let_def rotr16_ror8 ror8_xor ac_simps)

lemma add_round_key_twice [simp]: "add_round_key (add_round_key q k) k = q"
  by (cases q; cases k) simp

subsection \<open>Decryption inverts encryption\<close>

lemma decrypt_rounds:
  "fold (decrypt_round skey) (rev us)
     (shift_rows (br_aes_ct_bitslice_Sbox (fold (encrypt_round skey) us q))) =
   shift_rows (br_aes_ct_bitslice_Sbox q)"
  by (induction us rule: rev_induct) (simp_all add: decrypt_round_def encrypt_round_def)

lemma encrypt_rounds:
  "fold (encrypt_round skey) us
     (br_aes_ct_bitslice_invSbox (inv_shift_rows (fold (decrypt_round skey) (rev us) p))) =
   br_aes_ct_bitslice_invSbox (inv_shift_rows p)"
  by (induction us arbitrary: p rule: rev_induct)
    (simp_all add: decrypt_round_def encrypt_round_def)

lemma bitslice_decrypt_encrypt:
  "br_aes_ct_bitslice_decrypt n skey (br_aes_ct_bitslice_encrypt n skey q) = q"
  by (simp add: br_aes_ct_bitslice_decrypt_def br_aes_ct_bitslice_encrypt_def Let_def
      decrypt_rounds)

lemma bitslice_encrypt_decrypt:
  "br_aes_ct_bitslice_encrypt n skey (br_aes_ct_bitslice_decrypt n skey q) = q"
  by (simp add: br_aes_ct_bitslice_decrypt_def br_aes_ct_bitslice_encrypt_def Let_def
      encrypt_rounds)

end
