(* ===== verification/Aes_Fips.thy ===== *)
theory Aes_Fips
  imports Aes_Ct
begin

text \<open>
  The Advanced Encryption Standard as FIPS 197 states it, on blocks of sixteen bytes, and the
  proof that the bitsliced code of \<open>Aes_Ct\<close> implements it.  A bitsliced state holds two
  blocks, its lanes; every operation of the code acts on both lanes as the corresponding step
  of the standard acts on a block, and the two key schedules of the code hold the round keys of
  the standard.
\<close>

subsection \<open>The standard\<close>

definition aes_sbox_rows :: "u8 list list" where
  "aes_sbox_rows =
    [[0x63, 0x7C, 0x77, 0x7B, 0xF2, 0x6B, 0x6F, 0xC5, 0x30, 0x01, 0x67, 0x2B, 0xFE, 0xD7, 0xAB, 0x76,
      0xCA, 0x82, 0xC9, 0x7D, 0xFA, 0x59, 0x47, 0xF0, 0xAD, 0xD4, 0xA2, 0xAF, 0x9C, 0xA4, 0x72, 0xC0],
     [0xB7, 0xFD, 0x93, 0x26, 0x36, 0x3F, 0xF7, 0xCC, 0x34, 0xA5, 0xE5, 0xF1, 0x71, 0xD8, 0x31, 0x15,
      0x04, 0xC7, 0x23, 0xC3, 0x18, 0x96, 0x05, 0x9A, 0x07, 0x12, 0x80, 0xE2, 0xEB, 0x27, 0xB2, 0x75],
     [0x09, 0x83, 0x2C, 0x1A, 0x1B, 0x6E, 0x5A, 0xA0, 0x52, 0x3B, 0xD6, 0xB3, 0x29, 0xE3, 0x2F, 0x84,
      0x53, 0xD1, 0x00, 0xED, 0x20, 0xFC, 0xB1, 0x5B, 0x6A, 0xCB, 0xBE, 0x39, 0x4A, 0x4C, 0x58, 0xCF],
     [0xD0, 0xEF, 0xAA, 0xFB, 0x43, 0x4D, 0x33, 0x85, 0x45, 0xF9, 0x02, 0x7F, 0x50, 0x3C, 0x9F, 0xA8,
      0x51, 0xA3, 0x40, 0x8F, 0x92, 0x9D, 0x38, 0xF5, 0xBC, 0xB6, 0xDA, 0x21, 0x10, 0xFF, 0xF3, 0xD2],
     [0xCD, 0x0C, 0x13, 0xEC, 0x5F, 0x97, 0x44, 0x17, 0xC4, 0xA7, 0x7E, 0x3D, 0x64, 0x5D, 0x19, 0x73,
      0x60, 0x81, 0x4F, 0xDC, 0x22, 0x2A, 0x90, 0x88, 0x46, 0xEE, 0xB8, 0x14, 0xDE, 0x5E, 0x0B, 0xDB],
     [0xE0, 0x32, 0x3A, 0x0A, 0x49, 0x06, 0x24, 0x5C, 0xC2, 0xD3, 0xAC, 0x62, 0x91, 0x95, 0xE4, 0x79,
      0xE7, 0xC8, 0x37, 0x6D, 0x8D, 0xD5, 0x4E, 0xA9, 0x6C, 0x56, 0xF4, 0xEA, 0x65, 0x7A, 0xAE, 0x08],
     [0xBA, 0x78, 0x25, 0x2E, 0x1C, 0xA6, 0xB4, 0xC6, 0xE8, 0xDD, 0x74, 0x1F, 0x4B, 0xBD, 0x8B, 0x8A,
      0x70, 0x3E, 0xB5, 0x66, 0x48, 0x03, 0xF6, 0x0E, 0x61, 0x35, 0x57, 0xB9, 0x86, 0xC1, 0x1D, 0x9E],
     [0xE1, 0xF8, 0x98, 0x11, 0x69, 0xD9, 0x8E, 0x94, 0x9B, 0x1E, 0x87, 0xE9, 0xCE, 0x55, 0x28, 0xDF,
      0x8C, 0xA1, 0x89, 0x0D, 0xBF, 0xE6, 0x42, 0x68, 0x41, 0x99, 0x2D, 0x0F, 0xB0, 0x54, 0xBB, 0x16]]"

definition aes_sbox :: "u8 \<Rightarrow> u8" where
  "aes_sbox x = aes_sbox_rows ! (unat x div 32) ! (unat x mod 32)"

definition xtime :: "u8 \<Rightarrow> u8" where
  "xtime x = push_bit 1 x XOR (if bit x 7 then 0x1B else 0)"

type_synonym block = bytes

definition sub_bytes :: "block \<Rightarrow> block" where
  "sub_bytes s = map aes_sbox s"

definition shift_rows_ref :: "block \<Rightarrow> block" where
  "shift_rows_ref s = map (\<lambda>n. s ! ((n + 4 * (n mod 4)) mod 16)) [0..<16]"

definition mix_columns_ref :: "block \<Rightarrow> block" where
  "mix_columns_ref s =
     map (\<lambda>n. let b = (\<lambda>i. s ! (4 * (n div 4) + (n mod 4 + i) mod 4))
              in xtime (b 0) XOR (xtime (b 1) XOR b 1) XOR b 2 XOR b 3) [0..<16]"

definition cipher_round :: "(nat \<Rightarrow> block) \<Rightarrow> nat \<Rightarrow> block \<Rightarrow> block" where
  "cipher_round w u s = xor_bytes (mix_columns_ref (shift_rows_ref (sub_bytes s))) (w u)"

definition aes_cipher :: "nat \<Rightarrow> (nat \<Rightarrow> block) \<Rightarrow> block \<Rightarrow> block" where
  "aes_cipher nr w s =
     xor_bytes (shift_rows_ref (sub_bytes
       (fold (cipher_round w) [1..<nr] (xor_bytes s (w 0))))) (w nr)"

text \<open>The key expansion; a word is a list of four bytes.\<close>

definition rcon :: "nat \<Rightarrow> bytes" where
  "rcon i = [(xtime ^^ (i - 1)) 1, 0, 0, 0]"

function key_expansion :: "bytes \<Rightarrow> nat \<Rightarrow> nat \<Rightarrow> bytes" where
  "key_expansion key nk i =
     (if i < nk \<or> nk = 0 then take 4 (drop (4 * i) key)
      else
        let t = key_expansion key nk (i - 1);
            t = (if i mod nk = 0 then xor_bytes (map aes_sbox (rotate1 t)) (rcon (i div nk))
                 else if 6 < nk \<and> i mod nk = 4 then map aes_sbox t
                 else t)
        in xor_bytes (key_expansion key nk (i - nk)) t)"
  by pat_completeness auto
termination
  by (relation "measure (\<lambda>(key, nk, i). i)") auto

declare key_expansion.simps [simp del]

definition round_key :: "bytes \<Rightarrow> nat \<Rightarrow> block" where
  "round_key key u =
     concat (map (\<lambda>c. key_expansion key (length key div 4) (4 * u + c)) [0..<4])"

definition aes_encrypt :: "bytes \<Rightarrow> block \<Rightarrow> block" where
  "aes_encrypt key s = aes_cipher (key_rounds (length key)) (round_key key) s"

subsection \<open>The lanes of a bitsliced state\<close>

definition slice_byte :: "u32 bs \<Rightarrow> nat \<Rightarrow> u8" where
  "slice_byte q n = horner_sum of_bool 2 (map (\<lambda>w. bit w n) (bs_list q))"

definition lane :: "nat \<Rightarrow> u32 bs \<Rightarrow> block" where
  "lane l q = map (\<lambda>n. slice_byte q (8 * (n mod 4) + 2 * (n div 4) + l)) [0..<16]"

lemma bit_slice_byte: "bit (slice_byte q n) i \<longleftrightarrow> i < 8 \<and> bit (bs_list q ! i) n"
  by (auto simp: slice_byte_def bit_horner_sum_bit_word_iff)

lemma byte_eqI: "(\<And>i. i < 8 \<Longrightarrow> bit x i = bit y i) \<Longrightarrow> x = (y :: u8)"
  by (rule bit_word_eqI) simp

lemma slice_byte_same_bit:
  "rel_bs (same_bit n m) p q \<Longrightarrow> slice_byte p n = slice_byte q m"
  by (cases p; cases q) (simp add: slice_byte_def same_bit_def)

subsection \<open>The S-box circuit computes the S-box\<close>

lemma upt_32:
  "[0..<32] = [0, 1, 2, 3, 4, 5, 6, 7, 8, 9, 10, 11, 12, 13, 14, 15,
     16, 17, 18, 19, 20, 21, 22, 23, 24, 25, 26, 27, 28, 29, 30, 31]"
  by (simp add: upt_rec)

lemma Sbox_probe_rows:
  shows "map (slice_byte (br_aes_ct_bitslice_Sbox (probe False False False))) [0..<32] = aes_sbox_rows ! 0"
    "map (slice_byte (br_aes_ct_bitslice_Sbox (probe False False True))) [0..<32] = aes_sbox_rows ! 4"
    "map (slice_byte (br_aes_ct_bitslice_Sbox (probe False True False))) [0..<32] = aes_sbox_rows ! 2"
    "map (slice_byte (br_aes_ct_bitslice_Sbox (probe False True True))) [0..<32] = aes_sbox_rows ! 6"
    "map (slice_byte (br_aes_ct_bitslice_Sbox (probe True False False))) [0..<32] = aes_sbox_rows ! 1"
    "map (slice_byte (br_aes_ct_bitslice_Sbox (probe True False True))) [0..<32] = aes_sbox_rows ! 5"
    "map (slice_byte (br_aes_ct_bitslice_Sbox (probe True True False))) [0..<32] = aes_sbox_rows ! 3"
    "map (slice_byte (br_aes_ct_bitslice_Sbox (probe True True True))) [0..<32] = aes_sbox_rows ! 7"
  unfolding probe_def if_True if_False Sbox_probe upt_32 aes_sbox_rows_def
  by (simp_all add: slice_byte_def)

lemma slice_byte_probe:
  assumes "m < 32"
  shows "slice_byte (probe a b c) m = word_of_nat (32 * (of_bool a + 2 * of_bool b + 4 * of_bool c) + m)"
proof -
  have "map (slice_byte (probe a b c)) [0..<32] =
      map (\<lambda>m. word_of_nat (32 * (of_bool a + 2 * of_bool b + 4 * of_bool c) + m)) [0..<32]"
    unfolding upt_32 probe_def
    by (cases a; cases b; cases c; simp add: slice_byte_def)
  from arg_cong [OF this, of "\<lambda>l. l ! m"] assms show ?thesis by simp
qed

lemma unat_byte: "n < 256 \<Longrightarrow> unat (word_of_nat n :: u8) = n"
  by (simp add: unat_of_nat take_bit_nat_eq_self)

lemma slice_byte_Sbox_probe:
  assumes "m < 32"
  shows "slice_byte (br_aes_ct_bitslice_Sbox (probe a b c)) m = aes_sbox (slice_byte (probe a b c) m)"
proof -
  let ?k = "of_bool a + 2 * of_bool b + 4 * of_bool c :: nat"
  have "map (slice_byte (br_aes_ct_bitslice_Sbox (probe a b c))) [0..<32] = aes_sbox_rows ! ?k"
    by (cases a; cases b; cases c) (simp_all add: Sbox_probe_rows numeral_2_eq_2 numeral_3_eq_3)
  from arg_cong [OF this, of "\<lambda>l. l ! m"] assms
  have "slice_byte (br_aes_ct_bitslice_Sbox (probe a b c)) m = aes_sbox_rows ! ?k ! m" by simp
  moreover have "32 * ?k + m < 256" using assms by (simp split: split_of_bool)
  then have "unat (word_of_nat (32 * ?k + m) :: u8) = 32 * ?k + m" by (rule unat_byte)
  moreover have "(32 * k + m) div 32 = k" "(32 * k + m) mod 32 = m" for k
    using assms by simp_all
  ultimately show ?thesis
    unfolding slice_byte_probe [OF assms] aes_sbox_def by metis
qed

lemma slice_byte_Sbox:
  assumes "n < 32"
  shows "slice_byte (br_aes_ct_bitslice_Sbox q) n = aes_sbox (slice_byte q n)"
proof -
  from assms obtain m a b c where m: "m < 32" and q: "rel_bs (same_bit n m) q (probe a b c)"
    by (rule ex_probe)
  show ?thesis
    using slice_byte_same_bit [OF Sbox_same_bit [OF q]] slice_byte_same_bit [OF q]
    by (simp add: slice_byte_Sbox_probe [OF m])
qed

subsection \<open>The round functions on the lanes\<close>

lemma lane_position:
  fixes n l :: nat
  assumes "n < 16" "l < 2"
  shows "8 * (n mod 4) + 2 * (n div 4) + l < 32" "2 * (n div 4) + l < 8" "n mod 4 < 4"
proof -
  have "n div 4 < 4" "n mod 4 < 4" using assms by auto
  then show "8 * (n mod 4) + 2 * (n div 4) + l < 32" "2 * (n div 4) + l < 8" "n mod 4 < 4"
    using assms by linarith+
qed

lemma length_lane [simp]: "length (lane l q) = 16"
  by (simp add: lane_def)

lemma nth_lane [simp]:
  "n < 16 \<Longrightarrow> lane l q ! n = slice_byte q (8 * (n mod 4) + (2 * (n div 4) + l))"
  by (simp add: lane_def add.assoc)

lemma lane_eqI:
  assumes "length s = 16"
    and "\<And>n. n < 16 \<Longrightarrow> slice_byte q (8 * (n mod 4) + (2 * (n div 4) + l)) = s ! n"
  shows "lane l q = s"
  using assms by (intro nth_equalityI) simp_all

lemma bit_slice_rbit:
  "bit (slice_byte q (8 * r + k)) i \<longleftrightarrow> i < 8 \<and> rbit (bs_list q ! i) r k"
  by (simp add: bit_slice_byte rbit_def)

lemma lane_Sbox: "l < 2 \<Longrightarrow> lane l (br_aes_ct_bitslice_Sbox q) = sub_bytes (lane l q)"
  using lane_position by (intro lane_eqI) (simp_all add: sub_bytes_def slice_byte_Sbox add.assoc)

lemma nth_map_bs: "i < 8 \<Longrightarrow> bs_list (map_bs f q) ! i = f (bs_list q ! i)"
  by (cases q) (auto dest!: lt_8_cases)

lemma lane_row: "l < 2 \<Longrightarrow> (l + 2 * x) mod 8 = 2 * (x mod 4) + (l :: nat)"
  using mod_mult2_eq [of "l + 2 * x" 2 4] by simp

lemma lane_shift_rows: "l < 2 \<Longrightarrow> lane l (shift_rows q) = shift_rows_ref (lane l q)"
proof (rule lane_eqI)
  fix n :: nat
  assume n: "n < 16" and l: "l < 2"
  let ?r = "n mod 4" let ?c = "n div 4" let ?m = "(n + 4 * ?r) mod 16"
  have "?m mod 4 = ?r" using mod_mod_cancel [of 4 16 "n + 4 * ?r"] by simp
  moreover have "?m div 4 = (?c + ?r) mod 4"
    using mod_mult2_eq [of "n + 4 * ?r" 4 4] by (simp add: add.commute)
  moreover have "(2 * ?c + l + 2 * ?r) mod 8 = 2 * ((?c + ?r) mod 4) + l"
    using lane_row [OF l, of "?c + ?r"] by (simp add: algebra_simps)
  ultimately show "slice_byte (shift_rows q) (8 * ?r + (2 * ?c + l)) = shift_rows_ref (lane l q) ! n"
    using n lane_position [OF n l]
    by (intro byte_eqI)
      (simp add: shift_rows_ref_def bit_slice_rbit shift_rows_def nth_map_bs rbit_shift_rows_word)
qed (simp add: shift_rows_ref_def)

lemma bit_xtime:
  "bit (xtime x) 0 = bit x 7" "bit (xtime x) 1 = (bit x 0 \<noteq> bit x 7)"
  "bit (xtime x) 2 = bit x 1" "bit (xtime x) 3 = (bit x 2 \<noteq> bit x 7)"
  "bit (xtime x) 4 = (bit x 3 \<noteq> bit x 7)" "bit (xtime x) 5 = bit x 4"
  "bit (xtime x) 6 = bit x 5" "bit (xtime x) 7 = bit x 6"
  unfolding xtime_def bit_xor_iff bit_push_bit_iff by simp_all

text \<open>The column mixing, from a bitsliced multiplication by two and rotations of the rows.\<close>

primrec bs_xtime :: "u32 bs \<Rightarrow> u32 bs" where
  "bs_xtime (BS b0 b1 b2 b3 b4 b5 b6 b7) =
     BS b7 (b0 XOR b7) b1 (b2 XOR b7) (b3 XOR b7) b4 b5 b6"

lemma slice_byte_bs_xtime: "slice_byte (bs_xtime q) n = xtime (slice_byte q n)"
proof (rule byte_eqI)
  fix i :: nat
  assume "i < 8"
  then have "i \<in> {0, 1, 2, 3, 4, 5, 6, 7}" by (rule lt_8_cases)
  then show "bit (slice_byte (bs_xtime q) n) i = bit (xtime (slice_byte q n)) i"
    by (cases q; elim insertE emptyE;
        simp add: bit_xtime [unfolded One_nat_def] bit_slice_byte bit_xor_iff)
qed

lemma nth_add_round_key:
  "i < 8 \<Longrightarrow> bs_list (add_round_key q k) ! i = bs_list q ! i XOR bs_list k ! i"
  by (cases q; cases k) (auto dest!: lt_8_cases)

lemma slice_byte_add_round_key:
  "slice_byte (add_round_key q k) n = slice_byte q n XOR slice_byte k n"
  by (rule byte_eqI) (simp add: bit_slice_byte bit_xor_iff nth_add_round_key)

lemma slice_byte_rotate:
  assumes "r < 4" "k < 8"
  shows "slice_byte (map_bs ror8 q) (8 * r + k) = slice_byte q (8 * ((r + 1) mod 4) + k)"
    "slice_byte (map_bs rotr16 q) (8 * r + k) = slice_byte q (8 * ((r + 2) mod 4) + k)"
  using assms by (auto intro!: byte_eqI simp: bit_slice_rbit nth_map_bs rbit_ror8)

lemma mix_columns_rotations:
  "mix_columns q =
     add_round_key (add_round_key (bs_xtime q)
         (add_round_key (bs_xtime (map_bs ror8 q)) (map_bs ror8 q)))
       (add_round_key (map_bs rotr16 q) (map_bs rotr16 (map_bs ror8 q)))"
  by (cases q) (simp add: Let_def rotr16_ror8 ror8_xor ac_simps)

lemma slice_byte_mix_columns:
  assumes "r < 4" "k < 8"
  shows "slice_byte (mix_columns q) (8 * r + k) =
    (let b = (\<lambda>i. slice_byte q (8 * ((r + i) mod 4) + k))
     in xtime (b 0) XOR (xtime (b 1) XOR b 1) XOR b 2 XOR b 3)"
  using assms
  by (simp add: mix_columns_rotations slice_byte_add_round_key slice_byte_bs_xtime
      slice_byte_rotate Let_def mod_simps xor.assoc add.commute [of r 3])

lemma lane_mix_columns: "l < 2 \<Longrightarrow> lane l (mix_columns q) = mix_columns_ref (lane l q)"
proof (rule lane_eqI)
  fix n :: nat
  assume n: "n < 16" and l: "l < 2"
  have c: "n div 4 < 4" using n by simp
  have "4 * (n div 4) + m < 16" "(4 * (n div 4) + m) mod 4 = m" "(4 * (n div 4) + m) div 4 = n div 4"
    if "m < 4" for m
    using that c by auto
  then show "slice_byte (mix_columns q) (8 * (n mod 4) + (2 * (n div 4) + l)) =
      mix_columns_ref (lane l q) ! n"
    using n lane_position [OF n l]
    by (simp add: slice_byte_mix_columns mix_columns_ref_def Let_def)
qed (simp add: mix_columns_ref_def)

lemma lane_add_round_key: "lane l (add_round_key q k) = xor_bytes (lane l q) (lane l k)"
  by (rule lane_eqI) (simp_all add: slice_byte_add_round_key)

theorem lane_encrypt:
  assumes "l < 2"
  shows "lane l (br_aes_ct_bitslice_encrypt nr skey q) =
    aes_cipher nr (\<lambda>u. lane l (bs_at skey (8 * u))) (lane l q)"
proof -
  have "lane l (fold (encrypt_round skey) us q) =
      fold (cipher_round (\<lambda>u. lane l (bs_at skey (8 * u)))) us (lane l q)" for us q
    using assms
    by (induction us arbitrary: q)
      (simp_all add: encrypt_round_def cipher_round_def lane_add_round_key lane_mix_columns
        lane_shift_rows lane_Sbox)
  then show ?thesis
    using assms
    by (simp add: br_aes_ct_bitslice_encrypt_def aes_cipher_def Let_def lane_add_round_key
        lane_shift_rows lane_Sbox)
qed

subsection \<open>Loading and storing blocks\<close>

lemma bit_le32enc: "n < 4 \<Longrightarrow> i < 8 \<Longrightarrow> bit (le32enc w ! n) i = rbit w n i"
proof -
  assume "n < 4" "i < 8"
  then have "n \<in> {0, 1, 2, 3}" by auto
  then show ?thesis
    using \<open>i < 8\<close> by (elim insertE emptyE; simp add: le32enc_def rbit_def bit_simps add.commute)
qed

text \<open>The four words of one block, and the sixteen bytes they hold.\<close>

definition block_bytes :: "u32 \<Rightarrow> u32 \<Rightarrow> u32 \<Rightarrow> u32 \<Rightarrow> block" where
  "block_bytes a b c d = le32enc a @ le32enc b @ le32enc c @ le32enc d"

lemma nth_block_bytes:
  assumes "n < 16"
  shows "block_bytes a b c d ! n = le32enc ([a, b, c, d] ! (n div 4)) ! (n mod 4)"
proof -
  have "concat (map le32enc [a, b, c, d]) ! (n div 4 * 4 + n mod 4) =
      map le32enc [a, b, c, d] ! (n div 4) ! (n mod 4)"
    using assms by (intro nth_concat_rows) auto
  moreover have "map le32enc [a, b, c, d] ! (n div 4) = le32enc ([a, b, c, d] ! (n div 4))"
    using assms by (intro nth_map) auto
  ultimately show ?thesis using assms by (simp add: block_bytes_def)
qed

lemma length_block_bytes [simp]: "length (block_bytes a b c d) = 16"
  by (simp add: block_bytes_def)

lemma lane_ortho:
  "lane 0 (br_aes_ct_ortho (BS q0 q1 q2 q3 q4 q5 q6 q7)) = block_bytes q0 q2 q4 q6"
  "lane 1 (br_aes_ct_ortho (BS q0 q1 q2 q3 q4 q5 q6 q7)) = block_bytes q1 q3 q5 q7"
proof -
  have *: "lane l (br_aes_ct_ortho q) ! n = le32enc (bs_list q ! (2 * (n div 4) + l)) ! (n mod 4)"
    if "n < 16" "l < 2" for l n q
    using that lane_position [OF that]
    by (intro byte_eqI) (simp add: bit_slice_rbit rbit_ortho bit_le32enc)
  have c: "n div 4 \<in> {0, 1, 2, 3}" if "n < 16" for n :: nat
    using that by (auto simp: less_mult_imp_div_less)
  show "lane 0 (br_aes_ct_ortho (BS q0 q1 q2 q3 q4 q5 q6 q7)) = block_bytes q0 q2 q4 q6"
    by (rule nth_equalityI) (use c in \<open>force simp: * nth_block_bytes simp del: nth_lane\<close>)+
  show "lane 1 (br_aes_ct_ortho (BS q0 q1 q2 q3 q4 q5 q6 q7)) = block_bytes q1 q3 q5 q7"
    by (rule nth_equalityI) (use c in \<open>force simp: * nth_block_bytes simp del: nth_lane\<close>)+
qed

text \<open>A state is determined by its lanes, so storing undoes loading.\<close>

lemma ortho_of_lanes:
  assumes "lane 0 q = block_bytes a0 a1 a2 a3" "lane 1 q = block_bytes b0 b1 b2 b3"
  shows "br_aes_ct_ortho q = BS a0 b0 a1 b1 a2 b2 a3 b3"
proof (cases "br_aes_ct_ortho q")
  case (BS q0 q1 q2 q3 q4 q5 q6 q7)
  then have q: "q = br_aes_ct_ortho (BS q0 q1 q2 q3 q4 q5 q6 q7)"
    by (metis br_aes_ct_ortho_involution)
  have "block_bytes q0 q2 q4 q6 = block_bytes a0 a1 a2 a3"
    "block_bytes q1 q3 q5 q7 = block_bytes b0 b1 b2 b3"
    using assms by (simp_all add: q lane_ortho [unfolded One_nat_def])
  then show ?thesis
    unfolding BS block_bytes_def by (simp, metis le32dec_enc)
qed

subsection \<open>The key schedules\<close>

lemma sub_word_nth:
  "sub_word x = bs_list (br_aes_ct_ortho (br_aes_ct_bitslice_Sbox
     (br_aes_ct_ortho (BS x x x x x x x x)))) ! 0"
  by (simp add: sub_word_def split: bs.split)

lemma le32_eqI: "length b = 4 \<Longrightarrow> (\<And>n. n < 4 \<Longrightarrow> le32enc w ! n = b ! n) \<Longrightarrow> le32enc w = b"
  by (rule nth_equalityI) simp_all

lemma le32enc_sub_word: "le32enc (sub_word x) = map aes_sbox (le32enc x)"
proof (rule le32_eqI)
  fix n :: nat
  assume n: "n < 4"
  let ?q = "br_aes_ct_ortho (BS x x x x x x x x)"
  have "slice_byte ?q (8 * n + 0) = le32enc x ! n"
    using n by (intro byte_eqI) (simp only: bit_slice_rbit rbit_ortho bit_le32enc, simp add: rbit_ortho)
  then have "slice_byte (br_aes_ct_bitslice_Sbox ?q) (8 * n + 0) = aes_sbox (le32enc x ! n)"
    using n by (simp add: slice_byte_Sbox)
  moreover have "le32enc (sub_word x) ! n = slice_byte (br_aes_ct_bitslice_Sbox ?q) (8 * n + 0)"
    unfolding sub_word_nth using n
    by (intro byte_eqI) (simp only: bit_slice_rbit bit_le32enc, simp add: rbit_ortho)
  ultimately show "le32enc (sub_word x) ! n = map aes_sbox (le32enc x) ! n"
    using n by simp
qed simp

lemma le32enc_ror8: "le32enc (push_bit 24 t OR drop_bit 8 t) = rotate1 (le32enc t)"
  by (auto simp: le32enc_def bit_simps intro!: bit_word_eqI dest: bit_imp_le_length)

lemma Rcon_xtime:
  assumes "k < 10"
  shows "Rcon ! k = (xtime ^^ k) 1"
proof -
  have x: "xtime 1 = 2" "xtime 2 = 4" "xtime 4 = 8" "xtime 8 = 16" "xtime 16 = 32"
    "xtime 32 = 64" "xtime 64 = 128" "xtime 128 = 0x1B" "xtime 0x1B = 0x36"
    by (simp_all add: xtime_def)
  have "k \<in> set [0..<10]" using assms by simp
  then show ?thesis by (auto simp: upt_rec Rcon_def x eval_nat_numeral)
qed

lemma le32enc_ucast: "le32enc (ucast (b :: u8)) = [b, 0, 0, 0]"
  by (auto simp: le32enc_def bit_simps intro!: bit_word_eqI)

lemma le32enc_key_step:
  assumes "k < 10"
  shows "le32enc (key_step nk j k tmp) =
    (if j = 0 then xor_bytes (map aes_sbox (rotate1 (le32enc tmp))) (rcon (Suc k))
     else if 6 < nk \<and> j = 4 then map aes_sbox (le32enc tmp) else le32enc tmp)"
  using assms
  by (simp add: key_step_def le32enc_xor le32enc_sub_word le32enc_ror8 le32enc_ucast Rcon_xtime
      rcon_def)

definition expanded :: "bytes \<Rightarrow> nat \<Rightarrow> u32 list \<Rightarrow> bool" where
  "expanded key nk ws \<longleftrightarrow> (\<forall>i < length ws. le32enc (ws ! i) = key_expansion key nk i)"

lemma expanded_snoc:
  assumes "expanded key nk ws" "le32enc w = key_expansion key nk (length ws)"
  shows "expanded key nk (ws @ [w])"
  using assms by (auto simp: expanded_def nth_append less_Suc_eq)

lemma le32enc_dec_take:
  assumes "4 \<le> length p"
  shows "le32enc (le32dec p) = take 4 p"
proof -
  have "le32dec p = le32dec (take 4 p)" by (simp add: le32dec_def)
  then show ?thesis using assms by (simp add: le32enc_dec)
qed

lemma expanded_key_words:
  "length key = 4 * nk \<Longrightarrow> expanded key nk (key_words key nk)"
  by (auto simp: expanded_def key_words_def key_expansion.simps [of key nk] le32enc_dec_take)

lemma Suc_mod_div:
  fixes i nk :: nat
  assumes "0 < nk"
  shows "Suc (i mod nk) = nk \<Longrightarrow> Suc i mod nk = 0 \<and> Suc i div nk = Suc (i div nk)"
    "Suc (i mod nk) \<noteq> nk \<Longrightarrow> Suc i mod nk = Suc (i mod nk) \<and> Suc i div nk = i div nk"
  using assms by (auto simp: mod_Suc div_Suc)

text \<open>The counters \<open>j\<close> and \<open>k\<close> of the loop are the remainder and the quotient of \<open>i\<close>.\<close>

lemma stdenc_loop_expanded:
  assumes "0 < nk" "nk \<le> length ws" "expanded key nk ws" "length ws + n \<le> 11 * nk"
  shows "expanded key nk (stdenc_loop n nk (length ws) (length ws mod nk) (length ws div nk - 1)
      (last ws) ws) \<and>
    length (stdenc_loop n nk (length ws) (length ws mod nk) (length ws div nk - 1) (last ws) ws) =
      length ws + n"
  using assms
proof (induction n arbitrary: ws)
  case (Suc n)
  let ?i = "length ws" let ?j = "?i mod nk" let ?k = "?i div nk - 1"
  let ?w = "key_step nk ?j ?k (last ws) XOR ws ! (?i - nk)"
  have "?i div nk < 11" "0 < ?i div nk"
    using Suc.prems by (auto intro: less_mult_imp_div_less simp: div_greater_zero_iff)
  then have k: "?k < 10" "Suc ?k = ?i div nk" by simp_all
  have "ws \<noteq> []" using Suc.prems by auto
  then have "le32enc (last ws) = key_expansion key nk (?i - 1)"
    using Suc.prems by (simp add: last_conv_nth expanded_def)
  moreover have "le32enc (ws ! (?i - nk)) = key_expansion key nk (?i - nk)"
    using Suc.prems by (simp add: expanded_def)
  ultimately have "le32enc ?w = key_expansion key nk ?i"
    using Suc.prems k
    by (simp add: key_expansion.simps [of key nk ?i] Let_def le32enc_xor le32enc_key_step
        xor_bytes_commute)
  then have "expanded key nk (ws @ [?w])"
    using Suc.prems by (intro expanded_snoc)
  with Suc.IH [of "ws @ [?w]"] Suc.prems Suc_mod_div [of nk ?i] k(2)
  show ?case by (auto simp: Let_def)
qed simp

lemma length_twice [simp]: "length (twice ws) = 2 * length ws"
  by (induction ws) (simp_all add: twice_def)

lemma nth_twice [simp]:
  "i < length ws \<Longrightarrow> twice ws ! (2 * i) = ws ! i"
  "i < length ws \<Longrightarrow> twice ws ! Suc (2 * i) = ws ! i"
proof -
  assume "i < length ws"
  then have "b < 2 \<Longrightarrow> concat (map (\<lambda>w. [w, w]) ws) ! (i * 2 + b) = [ws ! i, ws ! i] ! b" for b
    by (subst nth_concat_rows) auto
  from this [of 0] this [of 1]
  show "twice ws ! (2 * i) = ws ! i" "twice ws ! Suc (2 * i) = ws ! i"
    by (simp_all add: twice_def mult.commute)
qed

lemma keysched_loop_twice:
  "0 < nk \<Longrightarrow> nk \<le> length ws \<Longrightarrow>
   keysched_loop n nk (length ws) j k tmp (twice ws) = twice (stdenc_loop n nk (length ws) j k tmp ws)"
proof (induction n arbitrary: j k tmp ws)
  case (Suc n)
  have "twice ws @ [w, w] = twice (ws @ [w])" for w by (simp add: twice_def)
  then show ?case
    using Suc.IH [of "ws @ [_]"] Suc.prems by (simp add: Let_def)
qed simp

text \<open>
  Both copies of a word have the same bits in the two lanes, so keeping one bit of each pair
  loses nothing.
\<close>

definition lanes_equal :: "u32 \<Rightarrow> bool" where
  "lanes_equal w \<longleftrightarrow> (\<forall>n < 32. bit w n = bit w (if even n then n + 1 else n - 1))"

lemma bit_u32: "bit (w :: u32) n \<Longrightarrow> n < 32"
  by (drule bit_imp_le_length) simp

lemma bit_lane_masks:
  "bit (0x55555555 :: u32) n \<longleftrightarrow> n < 32 \<and> even n" "bit (0xAAAAAAAA :: u32) n \<longleftrightarrow> n < 32 \<and> odd n"
proof -
  have "n mod 2 < 1 \<longleftrightarrow> even n" by auto
  then show "bit (0x55555555 :: u32) n \<longleftrightarrow> n < 32 \<and> even n"
    "bit (0xAAAAAAAA :: u32) n \<longleftrightarrow> n < 32 \<and> odd n"
    using bit_u32 [of _ n] bit_masks(1,2) [of n] by metis+
qed

lemma expand_compressed:
  assumes "lanes_equal a" "lanes_equal b" "c = (a AND 0x55555555) OR (b AND 0xAAAAAAAA)"
  shows "(c AND 0x55555555) OR push_bit 1 (c AND 0x55555555) = a"
    "(c AND 0xAAAAAAAA) OR drop_bit 1 (c AND 0xAAAAAAAA) = b"
proof -
  have x: "bit (c AND 0x55555555) n \<longleftrightarrow> even n \<and> bit a n"
    and y: "bit (c AND 0xAAAAAAAA) n \<longleftrightarrow> odd n \<and> bit b n" for n
    unfolding assms(3) bit_or_iff bit_and_iff bit_lane_masks by (auto dest: bit_u32)
  show "(c AND 0x55555555) OR push_bit 1 (c AND 0x55555555) = a"
  proof (rule word32_eqI)
    fix n :: nat
    assume n: "n < 32"
    have "odd n \<Longrightarrow> bit a n = bit a (n - 1)"
      using assms(1) [unfolded lanes_equal_def, rule_format, OF n] by presburger
    then show "bit ((c AND 0x55555555) OR push_bit 1 (c AND 0x55555555)) n = bit a n"
      unfolding bit_or_iff bit_push_bit_iff x using n by (cases n) auto
  qed
  show "(c AND 0xAAAAAAAA) OR drop_bit 1 (c AND 0xAAAAAAAA) = b"
  proof (rule word32_eqI)
    fix n :: nat
    assume n: "n < 32"
    have "even n \<Longrightarrow> bit b n = bit b (1 + n)"
      using assms(2) [unfolded lanes_equal_def, rule_format, OF n] by (simp add: add.commute)
    then show "bit ((c AND 0xAAAAAAAA) OR drop_bit 1 (c AND 0xAAAAAAAA)) n = bit b n"
      unfolding bit_or_iff bit_drop_bit_eq o_def y by auto
  qed
qed

lemma nth_twice_row:
  assumes "4 * u + 3 < length ws" "k < 8"
  shows "twice ws ! (8 * u + k) = ws ! (4 * u + k div 2)"
proof -
  have "4 * u + k div 2 < length ws" using assms by linarith
  moreover have "8 * u + k = 2 * (4 * u + k div 2) + k mod 2" by presburger
  moreover have "k mod 2 = 0 \<or> k mod 2 = 1" by auto
  ultimately show ?thesis by (metis Suc_eq_plus1 add.right_neutral nth_twice)
qed

lemma bs_at_twice:
  assumes "4 * u + 3 < length ws"
  shows "bs_at (twice ws) (8 * u) =
    BS (ws ! (4 * u)) (ws ! (4 * u)) (ws ! (4 * u + 1)) (ws ! (4 * u + 1))
       (ws ! (4 * u + 2)) (ws ! (4 * u + 2)) (ws ! (4 * u + 3)) (ws ! (4 * u + 3))"
  using nth_twice_row [OF assms, of 0] nth_twice_row [OF assms, of 1]
    nth_twice_row [OF assms, of 2] nth_twice_row [OF assms, of 3]
    nth_twice_row [OF assms, of 4] nth_twice_row [OF assms, of 5]
    nth_twice_row [OF assms, of 6] nth_twice_row [OF assms, of 7]
  by (simp add: bs_at_def)

lemma lanes_equal_ortho:
  assumes "i < 8"
  shows "lanes_equal (bs_list (br_aes_ct_ortho (BS a a b b c c d d)) ! i)"
  unfolding lanes_equal_def
proof (intro allI impI)
  fix n :: nat
  assume "n < 32"
  then have n: "n = 8 * (n div 8) + n mod 8" "n div 8 < 4" "n mod 8 < 8" by simp_all
  let ?w = "bs_list (br_aes_ct_ortho (BS a a b b c c d d)) ! i"
  obtain r k where rk: "n = 8 * r + k" "r < 4" "k < 8" using n by blast
  have w: "rbit ?w r k = rbit (bs_list (BS a a b b c c d d) ! k) r i" if "k < 8" for k
    by (rule rbit_ortho [OF rk(2) that assms])
  let ?k = "if even k then k + 1 else k - 1"
  have "k \<in> {0, 1, 2, 3, 4, 5, 6, 7}" using rk(3) by (rule lt_8_cases)
  then have "rbit ?w r k = rbit ?w r ?k"
    by (elim insertE emptyE; simp add: w)
  moreover have "8 * r + ?k = (if even n then n + 1 else n - 1)"
    using rk by (auto elim: oddE)
  ultimately show "bit ?w n = bit ?w (if even n then n + 1 else n - 1)"
    using rk(1) by (simp add: rbit_def)
qed

lemma nth_skey_expand:
  assumes "i < 4 * (nr + 1)"
  shows "br_aes_ct_skey_expand nr c ! (2 * i) =
      (c ! i AND 0x55555555) OR push_bit 1 (c ! i AND 0x55555555)"
    "br_aes_ct_skey_expand nr c ! Suc (2 * i) =
      (c ! i AND 0xAAAAAAAA) OR drop_bit 1 (c ! i AND 0xAAAAAAAA)"
proof -
  let ?f = "\<lambda>u. let x = c ! u AND 0x55555555; y = c ! u AND 0xAAAAAAAA
                 in [x OR push_bit 1 x, y OR drop_bit 1 y]"
  have *: "concat (map ?f [0..<4 * (nr + 1)]) ! (i * 2 + b) = ?f i ! b" if "b < 2" for b
    using assms that by (subst nth_concat_rows) (auto simp: Let_def)
  show "br_aes_ct_skey_expand nr c ! (2 * i) =
      (c ! i AND 0x55555555) OR push_bit 1 (c ! i AND 0x55555555)"
    using * [of 0] by (simp only: br_aes_ct_skey_expand_def Let_def mult.commute) simp
  show "br_aes_ct_skey_expand nr c ! Suc (2 * i) =
      (c ! i AND 0xAAAAAAAA) OR drop_bit 1 (c ! i AND 0xAAAAAAAA)"
    using * [of 1] by (simp only: br_aes_ct_skey_expand_def Let_def mult.commute) simp
qed

lemma nth_ortho_rounds:
  assumes "u < n" "m < 8"
  shows "ortho_rounds n skey ! (8 * u + m) = bs_list (br_aes_ct_ortho (bs_at skey (8 * u))) ! m"
proof -
  have "concat (map (\<lambda>u. bs_list (br_aes_ct_ortho (bs_at skey (8 * u)))) [0..<n]) ! (u * 8 + m) =
      bs_list (br_aes_ct_ortho (bs_at skey (8 * u))) ! m"
    using assms by (subst nth_concat_rows) auto
  then show ?thesis by (simp add: ortho_rounds_def mult.commute)
qed

lemma bs_at_eqI:
  assumes "\<And>m. m < 8 \<Longrightarrow> sk ! (n + m) = bs_list q ! m"
  shows "bs_at sk n = q"
  using assms [of 0] assms [of 1] assms [of 2] assms [of 3] assms [of 4] assms [of 5]
    assms [of 6] assms [of 7]
  by (cases q) (simp add: bs_at_def)

lemma bs_at_skey_expand:
  assumes u: "u \<le> nr" and ws: "length ws = 4 * (nr + 1)"
    and c: "\<And>i. i < 4 * (nr + 1) \<Longrightarrow>
      c ! i = compress_skey (4 * (nr + 1)) (ortho_rounds (nr + 1) (twice ws)) ! i"
  shows "bs_at (br_aes_ct_skey_expand nr c) (8 * u) = br_aes_ct_ortho (bs_at (twice ws) (8 * u))"
proof -
  let ?q = "br_aes_ct_ortho (bs_at (twice ws) (8 * u))"
  have eq: "lanes_equal (bs_list ?q ! m)" if "m < 8" for m
    using bs_at_twice [of u ws] u ws lanes_equal_ortho [OF that] by simp
  have *: "br_aes_ct_skey_expand nr c ! (8 * u + 2 * k) = bs_list ?q ! (2 * k) \<and>
      br_aes_ct_skey_expand nr c ! (8 * u + 2 * k + 1) = bs_list ?q ! (2 * k + 1)" if "k < 4" for k
  proof -
    have i: "4 * u + k < 4 * (nr + 1)" using u that by simp
    have "c ! (4 * u + k) = (bs_list ?q ! (2 * k) AND 0x55555555) OR
        (bs_list ?q ! (2 * k + 1) AND 0xAAAAAAAA)"
      using nth_ortho_rounds [of u "nr + 1" "2 * k" "twice ws"]
        nth_ortho_rounds [of u "nr + 1" "2 * k + 1" "twice ws"] i u that
      by (simp add: c compress_skey_def algebra_simps)
    note e = expand_compressed [OF eq eq this]
    have idx: "8 * u + 2 * k = 2 * (4 * u + k)" "2 * (4 * u + k) + 1 = Suc (2 * (4 * u + k))"
      by simp_all
    show ?thesis
      unfolding idx nth_skey_expand [OF i] using that by (intro conjI e) simp_all
  qed
  show ?thesis
  proof (rule bs_at_eqI)
    fix m :: nat
    assume m: "m < 8"
    then have "m div 2 < 4" "m = 2 * (m div 2) \<or> m = 2 * (m div 2) + 1" by auto
    then obtain k where k: "k < 4" "m = 2 * k \<or> m = 2 * k + 1" by blast
    from k(2) show "br_aes_ct_skey_expand nr c ! (8 * u + m) = bs_list ?q ! m"
      using * [OF k(1)] by (elim disjE) (simp_all only: add.assoc)
  qed
qed

text \<open>The words of the schedule, as both key schedules compute them.\<close>

definition valid_key :: "bytes \<Rightarrow> bool" where
  "valid_key key \<longleftrightarrow> length key \<in> {16, 24, 32}"

definition schedule_words :: "bytes \<Rightarrow> u32 list" where
  "schedule_words key =
     (let nk = length key div 4; ws = key_words key nk
      in stdenc_loop (4 * (key_rounds (length key) + 1) - nk) nk nk 0 0 (last ws) ws)"

lemma valid_key_rounds:
  "valid_key key \<Longrightarrow> key_rounds (length key) \<in> {10, 12, 14} \<and>
     length key = 4 * (length key div 4) \<and> 0 < length key div 4 \<and>
     length key div 4 \<le> 4 * (key_rounds (length key) + 1) \<and>
     4 * (key_rounds (length key) + 1) \<le> 11 * (length key div 4) \<and>
     4 * (key_rounds (length key) + 1) \<le> 60"
  by (auto simp: valid_key_def key_rounds_def)

lemma schedule_words:
  assumes "valid_key key"
  shows "length (schedule_words key) = 4 * (key_rounds (length key) + 1)"
    "expanded key (length key div 4) (schedule_words key)"
proof -
  let ?nk = "length key div 4" let ?ws = "key_words key ?nk"
  have len: "length ?ws = ?nk" by (simp add: key_words_def)
  note v = valid_key_rounds [OF assms]
  let ?n = "4 * (key_rounds (length key) + 1) - ?nk"
  have "length ?ws + ?n \<le> 11 * ?nk" "expanded key ?nk ?ws" "0 < ?nk" "?nk \<le> length ?ws"
    using v by (simp_all add: len expanded_key_words)
  from stdenc_loop_expanded [OF this(3,4,2,1)] v
  show "length (schedule_words key) = 4 * (key_rounds (length key) + 1)"
    "expanded key ?nk (schedule_words key)"
    by (simp_all add: len schedule_words_def Let_def)
qed

lemma upt_4: "[0..<4] = [0, 1, 2, 3]"
  by (simp add: upt_rec)

lemma round_key_words:
  assumes "valid_key key" "u \<le> key_rounds (length key)"
  shows "round_key key u = block_bytes (schedule_words key ! (4 * u)) (schedule_words key ! (4 * u + 1))
    (schedule_words key ! (4 * u + 2)) (schedule_words key ! (4 * u + 3))"
proof -
  have "key_expansion key (length key div 4) (4 * u + c) = le32enc (schedule_words key ! (4 * u + c))"
    if "c < 4" for c
    using schedule_words [OF assms(1)] assms(2) that by (simp add: expanded_def)
  from this [of 0] this [of 1] this [of 2] this [of 3] show ?thesis
    by (simp add: round_key_def block_bytes_def upt_4)
qed

lemma keysched_stdenc_words:
  "valid_key key \<Longrightarrow> br_aes_ct_keysched_stdenc skey key (length key) =
     (key_rounds (length key), put_at 0 (schedule_words key) skey)"
  using valid_key_rounds [of key]
  by (auto simp: br_aes_ct_keysched_stdenc_def schedule_words_def Let_def)

lemma keysched_words:
  assumes "valid_key key"
  shows "br_aes_ct_keysched skey key (length key) =
    (key_rounds (length key),
     put_at 0 (compress_skey (4 * (key_rounds (length key) + 1))
       (ortho_rounds (key_rounds (length key) + 1) (twice (schedule_words key)))) skey)"
proof -
  have "length (key_words key (length key div 4)) = length key div 4" by (simp add: key_words_def)
  then show ?thesis
    using valid_key_rounds [OF assms]
      keysched_loop_twice [of "length key div 4" "key_words key (length key div 4)"]
    by (auto simp: br_aes_ct_keysched_def schedule_words_def Let_def)
qed

lemma length_compress_skey [simp]: "length (compress_skey n s) = n"
  by (simp add: compress_skey_def)

lemma length_keysched:
  "valid_key key \<Longrightarrow> 60 \<le> length rk \<Longrightarrow>
   length (snd (br_aes_ct_keysched rk key (length key))) = length rk"
  using valid_key_rounds [of key] by (simp add: keysched_words)

lemma lane_keysched:
  assumes key: "valid_key key" and rk: "60 \<le> length rk"
    and u: "u \<le> key_rounds (length key)" and l: "l < 2"
  shows "lane l (bs_at (br_aes_ct_skey_expand (key_rounds (length key))
      (snd (br_aes_ct_keysched rk key (length key)))) (8 * u)) = round_key key u"
proof -
  let ?nr = "key_rounds (length key)" let ?ws = "schedule_words key"
  let ?c = "compress_skey (4 * (?nr + 1)) (ortho_rounds (?nr + 1) (twice ?ws))"
  have len: "length ?ws = 4 * (?nr + 1)" by (rule schedule_words(1) [OF key])
  have "4 * (?nr + 1) \<le> length rk" using valid_key_rounds [OF key] rk by linarith
  then have "put_at 0 ?c rk ! i = ?c ! i" if "i < 4 * (?nr + 1)" for i
    using that by (simp add: nth_put_at)
  from bs_at_skey_expand [OF u len this]
  have "bs_at (br_aes_ct_skey_expand ?nr (snd (br_aes_ct_keysched rk key (length key)))) (8 * u) =
      br_aes_ct_ortho (bs_at (twice ?ws) (8 * u))"
    by (simp add: keysched_words [OF key])
  moreover have "4 * u + 3 < length ?ws" using u len by simp
  moreover have "l = 0 \<or> l = 1" using l by auto
  ultimately show ?thesis
    by (auto simp: bs_at_twice lane_ortho round_key_words [OF key u]
        simp flip: One_nat_def simp del: One_nat_def)
qed

lemma length_round_key:
  "valid_key key \<Longrightarrow> u \<le> key_rounds (length key) \<Longrightarrow> length (round_key key u) = 16"
  by (simp add: round_key_words)

lemma aes_cipher_cong:
  assumes "\<And>u. u \<le> nr \<Longrightarrow> w u = w' u"
  shows "aes_cipher nr w s = aes_cipher nr w' s"
proof -
  have "fold (cipher_round w) [1..<nr] s = fold (cipher_round w') [1..<nr] s" for s
    using assms by (intro fold_cong) (auto simp: cipher_round_def)
  then show ?thesis using assms by (simp add: aes_cipher_def)
qed

text \<open>The decryption schedule: a column mixing away from the encryption schedule.\<close>

lemma inv_mix_words:
  "mix_columns_ref (concat (map le32enc (inv_mix_words w))) =
     block_bytes (w ! 0) (w ! 1) (w ! 2) (w ! 3)"
proof -
  let ?q = "br_aes_ct_ortho (BS (w ! 0) 0 (w ! 1) 0 (w ! 2) 0 (w ! 3) 0)"
  let ?p = "inv_mix_columns ?q"
  obtain q0 q1 q2 q3 q4 q5 q6 q7 where p: "br_aes_ct_ortho ?p = BS q0 q1 q2 q3 q4 q5 q6 q7"
    by (cases "br_aes_ct_ortho ?p")
  then have "?p = br_aes_ct_ortho (BS q0 q1 q2 q3 q4 q5 q6 q7)"
    by (metis br_aes_ct_ortho_involution)
  then have "lane 0 ?p = concat (map le32enc (inv_mix_words w))"
    using p by (simp add: inv_mix_words_def lane_ortho block_bytes_def)
  moreover have "mix_columns_ref (lane 0 ?p) = lane 0 (mix_columns ?p)"
    by (rule lane_mix_columns [symmetric]) simp
  ultimately show ?thesis by (simp add: lane_ortho)
qed

end
