(* ===== verification/Aes_Bear.thy ===== *)
theory Aes_Bear
  imports Aes_Fips
begin

text \<open>
  The block cipher interface of \<open>src/crypto/aes/aes_bear.c\<close> and its dispatchers in
  \<open>src/port/aes_impl_compat.c\<close>: key setup, single blocks, and the CBC, XTS, CBC-MAC and CCM
  inner loops.  Every mode runs the bitsliced cipher on two blocks at a time; which blocks are
  paired differs from mode to mode, and half of the state is often left over from the last
  call.  The locale \<open>two_block_cipher\<close> states what the modes rely on, that the two
  halves do not influence each other, and the modes are proved equal to their textbook
  definitions in it.  \<open>KASSERT\<close> is compiled out in this port and has no counterpart here.
\<close>

subsection \<open>Blocks as four words\<close>

datatype w4 = W4 u32 u32 u32 u32

definition load_block :: "bytes \<Rightarrow> w4" where
  "load_block p = W4 (le32dec p) (le32dec (drop 4 p)) (le32dec (drop 8 p)) (le32dec (drop 12 p))"

definition store_block :: "w4 \<Rightarrow> bytes" where
  "store_block w = (case w of W4 a b c d \<Rightarrow> block_bytes a b c d)"

definition xor_block :: "w4 \<Rightarrow> w4 \<Rightarrow> w4" where
  "xor_block v w =
     (case v of W4 a b c d \<Rightarrow> case w of W4 a' b' c' d' \<Rightarrow>
        W4 (a XOR a') (b XOR b') (c XOR c') (d XOR d'))"

definition zero_block :: w4 where
  "zero_block = W4 0 0 0 0"

text \<open>
  The bytes of a buffer as the loops consume them, sixteen at a time; every caller passes a
  multiple of sixteen.
\<close>

fun chunks :: "bytes \<Rightarrow> bytes list" where
  "chunks p = (if length p < 16 then [] else take 16 p # chunks (drop 16 p))"

declare chunks.simps [simp del]

text \<open>Two blocks through the bitsliced cipher: transform, encrypt or decrypt, transform back.\<close>

definition two_blocks :: "(u32 bs \<Rightarrow> u32 bs) \<Rightarrow> w4 \<Rightarrow> w4 \<Rightarrow> w4 \<times> w4" where
  "two_blocks crypt v w =
     (case v of W4 a0 a1 a2 a3 \<Rightarrow> case w of W4 b0 b1 b2 b3 \<Rightarrow>
      case br_aes_ct_ortho (crypt (br_aes_ct_ortho (BS a0 b0 a1 b1 a2 b2 a3 b3))) of
        BS q0 q1 q2 q3 q4 q5 q6 q7 \<Rightarrow> (W4 q0 q2 q4 q6, W4 q1 q3 q5 q7))"

definition enc_blocks :: "nat \<Rightarrow> u32 list \<Rightarrow> w4 \<Rightarrow> w4 \<Rightarrow> w4 \<times> w4" where
  "enc_blocks nr rk = two_blocks (br_aes_ct_bitslice_encrypt nr (br_aes_ct_skey_expand nr rk))"

definition dec_blocks :: "nat \<Rightarrow> u32 list \<Rightarrow> w4 \<Rightarrow> w4 \<Rightarrow> w4 \<times> w4" where
  "dec_blocks nr rk = two_blocks (br_aes_ct_bitslice_decrypt nr (br_aes_ct_skey_expand nr rk))"

subsection \<open>Keys and single blocks\<close>

text \<open>\<open>None\<close> is the panic on an invalid number of rounds.\<close>

definition aesbear_setkey :: "u32 list \<Rightarrow> bytes \<Rightarrow> nat \<Rightarrow> u32 list option" where
  "aesbear_setkey rk key nrounds =
     (if nrounds = 10 then Some (snd (br_aes_ct_keysched rk key 16))
      else if nrounds = 12 then Some (snd (br_aes_ct_keysched rk key 24))
      else if nrounds = 14 then Some (snd (br_aes_ct_keysched rk key 32))
      else None)"

definition aes_setenckey128 :: "u32 list \<Rightarrow> bytes \<Rightarrow> (nat \<times> u32 list) option" where
  "aes_setenckey128 rk key = map_option (Pair 10) (aesbear_setkey rk key 10)"

definition aes_setenckey192 :: "u32 list \<Rightarrow> bytes \<Rightarrow> (nat \<times> u32 list) option" where
  "aes_setenckey192 rk key = map_option (Pair 12) (aesbear_setkey rk key 12)"

definition aes_setenckey256 :: "u32 list \<Rightarrow> bytes \<Rightarrow> (nat \<times> u32 list) option" where
  "aes_setenckey256 rk key = map_option (Pair 14) (aesbear_setkey rk key 14)"

definition aesbear_enc :: "u32 list \<Rightarrow> bytes \<Rightarrow> nat \<Rightarrow> bytes" where
  "aesbear_enc rk p nrounds = store_block (fst (enc_blocks nrounds rk (load_block p) zero_block))"

definition aesbear_dec :: "u32 list \<Rightarrow> bytes \<Rightarrow> nat \<Rightarrow> bytes" where
  "aesbear_dec rk p nrounds = store_block (fst (dec_blocks nrounds rk (load_block p) zero_block))"

subsection \<open>Cipher block chaining\<close>

text \<open>
  The loop of \<open>aesbear_cbc_enc\<close>: the chaining value and the unused half of the state, which
  is zero only before the first block.
\<close>

definition cbc_enc_step :: "(w4 \<Rightarrow> w4 \<Rightarrow> w4 \<times> w4) \<Rightarrow> w4 \<times> w4 \<Rightarrow> bytes \<Rightarrow> (w4 \<times> w4) \<times> bytes" where
  "cbc_enc_step crypt s b =
     (case s of (cv, g) \<Rightarrow> case crypt (xor_block cv (load_block b)) g of (q, g') \<Rightarrow>
        ((q, g'), store_block q))"

definition aesbear_cbc_enc :: "u32 list \<Rightarrow> bytes \<Rightarrow> bytes \<Rightarrow> nat \<Rightarrow> bytes \<times> bytes" where
  "aesbear_cbc_enc rk p iv nrounds =
     (if p = [] then (iv, [])
      else
        case map_state (cbc_enc_step (enc_blocks nrounds rk)) (load_block iv, zero_block) (chunks p) of
          ((cv, g), out) \<Rightarrow> (store_block cv, concat out))"

text \<open>
  The loop of \<open>aesbear_cbc_dec\<close> runs from the end of the buffer, two blocks at a time; the
  blocks are given last one first.  \<open>cv\<close> is the first of them, already loaded.
\<close>

fun cbc_dec_loop :: "(w4 \<Rightarrow> w4 \<Rightarrow> w4 \<times> w4) \<Rightarrow> w4 \<Rightarrow> w4 \<Rightarrow> bytes list \<Rightarrow> bytes list" where
  "cbc_dec_loop crypt iv cv (u # l # rest) =
     (let c = load_block l;
          (ql, qu) = crypt c cv;
          hi = store_block (xor_block qu c)
      in if rest = [] then [store_block (xor_block ql iv), hi]
         else
           let cv = load_block (hd rest)
           in cbc_dec_loop crypt iv cv rest @ [store_block (xor_block ql cv), hi])"
| "cbc_dec_loop crypt iv cv bs = []"

definition aesbear_cbc_dec :: "u32 list \<Rightarrow> bytes \<Rightarrow> bytes \<Rightarrow> nat \<Rightarrow> bytes \<times> bytes" where
  "aesbear_cbc_dec rk p iv nrounds =
     (if p = [] then (iv, [])
      else
        let crypt = dec_blocks nrounds rk;
            ivw = load_block iv;
            bs = rev (chunks p);
            cv = load_block (hd bs)
        in (store_block cv,
            concat
              (if odd (length bs)
               then
                 let q = fst (crypt cv zero_block)
                 in if tl bs = [] then [store_block (xor_block q ivw)]
                    else
                      let cv = load_block (hd (tl bs))
                      in cbc_dec_loop crypt ivw cv (tl bs) @ [store_block (xor_block cv q)]
               else cbc_dec_loop crypt ivw cv bs)))"

subsection \<open>XTS\<close>

definition aesbear_xts_update :: "w4 \<Rightarrow> w4" where
  "aesbear_xts_update t =
     (case t of W4 t0 t1 t2 t3 \<Rightarrow>
        let s0 = drop_bit 31 t0; s1 = drop_bit 31 t1; s2 = drop_bit 31 t2; s3 = drop_bit 31 t3
        in W4 (push_bit 1 t0 XOR (- s3 AND 0x87)) (push_bit 1 t1 XOR s0)
             (push_bit 1 t2 XOR s1) (push_bit 1 t3 XOR s2))"

fun xts_pairs :: "(w4 \<Rightarrow> w4 \<Rightarrow> w4 \<times> w4) \<Rightarrow> w4 \<Rightarrow> bytes list \<Rightarrow> w4 \<times> bytes list" where
  "xts_pairs crypt t (l # u # rest) =
     (let v = aesbear_xts_update t;
          (ql, qu) = crypt (xor_block (load_block l) t) (xor_block (load_block u) v);
          (t', out) = xts_pairs crypt (aesbear_xts_update v) rest
      in (t', store_block (xor_block ql t) # store_block (xor_block qu v) # out))"
| "xts_pairs crypt t bs = (t, [])"

definition xts_blocks :: "(w4 \<Rightarrow> w4 \<Rightarrow> w4 \<times> w4) \<Rightarrow> w4 \<Rightarrow> bytes list \<Rightarrow> w4 \<times> bytes list" where
  "xts_blocks crypt t bs =
     (if odd (length bs)
      then
        let q = fst (crypt (xor_block (load_block (hd bs)) t) zero_block);
            (t', out) = xts_pairs crypt (aesbear_xts_update t) (tl bs)
        in (t', store_block (xor_block q t) # out)
      else xts_pairs crypt t bs)"

definition aesbear_xts_enc :: "u32 list \<Rightarrow> bytes \<Rightarrow> bytes \<Rightarrow> nat \<Rightarrow> bytes \<times> bytes" where
  "aesbear_xts_enc rk p tweak nrounds =
     (if p = [] then (tweak, [])
      else case xts_blocks (enc_blocks nrounds rk) (load_block tweak) (chunks p) of
             (t, out) \<Rightarrow> (store_block t, concat out))"

definition aesbear_xts_dec :: "u32 list \<Rightarrow> bytes \<Rightarrow> bytes \<Rightarrow> nat \<Rightarrow> bytes \<times> bytes" where
  "aesbear_xts_dec rk p tweak nrounds =
     (if p = [] then (tweak, [])
      else case xts_blocks (dec_blocks nrounds rk) (load_block tweak) (chunks p) of
             (t, out) \<Rightarrow> (store_block t, concat out))"

subsection \<open>CBC-MAC and CCM\<close>

definition cbcmac_step :: "(w4 \<Rightarrow> w4 \<Rightarrow> w4 \<times> w4) \<Rightarrow> bytes \<Rightarrow> w4 \<times> w4 \<Rightarrow> w4 \<times> w4" where
  "cbcmac_step crypt b s = (case s of (q, g) \<Rightarrow> crypt (xor_block q (load_block b)) g)"

definition aesbear_cbcmac_update1 :: "u32 list \<Rightarrow> bytes \<Rightarrow> bytes \<Rightarrow> nat \<Rightarrow> bytes" where
  "aesbear_cbcmac_update1 rk p auth nrounds =
     store_block (fst (fold (cbcmac_step (enc_blocks nrounds rk)) (chunks p)
       (load_block auth, zero_block)))"

definition bswap32 :: "u32 \<Rightarrow> u32" where
  "bswap32 v = le32dec (be32enc v)"

text \<open>The counter block for the counter value \<open>c3\<close>; the other three words do not change.\<close>

definition ctr_block :: "w4 \<Rightarrow> u32 \<Rightarrow> w4" where
  "ctr_block c v = (case c of W4 c0 c1 c2 _ \<Rightarrow> W4 c0 c1 c2 (bswap32 v))"

definition ccm_enc_step ::
  "(w4 \<Rightarrow> w4 \<Rightarrow> w4 \<times> w4) \<Rightarrow> w4 \<Rightarrow> w4 \<times> u32 \<Rightarrow> bytes \<Rightarrow> (w4 \<times> u32) \<times> bytes" where
  "ccm_enc_step crypt c s b =
     (case s of (auth, c3) \<Rightarrow>
      case crypt (xor_block auth (load_block b)) (ctr_block c (c3 + 1)) of (qa, qc) \<Rightarrow>
        ((qa, c3 + 1), store_block (xor_block (load_block b) qc)))"

definition put_authctr :: "w4 \<Rightarrow> u32 \<Rightarrow> bytes \<Rightarrow> bytes" where
  "put_authctr auth c3 authctr = put_at 28 (be32enc c3) (put_at 0 (store_block auth) authctr)"

definition aesbear_ccm_enc1 :: "u32 list \<Rightarrow> bytes \<Rightarrow> bytes \<Rightarrow> nat \<Rightarrow> bytes \<times> bytes" where
  "aesbear_ccm_enc1 rk p authctr nrounds =
     (case map_state (ccm_enc_step (enc_blocks nrounds rk) (load_block (drop 16 authctr)))
         (load_block authctr, be32dec (drop 28 authctr)) (chunks p) of
       ((auth, c3), out) \<Rightarrow> (put_authctr auth c3 authctr, concat out))"

text \<open>
  The decryption loop encrypts the next counter block together with the plaintext block before
  it: \<open>ks\<close> is the key stream for the block at hand and \<open>auth\<close> the authenticator without the
  block before it being encrypted yet.
\<close>

fun ccm_dec_loop ::
  "(w4 \<Rightarrow> w4 \<Rightarrow> w4 \<times> w4) \<Rightarrow> w4 \<Rightarrow> u32 \<Rightarrow> w4 \<Rightarrow> w4 \<Rightarrow> bytes list \<Rightarrow> (u32 \<times> w4 \<times> w4) \<times> bytes list"
where
  "ccm_dec_loop crypt c c3 ks auth [] = ((c3, ks, auth), [])"
| "ccm_dec_loop crypt c c3 ks auth (b # bs) =
     (let pt = xor_block (load_block b) ks;
          auth = xor_block auth pt
      in if bs = [] then ((c3, ks, auth), [store_block pt])
         else
           let c3 = c3 + 1;
               (ks, auth) = crypt (ctr_block c c3) auth;
               (r, out) = ccm_dec_loop crypt c c3 ks auth bs
           in (r, store_block pt # out))"

definition aesbear_ccm_dec1 :: "u32 list \<Rightarrow> bytes \<Rightarrow> bytes \<Rightarrow> nat \<Rightarrow> bytes \<times> bytes" where
  "aesbear_ccm_dec1 rk p authctr nrounds =
     (let crypt = enc_blocks nrounds rk;
          c = load_block (drop 16 authctr);
          c3 = be32dec (drop 28 authctr) + 1;
          ks = fst (crypt (ctr_block c c3) zero_block);
          ((c3, ks, auth), out) = ccm_dec_loop crypt c c3 ks (load_block authctr) (chunks p);
          auth = snd (crypt ks auth)
      in (put_authctr auth c3 authctr, concat out))"

subsection \<open>Words and bytes of a block\<close>

lemma length_store_block [simp]: "length (store_block w) = 16"
  by (cases w) (simp add: store_block_def)

lemma load_store_block [simp]: "load_block (store_block w) = w"
proof -
  have "le32dec (le32enc v @ p) = v" for v p
  proof -
    have "le32dec (le32enc v @ p) = le32dec (le32enc v)"
      by (simp add: le32dec_def nth_append)
    then show ?thesis by simp
  qed
  then show ?thesis
    by (cases w) (simp add: load_block_def store_block_def block_bytes_def)
qed

lemma store_load_block [simp]:
  assumes "length p = 16"
  shows "store_block (load_block p) = p"
proof -
  have "take 4 p @ take 4 (drop 4 p) @ take 4 (drop 8 p) @ take 4 (drop 12 p) = p"
    using assms by (rule_tac nth_equalityI) (auto simp: nth_append)
  then show ?thesis
    using assms by (simp add: load_block_def store_block_def block_bytes_def le32enc_dec_take)
qed

lemma store_block_inject [simp]: "store_block v = store_block w \<longleftrightarrow> v = w"
  by (metis load_store_block)

lemma xor_block_simps [simp]:
  "xor_block v (xor_block v w) = w" "xor_block (xor_block w v) v = w"
  "xor_block v (xor_block w v) = w" "xor_block (xor_block v w) v = w"
  "xor_block zero_block w = w" "xor_block w zero_block = w"
  by (cases v; cases w; simp add: xor_block_def zero_block_def ac_simps)+

lemma xor_block_commute: "xor_block v w = xor_block w v"
  by (cases v; cases w) (simp add: xor_block_def xor.commute)

lemma store_xor_block: "store_block (xor_block v w) = xor_bytes (store_block v) (store_block w)"
proof -
  have "xor_bytes (a @ p) (b @ q) = xor_bytes a b @ xor_bytes p q" if "length a = length b"
    for a b p q :: bytes
    using that by (simp add: xor_bytes_def)
  then show ?thesis
    by (cases v; cases w)
      (simp add: store_block_def block_bytes_def xor_block_def le32enc_xor)
qed

lemma chunks_Nil [simp]: "chunks [] = []"
  by (simp add: chunks.simps)

lemma chunks_Cons: "length b = 16 \<Longrightarrow> chunks (b @ p) = b # chunks p"
  by (subst chunks.simps) simp

lemma chunks_concat:
  "(\<And>b. b \<in> set bs \<Longrightarrow> length b = 16) \<Longrightarrow> chunks (concat bs) = bs"
  by (induction bs) (simp_all add: chunks_Cons)

lemma length_chunk: "b \<in> set (chunks p) \<Longrightarrow> length b = 16"
proof (induction p rule: chunks.induct)
  case (1 p)
  then show ?case by (subst (asm) (2) chunks.simps) (auto split: if_splits)
qed

lemma concat_chunks: "16 dvd length p \<Longrightarrow> concat (chunks p) = p"
proof (induction p rule: chunks.induct)
  case (1 p)
  show ?case
  proof (cases "length p < 16")
    case True
    then have "p = []" using "1.prems" by (auto dest: dvd_imp_le)
    then show ?thesis by simp
  next
    case False
    moreover have "16 dvd length (drop 16 p)"
      using "1.prems" False by (simp add: dvd_diff_nat)
    ultimately show ?thesis
      using "1.IH" by (subst chunks.simps) simp
  qed
qed

lemma chunks_append:
  "16 dvd length p \<Longrightarrow> chunks (p @ q) = chunks p @ chunks q"
proof (induction p rule: chunks.induct)
  case (1 p)
  show ?case
  proof (cases "length p < 16")
    case True
    then have "p = []" using "1.prems" by (auto dest: dvd_imp_le)
    then show ?thesis by simp
  next
    case False
    then have "chunks (p @ q) = take 16 p # chunks (drop 16 p @ q)"
      by (subst chunks.simps) simp
    moreover have "16 dvd length (drop 16 p)"
      using "1.prems" False by (simp add: dvd_diff_nat)
    moreover have "chunks p = take 16 p # chunks (drop 16 p)"
      using False by (subst chunks.simps) simp
    ultimately show ?thesis using "1.IH" False by simp
  qed
qed

lemma chunks_eq_Nil: "16 dvd length p \<Longrightarrow> chunks p = [] \<longleftrightarrow> p = []"
  using concat_chunks [of p] by auto

subsection \<open>The textbook modes\<close>

text \<open>The modes of operation over a block cipher \<open>e\<close> with inverse \<open>d\<close>, one block at a time.\<close>

definition cbc_enc_ref :: "(w4 \<Rightarrow> w4) \<Rightarrow> w4 \<Rightarrow> bytes \<Rightarrow> w4 \<times> bytes" where
  "cbc_enc_ref e cv b = (let q = e (xor_block cv (load_block b)) in (q, store_block q))"

definition cbc_dec_ref :: "(w4 \<Rightarrow> w4) \<Rightarrow> w4 \<Rightarrow> bytes \<Rightarrow> w4 \<times> bytes" where
  "cbc_dec_ref d cv b = (load_block b, store_block (xor_block (d (load_block b)) cv))"

definition xts_ref :: "(w4 \<Rightarrow> w4) \<Rightarrow> w4 \<Rightarrow> bytes \<Rightarrow> w4 \<times> bytes" where
  "xts_ref e t b =
     (aesbear_xts_update t, store_block (xor_block (e (xor_block (load_block b) t)) t))"

definition cbcmac_ref :: "(w4 \<Rightarrow> w4) \<Rightarrow> bytes \<Rightarrow> w4 \<Rightarrow> w4" where
  "cbcmac_ref e b q = e (xor_block q (load_block b))"

definition ccm_enc_ref :: "(w4 \<Rightarrow> w4) \<Rightarrow> w4 \<Rightarrow> w4 \<times> u32 \<Rightarrow> bytes \<Rightarrow> (w4 \<times> u32) \<times> bytes" where
  "ccm_enc_ref e c s b =
     (case s of (auth, c3) \<Rightarrow>
        ((cbcmac_ref e b auth, c3 + 1),
         store_block (xor_block (load_block b) (e (ctr_block c (c3 + 1))))))"

definition ccm_dec_ref :: "(w4 \<Rightarrow> w4) \<Rightarrow> w4 \<Rightarrow> w4 \<times> u32 \<Rightarrow> bytes \<Rightarrow> (w4 \<times> u32) \<times> bytes" where
  "ccm_dec_ref e c s b =
     (case s of (auth, c3) \<Rightarrow>
        let pt = store_block (xor_block (load_block b) (e (ctr_block c (c3 + 1))))
        in ((cbcmac_ref e pt auth, c3 + 1), pt))"

text \<open>Decryption undoes encryption, block by block.\<close>

lemma map_state_inverse_on:
  assumes "\<And>s x s' y. P x \<Longrightarrow> f s x = (s', y) \<Longrightarrow> g s y = (s', x)"
  shows "\<forall>x \<in> set xs. P x \<Longrightarrow> map_state f s xs = (s', ys) \<Longrightarrow> map_state g s ys = (s', xs)"
  by (induction xs arbitrary: s ys) (auto split: prod.splits dest: assms)

lemma cbc_dec_enc_ref:
  assumes "\<And>x. d (e x) = x" "\<forall>b \<in> set bs. length b = 16"
    "map_state (cbc_enc_ref e) cv bs = (cv', cs)"
  shows "map_state (cbc_dec_ref d) cv cs = (cv', bs)"
  by (rule map_state_inverse_on [OF _ assms(2,3)])
    (auto simp: cbc_enc_ref_def cbc_dec_ref_def Let_def assms(1))

lemma xts_dec_enc_ref:
  assumes "\<And>x. d (e x) = x" "\<forall>b \<in> set bs. length b = 16"
    "map_state (xts_ref e) t bs = (t', cs)"
  shows "map_state (xts_ref d) t cs = (t', bs)"
  by (rule map_state_inverse_on [OF _ assms(2,3)])
    (auto simp: xts_ref_def assms(1))

lemma ccm_dec_enc_ref:
  assumes "\<forall>b \<in> set bs. length b = 16" "map_state (ccm_enc_ref e c) s bs = (s', cs)"
  shows "map_state (ccm_dec_ref e c) s cs = (s', bs)"
  by (rule map_state_inverse_on [OF _ assms(1,2)])
    (auto simp: ccm_enc_ref_def ccm_dec_ref_def split: prod.splits)

subsection \<open>Ciphers that run two independent blocks\<close>

locale two_block_cipher =
  fixes crypt2 :: "w4 \<Rightarrow> w4 \<Rightarrow> w4 \<times> w4" and crypt :: "w4 \<Rightarrow> w4"
  assumes crypt2: "crypt2 a b = (crypt a, crypt b)"
begin

lemma crypt2_eq: "crypt2 = (\<lambda>a b. (crypt a, crypt b))"
  by (intro ext) (rule crypt2)

lemma cbc_enc_loop:
  "fst (fst (map_state (cbc_enc_step crypt2) (cv, g) bs)) = fst (map_state (cbc_enc_ref crypt) cv bs)"
  "snd (map_state (cbc_enc_step crypt2) (cv, g) bs) = snd (map_state (cbc_enc_ref crypt) cv bs)"
  by (induction bs arbitrary: cv g)
    (simp_all add: cbc_enc_step_def cbc_enc_ref_def crypt2 Let_def case_prod_beta)

text \<open>The blocks \<open>rev (c # cs)\<close> from the last to the first, against the forward reference.\<close>

lemma cbc_dec_chain:
  "fst (map_state (cbc_dec_ref crypt) iv bs) = (if bs = [] then iv else load_block (last bs))"
  by (induction bs rule: rev_induct) (simp_all add: map_state_append cbc_dec_ref_def split: prod.split)

lemma cbc_dec_loop:
  "even (length bs) \<Longrightarrow> bs \<noteq> [] \<Longrightarrow> cv = load_block (hd bs) \<Longrightarrow>
   cbc_dec_loop crypt2 iv cv bs = snd (map_state (cbc_dec_ref crypt) iv (rev bs))"
  unfolding crypt2_eq
proof (induction bs arbitrary: cv rule: induct_list012)
  case (3 u l rest)
  show ?case
  proof (cases "rest = []")
    case True
    then show ?thesis using 3 by (simp add: cbc_dec_ref_def Let_def)
  next
    case False
    obtain cv' out where r: "map_state (cbc_dec_ref crypt) iv (rev rest) = (cv', out)" by force
    have "cv' = load_block (hd rest)"
      using cbc_dec_chain [of iv "rev rest"] r False by (simp add: last_rev)
    moreover have "cbc_dec_loop (\<lambda>a b. (crypt a, crypt b)) iv (load_block (hd rest)) rest = out"
      using "3.IH"(1) "3.prems" False r by simp
    ultimately show ?thesis
      using "3.prems" False by (simp add: map_state_append r Let_def) (simp add: cbc_dec_ref_def)
  qed
qed simp_all

lemma xts_pairs:
  "even (length bs) \<Longrightarrow> xts_pairs crypt2 t bs = map_state (xts_ref crypt) t bs"
  by (induction bs arbitrary: t rule: induct_list012)
    (simp_all add: xts_ref_def crypt2 Let_def split: prod.split)

lemma xts_blocks: "xts_blocks crypt2 t bs = map_state (xts_ref crypt) t bs"
  by (cases bs) (simp_all add: xts_blocks_def xts_pairs crypt2 xts_ref_def Let_def split: prod.split)

lemma cbcmac_loop: "fst (fold (cbcmac_step crypt2) bs (q, g)) = fold (cbcmac_ref crypt) bs q"
  by (induction bs arbitrary: q g) (simp_all add: cbcmac_step_def cbcmac_ref_def crypt2)

lemma ccm_enc_step: "ccm_enc_step crypt2 c = ccm_enc_ref crypt c"
  by (intro ext) (simp add: ccm_enc_step_def ccm_enc_ref_def cbcmac_ref_def crypt2 split: prod.split)

lemma ccm_dec_loop:
  "bs \<noteq> [] \<Longrightarrow> ks = crypt (ctr_block c c3) \<Longrightarrow>
   ccm_dec_loop crypt2 c c3 ks auth bs = ((c3', ks', auth'), out) \<Longrightarrow>
   map_state (ccm_dec_ref crypt c) (auth, c3 - 1) bs = ((crypt auth', c3'), out)"
  unfolding crypt2_eq
proof (induction bs arbitrary: c3 ks auth out)
  case (Cons b bs)
  show ?case
  proof (cases "bs = []")
    case True
    then show ?thesis using Cons.prems by (auto simp: ccm_dec_ref_def cbcmac_ref_def Let_def)
  next
    case False
    let ?pt = "xor_block (load_block b) ks"
    obtain out' where out: "out = store_block ?pt # out'"
      and r: "ccm_dec_loop (\<lambda>a b. (crypt a, crypt b)) c (c3 + 1) (crypt (ctr_block c (c3 + 1)))
        (crypt (xor_block auth ?pt)) bs = ((c3', ks', auth'), out')"
      using Cons.prems False by (auto simp: Let_def split: prod.splits)
    from Cons.IH [OF False refl r] show ?thesis
      using Cons.prems False out by (simp add: ccm_dec_ref_def cbcmac_ref_def Let_def)
  qed
qed simp

end

text \<open>
  A two-block cipher with an inverse: the inverse is a two-block cipher too, so neither half of
  a decryption depends on the other.
\<close>

locale two_block_inverse = two_block_cipher +
  fixes decrypt2 :: "w4 \<Rightarrow> w4 \<Rightarrow> w4 \<times> w4" and decrypt :: "w4 \<Rightarrow> w4"
  assumes decrypt_crypt2: "case_prod decrypt2 (crypt2 a b) = (a, b)"
    and crypt_decrypt2: "case_prod crypt2 (decrypt2 a b) = (a, b)"
    and decrypt_fst: "decrypt a = fst (decrypt2 a zero_block)"
begin

lemma crypt_inject: "crypt a = crypt b \<Longrightarrow> a = b"
  using decrypt_crypt2 [of a zero_block] decrypt_crypt2 [of b zero_block]
  by (simp add: crypt2)

lemma crypt_fst_decrypt2: "crypt (fst (decrypt2 a b)) = a" "crypt (snd (decrypt2 a b)) = b"
  using crypt_decrypt2 [of a b] by (simp_all add: crypt2 case_prod_beta)

lemma crypt_decrypt: "crypt (decrypt a) = a"
  by (simp add: decrypt_fst crypt_fst_decrypt2)

lemma decrypt_crypt: "decrypt (crypt a) = a"
  by (rule crypt_inject) (rule crypt_decrypt)

lemma decrypt2: "decrypt2 a b = (decrypt a, decrypt b)"
  by (rule prod_eqI; rule crypt_inject; simp add: crypt_fst_decrypt2 crypt_decrypt)

sublocale inv: two_block_cipher decrypt2 decrypt
  by unfold_locales (rule decrypt2)

end

subsection \<open>The bitsliced cipher runs two independent blocks\<close>

lemma lane_of_lanes_equal:
  assumes "\<And>i. i < 8 \<Longrightarrow> lanes_equal (bs_list q ! i)"
  shows "lane 0 q = lane 1 q"
proof (rule nth_equalityI)
  fix n :: nat
  assume "n < length (lane 0 q)"
  then have n: "n < 16" by simp
  let ?p = "8 * (n mod 4) + 2 * (n div 4)"
  have "?p < 32" using lane_position(1) [OF n, of 0] by simp
  then have "bit (bs_list q ! i) ?p = bit (bs_list q ! i) (?p + 1)" if "i < 8" for i
    using assms [OF that] by (simp add: lanes_equal_def)
  then have "slice_byte q ?p = slice_byte q (?p + 1)"
    by (intro byte_eqI) (simp add: bit_slice_byte)
  then show "lane 0 q ! n = lane 1 q ! n" using n by simp
qed simp

lemma lanes_equal_expand:
  "lanes_equal ((c AND 0x55555555) OR push_bit 1 (c AND 0x55555555))"
  "lanes_equal ((c AND 0xAAAAAAAA) OR drop_bit 1 (c AND 0xAAAAAAAA))"
  unfolding lanes_equal_def bit_or_iff bit_and_iff bit_push_bit_iff bit_drop_bit_eq o_def
    bit_lane_masks
  by (auto dest: bit_u32 elim: oddE)

lemma lane_skey_expand:
  assumes "u \<le> nr"
  shows "lane 0 (bs_at (br_aes_ct_skey_expand nr rk) (8 * u)) =
    lane 1 (bs_at (br_aes_ct_skey_expand nr rk) (8 * u))"
proof (rule lane_of_lanes_equal)
  fix m :: nat
  assume m: "m < 8"
  let ?s = "br_aes_ct_skey_expand nr rk"
  have "bs_list (bs_at ?s (8 * u)) ! m = ?s ! (8 * u + m)"
    using lt_8_cases [OF m] by (elim insertE emptyE; simp add: bs_at_def)
  moreover obtain k where k: "k < 4" "m = 2 * k \<or> m = 2 * k + 1"
  proof
    show "m div 2 < 4" "m = 2 * (m div 2) \<or> m = 2 * (m div 2) + 1" using m by auto
  qed
  moreover have "4 * u + k < 4 * (nr + 1)" using assms k(1) by simp
  note i = nth_skey_expand [OF this, of rk]
  have "lanes_equal (?s ! (8 * u + m))"
  proof (cases "m = 2 * k")
    case True
    then have e: "8 * u + m = 2 * (4 * u + k)" by simp
    show ?thesis unfolding e i by (rule lanes_equal_expand)
  next
    case False
    then have e: "8 * u + m = Suc (2 * (4 * u + k))" using k(2) by simp
    show ?thesis unfolding e i by (rule lanes_equal_expand)
  qed
  ultimately show "lanes_equal (bs_list (bs_at ?s (8 * u)) ! m)" by simp
qed

lemma store_two_blocks:
  "store_block (fst (two_blocks f (W4 a0 a1 a2 a3) (W4 b0 b1 b2 b3))) =
     lane 0 (f (br_aes_ct_ortho (BS a0 b0 a1 b1 a2 b2 a3 b3)))"
  "store_block (snd (two_blocks f (W4 a0 a1 a2 a3) (W4 b0 b1 b2 b3))) =
     lane 1 (f (br_aes_ct_ortho (BS a0 b0 a1 b1 a2 b2 a3 b3)))"
proof -
  let ?p = "f (br_aes_ct_ortho (BS a0 b0 a1 b1 a2 b2 a3 b3))"
  obtain q0 q1 q2 q3 q4 q5 q6 q7 where p: "br_aes_ct_ortho ?p = BS q0 q1 q2 q3 q4 q5 q6 q7"
    by (cases "br_aes_ct_ortho ?p")
  then have p': "?p = br_aes_ct_ortho (BS q0 q1 q2 q3 q4 q5 q6 q7)"
    by (metis br_aes_ct_ortho_involution)
  show "store_block (fst (two_blocks f (W4 a0 a1 a2 a3) (W4 b0 b1 b2 b3))) = lane 0 ?p"
    "store_block (snd (two_blocks f (W4 a0 a1 a2 a3) (W4 b0 b1 b2 b3))) = lane 1 ?p"
    unfolding p' lane_ortho by (simp_all add: two_blocks_def p store_block_def)
qed

lemma two_blocks_inverse:
  assumes "\<And>q. g (f q) = q"
  shows "case_prod (two_blocks g) (two_blocks f v w) = (v, w)"
proof (cases v; cases w)
  fix a0 a1 a2 a3 b0 b1 b2 b3
  assume vw: "v = W4 a0 a1 a2 a3" "w = W4 b0 b1 b2 b3"
  let ?p = "f (br_aes_ct_ortho (BS a0 b0 a1 b1 a2 b2 a3 b3))"
  obtain q0 q1 q2 q3 q4 q5 q6 q7 where p: "br_aes_ct_ortho ?p = BS q0 q1 q2 q3 q4 q5 q6 q7"
    by (cases "br_aes_ct_ortho ?p")
  then have "br_aes_ct_ortho (BS q0 q1 q2 q3 q4 q5 q6 q7) = ?p"
    by (metis br_aes_ct_ortho_involution)
  then show ?thesis
    by (simp add: vw two_blocks_def p assms br_aes_ct_ortho_involution)
qed

definition aes_block :: "nat \<Rightarrow> u32 list \<Rightarrow> w4 \<Rightarrow> w4" where
  "aes_block nr rk v = fst (enc_blocks nr rk v zero_block)"

definition aes_unblock :: "nat \<Rightarrow> u32 list \<Rightarrow> w4 \<Rightarrow> w4" where
  "aes_unblock nr rk v = fst (dec_blocks nr rk v zero_block)"

text \<open>The round keys in the first lane; the second lane holds the same.\<close>

definition lane_key :: "nat \<Rightarrow> u32 list \<Rightarrow> nat \<Rightarrow> block" where
  "lane_key nr rk u = lane 0 (bs_at (br_aes_ct_skey_expand nr rk) (8 * u))"

lemma store_enc_blocks:
  "store_block (fst (enc_blocks nr rk v w)) = aes_cipher nr (lane_key nr rk) (store_block v)"
  "store_block (snd (enc_blocks nr rk v w)) = aes_cipher nr (lane_key nr rk) (store_block w)"
proof -
  obtain a0 a1 a2 a3 b0 b1 b2 b3 where vw: "v = W4 a0 a1 a2 a3" "w = W4 b0 b1 b2 b3"
    by (cases v; cases w)
  show "store_block (fst (enc_blocks nr rk v w)) = aes_cipher nr (lane_key nr rk) (store_block v)"
    unfolding vw enc_blocks_def store_two_blocks
    by (simp add: lane_encrypt lane_ortho store_block_def flip: lane_key_def)
  have "aes_cipher nr (\<lambda>u. lane 1 (bs_at (br_aes_ct_skey_expand nr rk) (8 * u))) s =
      aes_cipher nr (lane_key nr rk) s" for s
    by (rule aes_cipher_cong) (metis lane_key_def lane_skey_expand)
  then show "store_block (snd (enc_blocks nr rk v w)) =
      aes_cipher nr (lane_key nr rk) (store_block w)"
    unfolding vw enc_blocks_def store_two_blocks
    by (simp add: lane_encrypt lane_ortho [unfolded One_nat_def] store_block_def)
qed

interpretation aes: two_block_inverse "enc_blocks nr rk" "aes_block nr rk"
    "dec_blocks nr rk" "aes_unblock nr rk"
proof
  fix a b
  have "store_block (fst (enc_blocks nr rk a b)) = store_block (aes_block nr rk a)"
    "store_block (snd (enc_blocks nr rk a b)) = store_block (aes_block nr rk b)"
    by (simp_all only: aes_block_def store_enc_blocks)
  then show "enc_blocks nr rk a b = (aes_block nr rk a, aes_block nr rk b)"
    by (simp add: prod_eq_iff)
  show "case_prod (dec_blocks nr rk) (enc_blocks nr rk a b) = (a, b)"
    "case_prod (enc_blocks nr rk) (dec_blocks nr rk a b) = (a, b)"
    unfolding enc_blocks_def dec_blocks_def
    by (rule two_blocks_inverse, simp add: bitslice_decrypt_encrypt bitslice_encrypt_decrypt)+
  show "aes_unblock nr rk a = fst (dec_blocks nr rk a zero_block)"
    by (simp add: aes_unblock_def)
qed

subsection \<open>Correctness of the interface\<close>

lemma aes_dec_enc: "aes_unblock nr rk (aes_block nr rk w) = w"
  by (rule aes.decrypt_crypt)

lemma aesbear_enc_block: "length p = 16 \<Longrightarrow> load_block (aesbear_enc rk p nr) = aes_block nr rk (load_block p)"
  by (simp add: aesbear_enc_def aes_block_def)

lemma store_aes_block: "store_block (aes_block nr rk w) = aes_cipher nr (lane_key nr rk) (store_block w)"
  by (simp add: aes_block_def store_enc_blocks)

lemma aesbear_enc_cipher:
  "length p = 16 \<Longrightarrow> aesbear_enc rk p nr = aes_cipher nr (lane_key nr rk) p"
  by (simp add: aesbear_enc_def store_enc_blocks)

lemma length_aesbear_enc [simp]: "length (aesbear_enc rk p nr) = 16"
  by (simp add: aesbear_enc_def)

lemma keysched_enc_fips:
  assumes "valid_key key" "length rk = 60" "length p = 16"
  shows "aesbear_enc (snd (br_aes_ct_keysched rk key (length key))) p (key_rounds (length key)) =
    aes_encrypt key p"
proof -
  have "lane_key (key_rounds (length key)) (snd (br_aes_ct_keysched rk key (length key))) u = round_key key u"
    if "u \<le> key_rounds (length key)" for u
    using lane_keysched [OF assms(1) _ that, of rk 0] assms(2) by (simp add: lane_key_def)
  then show ?thesis
    using assms(3) by (simp add: aesbear_enc_cipher aes_encrypt_def cong: aes_cipher_cong)
qed

lemma aesbear_setkey_Some:
  assumes "valid_key key" "aesbear_setkey rk key (key_rounds (length key)) = Some rk'"
  shows "rk' = snd (br_aes_ct_keysched rk key (length key))"
  using assms by (auto simp: valid_key_def key_rounds_def aesbear_setkey_def)

text \<open>
  C2.  Key setup followed by encryption of a block is the cipher of FIPS 197: for every key of
  16, 24 or 32 bytes, whatever the round key array held before, the bitsliced code computes the
  standard's cipher under the standard's key expansion.
\<close>

theorem aesbear_enc_fips:
  assumes "valid_key key" "length rk = 60" "length p = 16"
    and "aesbear_setkey rk key (key_rounds (length key)) = Some rk'"
  shows "aesbear_enc rk' p (key_rounds (length key)) = aes_encrypt key p"
  using keysched_enc_fips [OF assms(1-3)] by (simp add: aesbear_setkey_Some [OF assms(1,4)])



lemma dvd_length_concat: "(\<forall>b \<in> set bs. length b = n) \<Longrightarrow> n dvd length (concat bs)"
  by (induction bs) simp_all

lemma length_map_state_store:
  assumes "\<And>s b. length (snd (f s b)) = 16"
  shows "\<forall>c \<in> set (snd (map_state f s bs)). length c = 16"
proof (induction bs arbitrary: s)
  case (Cons b bs)
  then show ?case using assms [of s b] by (auto simp: case_prod_beta)
qed simp

lemma aesbear_cbc_enc_ref:
  assumes "p \<noteq> []"
  shows "aesbear_cbc_enc rk p iv nr =
    (case map_state (cbc_enc_ref (aes_block nr rk)) (load_block iv) (chunks p) of
       (cv, out) \<Rightarrow> (store_block cv, concat out))"
  using assms aes.cbc_enc_loop [of nr rk "load_block iv" zero_block "chunks p"]
  by (simp add: aesbear_cbc_enc_def case_prod_beta)

lemma aesbear_cbc_dec_ref:
  assumes "p \<noteq> []" "16 dvd length p"
  shows "aesbear_cbc_dec rk p iv nr =
    (case map_state (cbc_dec_ref (aes_unblock nr rk)) (load_block iv) (chunks p) of
       (cv, out) \<Rightarrow> (store_block cv, concat out))"
proof -
  have ne: "chunks p \<noteq> []" using assms by (simp add: chunks_eq_Nil)
  define bs where "bs = rev (chunks p)"
  have c: "chunks p = rev bs" and "bs \<noteq> []" using ne by (simp_all add: bs_def)
  obtain b bs' where b: "bs = b # bs'" using \<open>bs \<noteq> []\<close> by (cases bs) auto
  have "load_block (hd bs) = fst (map_state (cbc_dec_ref (aes_unblock nr rk)) (load_block iv) (rev bs))"
    using aes.inv.cbc_dec_chain [of nr rk "load_block iv" "rev bs"] \<open>bs \<noteq> []\<close>
    by (simp add: last_rev)
  moreover have "(if odd (length bs)
      then let q = fst (dec_blocks nr rk (load_block (hd bs)) zero_block)
           in if tl bs = [] then [store_block (xor_block q (load_block iv))]
              else let cv = load_block (hd (tl bs))
                   in cbc_dec_loop (dec_blocks nr rk) (load_block iv) cv (tl bs)
                        @ [store_block (xor_block cv q)]
      else cbc_dec_loop (dec_blocks nr rk) (load_block iv) (load_block (hd bs)) bs) =
    snd (map_state (cbc_dec_ref (aes_unblock nr rk)) (load_block iv) (rev bs))"
  proof (cases "odd (length bs)")
    case False
    then show ?thesis
      using aes.inv.cbc_dec_loop [of bs "load_block (hd bs)" nr rk "load_block iv"] \<open>bs \<noteq> []\<close> by simp
  next
    case True
    show ?thesis
    proof (cases "bs' = []")
      case True
      then show ?thesis
        by (simp add: b cbc_dec_ref_def aes_unblock_def Let_def)
    next
      case False
      obtain cv out where r:
        "map_state (cbc_dec_ref (aes_unblock nr rk)) (load_block iv) (rev bs') = (cv, out)" by force
      have "cv = load_block (hd bs')"
        using aes.inv.cbc_dec_chain [of nr rk "load_block iv" "rev bs'"] r False
        by (simp add: last_rev)
      moreover have "cbc_dec_loop (dec_blocks nr rk) (load_block iv) (load_block (hd bs')) bs' = out"
        using aes.inv.cbc_dec_loop [of bs' "load_block (hd bs')" nr rk "load_block iv"] True False r
        by (simp add: b)
      ultimately show ?thesis
        using True False
        by (simp add: b map_state_append r Let_def)
          (simp add: cbc_dec_ref_def aes_unblock_def xor_block_commute)
    qed
  qed
  ultimately show ?thesis
    using assms(1) by (simp add: aesbear_cbc_dec_def Let_def case_prod_beta c)
qed

text \<open>
  C25.  CBC decryption, which walks the buffer from its end and decrypts two blocks at a time,
  returns the plaintext and the same next initialisation vector as CBC encryption, for every
  number of blocks, odd or even.
\<close>

theorem aesbear_cbc_roundtrip:
  assumes "16 dvd length p" "aesbear_cbc_enc rk p iv nr = (iv', c)"
  shows "aesbear_cbc_dec rk c iv nr = (iv', p)"
proof (cases "p = []")
  case False
  obtain cv out where e: "map_state (cbc_enc_ref (aes_block nr rk)) (load_block iv) (chunks p) = (cv, out)"
    by force
  then have iv': "iv' = store_block cv" and c: "c = concat out"
    using assms(2) False by (simp_all add: aesbear_cbc_enc_ref)
  have len: "\<forall>b \<in> set out. length b = 16"
    using length_map_state_store [of "cbc_enc_ref (aes_block nr rk)" "load_block iv" "chunks p"] e
    by (simp add: cbc_enc_ref_def Let_def)
  then have ch: "chunks c = out" by (simp add: c chunks_concat)
  have d: "map_state (cbc_dec_ref (aes_unblock nr rk)) (load_block iv) out = (cv, chunks p)"
    by (rule cbc_dec_enc_ref [OF _ _ e]) (auto simp: aes.decrypt_crypt length_chunk)
  have "length out = length (chunks p)" using e by (rule length_map_stateD)
  then have "out \<noteq> []" using assms(1) False by (auto simp: chunks_eq_Nil)
  then have "c \<noteq> []" using len by (cases out) (auto simp: c)
  moreover have "16 dvd length c"
    unfolding c by (rule dvd_length_concat [OF len])
  ultimately show ?thesis
    using d iv' assms(1) by (simp add: aesbear_cbc_dec_ref ch concat_chunks)
qed (use assms in \<open>simp add: aesbear_cbc_enc_def aesbear_cbc_dec_def\<close>)

text \<open>
  C26.  XTS decryption inverts XTS encryption and leaves the same tweak, for every number of
  blocks; both equal the textbook mode that treats one block at a time.
\<close>

theorem aesbear_xts_roundtrip:
  assumes "16 dvd length p" "aesbear_xts_enc rk p tweak nr = (tweak', c)"
  shows "aesbear_xts_dec rk c tweak nr = (tweak', p)"
proof (cases "p = []")
  case False
  obtain t out where e: "map_state (xts_ref (aes_block nr rk)) (load_block tweak) (chunks p) = (t, out)"
    by force
  then have t: "tweak' = store_block t" and c: "c = concat out"
    using assms(2) False by (simp_all add: aesbear_xts_enc_def aes.xts_blocks)
  have len: "\<forall>b \<in> set out. length b = 16"
    using length_map_state_store [of "xts_ref (aes_block nr rk)" "load_block tweak" "chunks p"] e
    by (simp add: xts_ref_def)
  then have ch: "chunks c = out" by (simp add: c chunks_concat)
  have d: "map_state (xts_ref (aes_unblock nr rk)) (load_block tweak) out = (t, chunks p)"
    by (rule xts_dec_enc_ref [OF _ _ e]) (auto simp: aes.decrypt_crypt length_chunk)
  have "length out = length (chunks p)" using e by (rule length_map_stateD)
  then have "out \<noteq> []" using assms(1) False by (auto simp: chunks_eq_Nil)
  then have "c \<noteq> []" using len by (cases out) (auto simp: c)
  then show ?thesis
    using d t assms(1) by (simp add: aesbear_xts_dec_def aes.inv.xts_blocks ch concat_chunks)
qed (use assms in \<open>simp add: aesbear_xts_enc_def aesbear_xts_dec_def\<close>)

theorem aesbear_xts_roundtrip_witness:
  "aesbear_xts_dec (replicate 60 7)
     (snd (aesbear_xts_enc (replicate 60 7) (replicate 48 1) (replicate 16 2) 10)) (replicate 16 2) 10 =
   (fst (aesbear_xts_enc (replicate 60 7) (replicate 48 1) (replicate 16 2) 10), replicate 48 1)"
  by (rule aesbear_xts_roundtrip) simp_all

theorem aesbear_cbc_roundtrip_witness:
  "aesbear_cbc_dec (replicate 60 7)
     (snd (aesbear_cbc_enc (replicate 60 7) (replicate 48 1) (replicate 16 2) 10)) (replicate 16 2) 10 =
   (fst (aesbear_cbc_enc (replicate 60 7) (replicate 48 1) (replicate 16 2) 10), replicate 48 1)"
  by (rule aesbear_cbc_roundtrip) simp_all

theorem aesbear_enc_fips_witness:
  "\<exists>rk. aesbear_setkey (replicate 60 0) (replicate 16 5) 10 = Some rk \<and>
     aesbear_enc rk (replicate 16 1) 10 = aes_encrypt (replicate 16 5) (replicate 16 1)"
proof -
  have k: "valid_key (replicate 16 5)" "key_rounds (length (replicate 16 5)) = 10"
    by (simp_all add: valid_key_def key_rounds_def)
  have s: "aesbear_setkey (replicate 60 0) (replicate 16 5) 10 =
      Some (snd (br_aes_ct_keysched (replicate 60 0) (replicate 16 5) 16))"
    by (simp add: aesbear_setkey_def)
  from aesbear_enc_fips [OF k(1), of "replicate 60 0" "replicate 16 1"] s k(2) show ?thesis by simp
qed

subsection \<open>CBC-MAC and CCM against the reference\<close>

lemma aesbear_cbcmac_ref:
  "aesbear_cbcmac_update1 rk p auth nr =
     store_block (fold (cbcmac_ref (aes_block nr rk)) (chunks p) (load_block auth))"
  by (simp add: aesbear_cbcmac_update1_def aes.cbcmac_loop)

lemma aesbear_ccm_enc1_ref:
  "aesbear_ccm_enc1 rk p authctr nr =
     (case map_state (ccm_enc_ref (aes_block nr rk) (load_block (drop 16 authctr)))
        (load_block authctr, be32dec (drop 28 authctr)) (chunks p) of
      ((auth, c3), out) \<Rightarrow> (put_authctr auth c3 authctr, concat out))"
  by (simp add: aesbear_ccm_enc1_def aes.ccm_enc_step)

lemma aesbear_ccm_dec1_ref:
  assumes "p \<noteq> []" "16 dvd length p"
  shows "aesbear_ccm_dec1 rk p authctr nr =
     (case map_state (ccm_dec_ref (aes_block nr rk) (load_block (drop 16 authctr)))
        (load_block authctr, be32dec (drop 28 authctr)) (chunks p) of
      ((auth, c3), out) \<Rightarrow> (put_authctr auth c3 authctr, concat out))"
proof -
  let ?c = "load_block (drop 16 authctr)" let ?c3 = "be32dec (drop 28 authctr) + 1"
  let ?ks = "aes_block nr rk (ctr_block ?c ?c3)"
  obtain c3 ks auth out where r:
    "ccm_dec_loop (enc_blocks nr rk) ?c ?c3 ?ks (load_block authctr) (chunks p) = ((c3, ks, auth), out)"
    by (metis prod_cases3 surj_pair)
  have "chunks p \<noteq> []" using assms by (simp add: chunks_eq_Nil)
  from aes.ccm_dec_loop [OF this refl r] r show ?thesis
    by (simp add: aesbear_ccm_dec1_def Let_def aes.crypt2 flip: aes_block_def)
qed

end
