(* ===== verification/Aes_Ccm.thy ===== *)
theory Aes_Ccm
  imports Aes_Bear Mbuf
begin

text \<open>
  Counter with CBC-MAC, \<open>src/crypto/aes/aes_ccm.c\<close> and \<open>aes_ccm_mbuf.c\<close>: the state machine that
  authenticates and encrypts a message fed to it in pieces of any length, and its use on
  buffer chains.  The pieces are first shown to act byte by byte, so that neither the split of
  the message into pieces nor the bulk path for whole blocks is visible; then the result is
  compared with the definition of CCM in RFC 3610.  \<open>None\<close> is the panic on a counter overflow.
\<close>

subsection \<open>The state\<close>

record aes_ccm =
  cc_rk :: "u32 list"
  cc_authctr :: bytes
  cc_out :: bytes
  cc_mlen :: nat
  cc_mleft :: nat
  cc_i :: nat
  cc_nr :: nat
  cc_L :: nat
  cc_M :: nat

text \<open>\<open>xor(buf + i, buf + i, p, length p)\<close>, and the encryption of the authenticator in place.\<close>

definition xor_at :: "nat \<Rightarrow> bytes \<Rightarrow> bytes \<Rightarrow> bytes" where
  "xor_at i p buf = put_at i (xor_bytes (take (length p) (drop i buf)) p) buf"

definition enc_auth :: "u32 list \<Rightarrow> nat \<Rightarrow> bytes \<Rightarrow> bytes" where
  "enc_auth rk nr authctr = put_at 0 (aesbear_enc rk (take 16 authctr) nr) authctr"

definition aes_ccm_inc :: "bytes \<Rightarrow> bytes option" where
  "aes_ccm_inc authctr =
     (let a = authctr[31 := authctr ! 31 + 1]
      in if a ! 31 = 0
         then (let b = a[30 := a ! 30 + 1] in if b ! 30 = 0 then None else Some b)
         else Some a)"

definition aes_ccm_zero_ctr :: "bytes \<Rightarrow> bytes" where
  "aes_ccm_zero_ctr authctr = authctr[31 := 0, 30 := 0]"

subsection \<open>Initialisation\<close>

text \<open>The length field at the start of the additional data, as it is combined with the authenticator.\<close>

definition ad_length :: "nat \<Rightarrow> bytes" where
  "ad_length adlen =
     (let b = (\<lambda>k. word_of_nat (adlen div 2 ^ k) :: u8)
      in if adlen < 0xff00 then [b 8, b 0]
         else if adlen < 0xffffffff then [0xff, 0xfe, b 24, b 16, b 8, b 0]
         else [0xff, 0xff, b 56, b 48, b 40, b 32, b 24, b 16, b 8, b 0])"

definition ccm_b0 :: "nat \<Rightarrow> nat \<Rightarrow> bytes \<Rightarrow> nat \<Rightarrow> nat \<Rightarrow> bytes" where
  "ccm_b0 L M nonce adlen mlen =
     (let flags = word_of_nat ((if adlen = 0 then 0 else 1) * 0x40) OR
            word_of_nat ((M - 2) div 2 * 8) OR word_of_nat (L - 1)
      in flags # nonce @ map (\<lambda>i. word_of_nat (mlen div 2 ^ (8 * i))) (rev [0..<L]))"

definition ccm_ad :: "u32 list \<Rightarrow> nat \<Rightarrow> bytes \<Rightarrow> bytes \<Rightarrow> bytes" where
  "ccm_ad rk nr ad auth =
     (let l = ad_length (length ad);
          i = length l;
          auth = xor_at 0 l auth;
          n = min (length ad) (16 - i);
          auth = enc_auth rk nr (xor_at i (take n ad) auth);
          ad = drop n ad;
          k = length ad - length ad mod 16;
          auth = (if k \<noteq> 0 then aesbear_cbcmac_update1 rk (take k ad) auth nr else auth);
          ad = (if k \<noteq> 0 then drop k ad else ad)
      in if ad \<noteq> [] then enc_auth rk nr (xor_at 0 ad auth) else auth)"

definition aes_ccm_init ::
  "nat \<Rightarrow> u32 list \<Rightarrow> nat \<Rightarrow> nat \<Rightarrow> bytes \<Rightarrow> bytes \<Rightarrow> nat \<Rightarrow> bytes \<Rightarrow> aes_ccm" where
  "aes_ccm_init nr rk L M nonce ad mlen stale_out =
     (let auth = aesbear_enc rk (ccm_b0 L M nonce (length ad) mlen) nr;
          auth = (if ad \<noteq> [] then ccm_ad rk nr ad auth else auth);
          ctr = word_of_nat (L - 1) # nonce @ replicate (15 - length nonce) 0
      in \<lparr>cc_rk = rk, cc_authctr = auth @ ctr, cc_out = stale_out, cc_mlen = mlen, cc_mleft = mlen,
          cc_i = 0, cc_nr = nr, cc_L = L, cc_M = M\<rparr>)"

subsection \<open>Encryption and decryption of a piece of the message\<close>

text \<open>The remaining steps of \<open>aes_ccm_enc\<close>, from a block boundary on.\<close>

definition ccm_enc_blocks :: "aes_ccm \<Rightarrow> bytes \<Rightarrow> (aes_ccm \<times> bytes) option" where
  "ccm_enc_blocks C p =
     (let k = length p - length p mod 16;
          (ac, q) = (if k \<noteq> 0 then aesbear_ccm_enc1 (cc_rk C) (take k p) (cc_authctr C) (cc_nr C)
                     else (cc_authctr C, []));
          p = drop k p
      in if p = [] then Some (C\<lparr>cc_authctr := ac\<rparr>, q)
         else
           case aes_ccm_inc (xor_at 0 p ac) of
             None \<Rightarrow> None
           | Some ac \<Rightarrow>
               let out = aesbear_enc (cc_rk C) (drop 16 ac) (cc_nr C)
               in Some (C\<lparr>cc_authctr := ac, cc_out := out, cc_i := length p\<rparr>,
                        q @ xor_bytes (take (length p) out) p))"

definition aes_ccm_enc :: "aes_ccm \<Rightarrow> bytes \<Rightarrow> (aes_ccm \<times> bytes) option" where
  "aes_ccm_enc C p =
     (let C = C\<lparr>cc_mleft := size_sub (cc_mleft C) (length p)\<rparr>
      in if cc_i C \<noteq> 0
         then
           let m = min (uint_sub 16 (cc_i C)) (length p);
               ac = xor_at (cc_i C) (take m p) (cc_authctr C);
               q = xor_bytes (take m (drop (cc_i C) (cc_out C))) (take m p);
               i = cc_i C + m
           in if i = 16
              then map_option (map_prod id ((@) q))
                     (ccm_enc_blocks (C\<lparr>cc_authctr := enc_auth (cc_rk C) (cc_nr C) ac, cc_i := 0\<rparr>)
                       (drop m p))
              else Some (C\<lparr>cc_authctr := ac, cc_i := i\<rparr>, q)
         else ccm_enc_blocks C p)"

definition ccm_dec_blocks :: "aes_ccm \<Rightarrow> bytes \<Rightarrow> (aes_ccm \<times> bytes) option" where
  "ccm_dec_blocks C p =
     (let k = length p - length p mod 16;
          (ac, q) = (if k \<noteq> 0 then aesbear_ccm_dec1 (cc_rk C) (take k p) (cc_authctr C) (cc_nr C)
                     else (cc_authctr C, []));
          p = drop k p
      in if p = [] then Some (C\<lparr>cc_authctr := ac\<rparr>, q)
         else
           case aes_ccm_inc ac of
             None \<Rightarrow> None
           | Some ac \<Rightarrow>
               let out = aesbear_enc (cc_rk C) (drop 16 ac) (cc_nr C);
                   pt = xor_bytes (take (length p) out) p
               in Some (C\<lparr>cc_authctr := xor_at 0 pt ac, cc_out := out, cc_i := length p\<rparr>, q @ pt))"

definition aes_ccm_dec :: "aes_ccm \<Rightarrow> bytes \<Rightarrow> (aes_ccm \<times> bytes) option" where
  "aes_ccm_dec C p =
     (let C = C\<lparr>cc_mleft := size_sub (cc_mleft C) (length p)\<rparr>
      in if cc_i C \<noteq> 0
         then
           let m = min (uint_sub 16 (cc_i C)) (length p);
               q = xor_bytes (take m (drop (cc_i C) (cc_out C))) (take m p);
               ac = xor_at (cc_i C) q (cc_authctr C);
               i = cc_i C + m
           in if i = 16
              then map_option (map_prod id ((@) q))
                     (ccm_dec_blocks (C\<lparr>cc_authctr := enc_auth (cc_rk C) (cc_nr C) ac, cc_i := 0\<rparr>)
                       (drop m p))
              else Some (C\<lparr>cc_authctr := ac, cc_i := i\<rparr>, q)
         else ccm_dec_blocks C p)"

subsection \<open>The tag\<close>

definition aes_ccm_tag :: "aes_ccm \<Rightarrow> aes_ccm \<times> bytes" where
  "aes_ccm_tag C =
     (let ac = (if cc_i C \<noteq> 0 then enc_auth (cc_rk C) (cc_nr C) (cc_authctr C) else cc_authctr C);
          ac = aes_ccm_zero_ctr ac;
          out = aesbear_enc (cc_rk C) (drop 16 ac) (cc_nr C)
      in (C\<lparr>cc_authctr := ac, cc_out := out, cc_i := 2 ^ 32 - 1\<rparr>,
          xor_bytes (take (cc_M C) out) (take (cc_M C) ac)))"

definition aes_ccm_verify :: "aes_ccm \<Rightarrow> bytes \<Rightarrow> aes_ccm \<times> bool" where
  "aes_ccm_verify C tag =
     (case aes_ccm_tag C of (C', expected) \<Rightarrow> (C', take (cc_M C) tag = expected))"

subsection \<open>One byte at a time\<close>

text \<open>
  The abstract state: the authenticator, the last counter word, the key stream of the block at
  hand (empty between blocks) and the position in it.
\<close>

type_synonym ccm_pos = "bytes \<times> u32 \<times> bytes \<times> nat"

definition ccm_byte ::
  "bool \<Rightarrow> (bytes \<Rightarrow> bytes) \<Rightarrow> bytes \<Rightarrow> ccm_pos \<Rightarrow> u8 \<Rightarrow> ccm_pos \<times> u8" where
  "ccm_byte encrypting e c s x =
     (case s of (a, n, ks, i) \<Rightarrow>
        let (n, ks) = (if i = 0 then (n + 1, e (c @ be32enc (n + 1))) else (n, ks));
            y = ks ! i XOR x;
            a = a[i := a ! i XOR (if encrypting then x else y)]
        in (if i = 15 then (e a, n, [], 0) else (a, n, ks, i + 1), y))"

lemma ccm_byte_first:
  fixes e :: "bytes \<Rightarrow> bytes"
  assumes "ks = e (c @ be32enc (n + 1))"
  shows "ccm_byte encrypting e c (a, n, ks', 0) x =
     ((a[0 := a ! 0 XOR (if encrypting then x else ks ! 0 XOR x)], n + 1, ks, 1), ks ! 0 XOR x)"
  using assms by (simp add: ccm_byte_def Let_def)

lemma ccm_byte_mid:
  "0 < i \<Longrightarrow> i \<noteq> 15 \<Longrightarrow> ccm_byte encrypting e c (a, n, ks, i) x =
     ((a[i := a ! i XOR (if encrypting then x else ks ! i XOR x)], n, ks, Suc i), ks ! i XOR x)"
  by (simp add: ccm_byte_def Let_def)

lemma ccm_byte_last:
  "ccm_byte encrypting e c (a, n, ks, 15) x =
     ((e (a[15 := a ! 15 XOR (if encrypting then x else ks ! 15 XOR x)]), n, [], 0), ks ! 15 XOR x)"
  by (simp add: ccm_byte_def Let_def)

lemma length_xor_at [simp]: "i + length p \<le> length buf \<Longrightarrow> length (xor_at i p buf) = length buf"
  by (simp add: xor_at_def)

lemma xor_at_Nil [simp]: "xor_at i [] buf = buf"
  by (simp add: xor_at_def)

lemma nth_xor_at:
  assumes "i + length p \<le> length buf" "k < length buf"
  shows "xor_at i p buf ! k = (if i \<le> k \<and> k < i + length p then buf ! k XOR p ! (k - i) else buf ! k)"
  using assms by (auto simp: xor_at_def nth_put_at)

lemma xor_at_Cons:
  assumes "i + length p < length buf"
  shows "xor_at (Suc i) p (buf[i := buf ! i XOR x]) = xor_at i (x # p) buf"
  using assms by (intro nth_equalityI) (auto simp: nth_xor_at nth_list_update nth_Cons' Suc_diff_Suc)

lemma xor_at_0: "length p = length buf \<Longrightarrow> xor_at 0 p buf = xor_bytes buf p"
  by (simp add: xor_at_def put_at_def)

lemma ccm_byte_inverse:
  "ccm_byte True e c s x = (s', y) \<Longrightarrow> ccm_byte False e c s y = (s', x)"
  by (auto simp: ccm_byte_def Let_def split: prod.splits if_splits)

text \<open>A block cipher on bytes, as far as the byte-wise view relies on it.\<close>

locale byte_cipher =
  fixes e :: "bytes \<Rightarrow> bytes"
  assumes length_e: "length (e b) = 16"
begin

lemma within_block:
  assumes "length a = 16" "length ks = 16" "0 < i" "i + length xs \<le> 16" "i < 16"
    and "ys = xor_bytes (take (length xs) (drop i ks)) xs"
    and "a' = xor_at i (if encrypting then xs else ys) a"
  shows "map_state (ccm_byte encrypting e c) (a, n, ks, i) xs =
    (if i + length xs = 16 then (e a', n, [], 0) else (a', n, ks, i + length xs), ys)"
  using assms
proof (induction xs arbitrary: a i ys a')
  case (Cons x xs)
  let ?y = "ks ! i XOR x"
  let ?p = "if encrypting then x else ?y"
  have ks: "drop i ks = ks ! i # drop (Suc i) ks"
    using Cons.prems by (simp add: Cons_nth_drop_Suc)
  define zs where "zs = xor_bytes (take (length xs) (drop (Suc i) ks)) xs"
  have ys: "ys = ?y # zs" using Cons.prems by (simp add: ks zs_def)
  have "length zs = length xs" using Cons.prems by (simp add: zs_def)
  then have a': "a' = xor_at (Suc i) (if encrypting then xs else zs) (a[i := a ! i XOR ?p])"
    using Cons.prems by (auto simp: ys xor_at_Cons)
  show ?case
  proof (cases "i = 15")
    case True
    then have "xs = []" using Cons.prems by simp
    moreover have "zs = []" using \<open>length zs = length xs\<close> \<open>xs = []\<close> by simp
    ultimately show ?thesis unfolding ys a' using True by (simp add: ccm_byte_last)
  next
    case False
    have "map_state (ccm_byte encrypting e c) (a[i := a ! i XOR ?p], n, ks, Suc i) xs =
        (if Suc i + length xs = 16 then (e a', n, [], 0) else (a', n, ks, Suc i + length xs), zs)"
      using Cons.prems False by (intro Cons.IH) (auto simp: zs_def a')
    then show ?thesis
      unfolding ys using Cons.prems(3) False by (simp add: ccm_byte_mid split del: if_split) simp
  qed
qed (use assms in simp)

lemma new_block:
  assumes "length a = 16" "xs \<noteq> []" "length xs \<le> 16"
    and "ks = e (c @ be32enc (n + 1))" "ys = xor_bytes (take (length xs) ks) xs"
    and "a' = xor_at 0 (if encrypting then xs else ys) a"
  shows "map_state (ccm_byte encrypting e c) (a, n, [], 0) xs =
    (if length xs = 16 then (e a', n + 1, [], 0) else (a', n + 1, ks, length xs), ys)"
proof -
  obtain x xs' where xs: "xs = x # xs'" using assms(2) by (cases xs) auto
  let ?y = "ks ! 0 XOR x"
  let ?p = "if encrypting then x else ?y"
  have len: "length ks = 16" using assms(4) length_e by simp
  then have ks: "take (Suc k) ks = ks ! 0 # take k (drop 1 ks)" for k by (cases ks) auto
  define zs where "zs = xor_bytes (take (length xs') (drop 1 ks)) xs'"
  have ys: "ys = ?y # zs" using assms(5) by (simp add: xs zs_def ks)
  have "length zs = length xs'" using assms(3) len by (simp add: xs zs_def)
  then have a': "a' = xor_at 1 (if encrypting then xs' else zs) (a[0 := a ! 0 XOR ?p])"
    using assms by (auto simp: xs ys xor_at_Cons)
  have "map_state (ccm_byte encrypting e c) (a[0 := a ! 0 XOR ?p], n + 1, ks, 1) xs' =
      (if 1 + length xs' = 16 then (e a', n + 1, [], 0) else (a', n + 1, ks, 1 + length xs'), zs)"
    using assms len by (intro within_block) (auto simp: xs zs_def a')
  then show ?thesis
    by (simp add: xs ys ccm_byte_first [of ks e c n, OF assms(4)] split del: if_split)
      (simp add: xs)
qed

end

text \<open>The key as a cipher on bytes.\<close>

definition ccm_cipher :: "nat \<Rightarrow> u32 list \<Rightarrow> bytes \<Rightarrow> bytes" where
  "ccm_cipher nr rk b = aesbear_enc rk b nr"

interpretation ccm: byte_cipher "ccm_cipher nr rk"
  by unfold_locales (simp add: ccm_cipher_def)

lemma ccm_cipher_block:
  "ccm_cipher nr rk b = store_block (aes_block nr rk (load_block b))"
  by (simp add: ccm_cipher_def aesbear_enc_def aes_block_def)

lemma ctr_block_bytes:
  assumes "length c = 12"
  shows "ctr_block (load_block (c @ d)) v = load_block (c @ be32enc v)"
proof -
  have "le32dec (drop k (c @ d)) = le32dec (drop k (c @ d'))" if "k + 4 \<le> 12" for k d d'
    using that assms by (simp add: le32dec_def nth_append)
  note a = this [of 0, simplified] and b = this [of 4] and c = this [of 8]
  have "le32dec (drop 12 (c @ be32enc v)) = bswap32 v"
    using assms by (simp add: bswap32_def)
  then show ?thesis
    using a [of d "be32enc v"] b [of d "be32enc v"] c [of d "be32enc v"]
    by (simp add: ctr_block_def load_block_def)
qed

lemma load_xor_bytes:
  "length a = 16 \<Longrightarrow> length b = 16 \<Longrightarrow> load_block (xor_bytes a b) = xor_block (load_block a) (load_block b)"
  by (metis load_store_block store_load_block store_xor_block)

text \<open>Whole blocks, as the bulk loops treat them.\<close>

lemma ccm_enc_ref_bytes:
  assumes "length a = 16" "length c = 12" "\<forall>b \<in> set bs. length b = 16"
    and "map_state (ccm_enc_ref (aes_block nr rk) (load_block (c @ d))) (load_block a, n) bs = ((A, n'), out)"
  shows "map_state (ccm_byte True (ccm_cipher nr rk) c) (a, n, [], 0) (concat bs) =
    ((store_block A, n', [], 0), concat out)"
  using assms
proof (induction bs arbitrary: a n out)
  case (Cons b bs)
  let ?e = "ccm_cipher nr rk" let ?ks = "?e (c @ be32enc (n + 1))"
  let ?a = "?e (xor_bytes a b)"
  have b: "length b = 16" "b \<noteq> []" using Cons.prems by auto
  have ks: "store_block (xor_block (load_block b) (aes_block nr rk (ctr_block (load_block (c @ d)) (n + 1)))) =
      xor_bytes ?ks b"
    using Cons.prems(2) b
    by (simp add: ctr_block_bytes ccm_cipher_block store_xor_block xor_bytes_commute)
  have a: "cbcmac_ref (aes_block nr rk) b (load_block a) = load_block ?a"
    using Cons.prems(1) b by (simp add: cbcmac_ref_def ccm_cipher_block load_xor_bytes)
  have step: "ccm_enc_ref (aes_block nr rk) (load_block (c @ d)) (load_block a, n) b =
      ((load_block ?a, n + 1), xor_bytes ?ks b)"
    by (simp add: ccm_enc_ref_def ks a)
  obtain out' where out: "out = xor_bytes ?ks b # out'"
    and r: "map_state (ccm_enc_ref (aes_block nr rk) (load_block (c @ d))) (load_block ?a, n + 1) bs =
      ((A, n'), out')"
    using Cons.prems(4) by (auto simp: step split: prod.splits)
  have "map_state (ccm_byte True ?e c) (a, n, [], 0) b = ((?a, n + 1, [], 0), xor_bytes ?ks b)"
    using ccm.new_block [of a b ?ks nr rk c n _ _ True, OF _ _ _ refl refl refl] Cons.prems(1) b
    by (auto simp: xor_at_0 ccm.length_e)
  moreover have "map_state (ccm_byte True ?e c) (?a, n + 1, [], 0) (concat bs) =
      ((store_block A, n', [], 0), concat out')"
    using Cons.prems by (intro Cons.IH [OF _ _ _ r]) (auto simp: ccm.length_e)
  ultimately show ?case by (simp add: map_state_append out)
qed auto

lemma ccm_dec_ref_bytes:
  assumes "length a = 16" "length c = 12" "\<forall>b \<in> set bs. length b = 16"
    and "map_state (ccm_dec_ref (aes_block nr rk) (load_block (c @ d))) (load_block a, n) bs = ((A, n'), out)"
  shows "map_state (ccm_byte False (ccm_cipher nr rk) c) (a, n, [], 0) (concat bs) =
    ((store_block A, n', [], 0), concat out)"
  using assms
proof (induction bs arbitrary: a n out)
  case (Cons b bs)
  let ?e = "ccm_cipher nr rk" let ?ks = "?e (c @ be32enc (n + 1))"
  let ?a = "?e (xor_bytes a (xor_bytes ?ks b))"
  have b: "length b = 16" "b \<noteq> []" using Cons.prems by auto
  have ks: "store_block (xor_block (load_block b) (aes_block nr rk (ctr_block (load_block (c @ d)) (n + 1)))) =
      xor_bytes ?ks b"
    using Cons.prems(2) b
    by (simp add: ctr_block_bytes ccm_cipher_block store_xor_block xor_bytes_commute)
  have a: "cbcmac_ref (aes_block nr rk) (xor_bytes ?ks b) (load_block a) = load_block ?a"
    using Cons.prems(1) b by (simp add: cbcmac_ref_def ccm_cipher_block load_xor_bytes)
  have step: "ccm_dec_ref (aes_block nr rk) (load_block (c @ d)) (load_block a, n) b =
      ((load_block ?a, n + 1), xor_bytes ?ks b)"
    by (simp add: ccm_dec_ref_def ks a Let_def)
  obtain out' where out: "out = xor_bytes ?ks b # out'"
    and r: "map_state (ccm_dec_ref (aes_block nr rk) (load_block (c @ d))) (load_block ?a, n + 1) bs =
      ((A, n'), out')"
    using Cons.prems(4) by (auto simp: step split: prod.splits)
  have "map_state (ccm_byte False ?e c) (a, n, [], 0) b = ((?a, n + 1, [], 0), xor_bytes ?ks b)"
    using ccm.new_block [of a b ?ks nr rk c n _ _ False, OF _ _ _ refl refl refl] Cons.prems(1) b
    by (auto simp: xor_at_0 ccm.length_e)
  moreover have "map_state (ccm_byte False ?e c) (?a, n + 1, [], 0) (concat bs) =
      ((store_block A, n', [], 0), concat out')"
    using Cons.prems by (intro Cons.IH [OF _ _ _ r]) (auto simp: ccm.length_e)
  ultimately show ?case by (simp add: map_state_append out)
qed auto

subsection \<open>The counter\<close>

definition counter16 :: "u32 \<Rightarrow> nat" where
  "counter16 n = unat n mod 2 ^ 16"

lemma unat_u8_less: "unat (a :: u8) < 256"
  by (rule less_le_trans [OF unsigned_less]) simp

lemma unat_be32dec:
  "unat (be32dec [d, c, b, a]) = unat a + 2 ^ 8 * unat b + 2 ^ 16 * unat c + 2 ^ 24 * unat d"
proof -
  let ?a = "ucast a :: u32" let ?b = "push_bit 8 (ucast b :: u32)"
  let ?c = "push_bit 16 (ucast c :: u32)" let ?d = "push_bit 24 (ucast d :: u32)"
  have "?c + ?d = ?c OR ?d" by (rule disjunctive_add) (auto simp: bit_simps)
  moreover have "?b + (?c OR ?d) = ?b OR ?c OR ?d" by (rule disjunctive_add) (auto simp: bit_simps)
  moreover have "?a + (?b OR ?c OR ?d) = ?a OR ?b OR ?c OR ?d"
    by (rule disjunctive_add) (auto simp: bit_simps)
  ultimately have "be32dec [d, c, b, a] = ?a + (?b + (?c + ?d))"
    by (simp add: be32dec_def numeral_3_eq_3 numeral_2_eq_2)
  then have "be32dec [d, c, b, a] =
      word_of_nat (unat a + 2 ^ 8 * unat b + 2 ^ 16 * unat c + 2 ^ 24 * unat d)"
    by (simp add: push_bit_eq_mult of_nat_unat)
  moreover have "unat a + 2 ^ 8 * unat b + 2 ^ 16 * unat c + 2 ^ 24 * unat d < 2 ^ 32"
    using unat_u8_less [of a] unat_u8_less [of b] unat_u8_less [of c] unat_u8_less [of d] by simp
  ultimately show ?thesis
    by (simp add: unsigned_of_nat take_bit_nat_eq_self del: of_nat_add of_nat_mult)
qed

lemma be32_bytes: obtains d c b a where "be32enc n = [d, c, b, a]" "n = be32dec [d, c, b, a]"
  by (metis be32dec_enc be32enc_def)

lemma counter16_bytes: "counter16 (be32dec [d, c, b, a]) = unat a + 2 ^ 8 * unat b"
proof -
  have "unat (be32dec [d, c, b, a]) = (unat a + 2 ^ 8 * unat b) + (unat c + 2 ^ 8 * unat d) * 2 ^ 16"
    unfolding unat_be32dec by simp
  moreover have "unat a + 2 ^ 8 * unat b < 2 ^ 16"
    using unat_u8_less [of a] unat_u8_less [of b] by simp
  ultimately show ?thesis unfolding counter16_def by (simp only: mod_mult_self1 mod_less)
qed

lemma Suc_byte:
  "x + 1 \<noteq> (0 :: u8) \<Longrightarrow> unat (x + 1) = Suc (unat x)"
  "x + 1 = (0 :: u8) \<Longrightarrow> unat x = 255"
proof -
  show "x + 1 \<noteq> 0 \<Longrightarrow> unat (x + 1) = Suc (unat x)"
    using unatSuc [of x] by (simp add: add.commute)
  assume "x + 1 = 0"
  then have "x = 255" by (simp add: eq_neg_iff_add_eq_0 [symmetric])
  then show "unat x = 255" by simp
qed

lemma be32dec_Suc:
  assumes "counter16 (be32dec [d, c, b, a]) < 2 ^ 16 - 1"
  shows "a + 1 = 0 \<Longrightarrow> b + 1 \<noteq> 0"
    "be32dec [d, c, b, a] + 1 = be32dec (if a + 1 = 0 then [d, c, b + 1, 0] else [d, c, b, a + 1])"
proof -
  show b: "b + 1 \<noteq> 0" if "a + 1 = 0"
    using assms Suc_byte(2) [OF that] Suc_byte(2) [of b] by (auto simp: counter16_bytes)
  let ?n = "be32dec [d, c, b, a]"
  have "unat ?n mod 2 ^ 16 < 2 ^ 16 - 1" using assms by (simp add: counter16_def)
  moreover have "unat ?n = 2 ^ 32 - 1" if "1 + ?n = 0"
  proof -
    have "?n = - 1" using that by (simp add: eq_neg_iff_add_eq_0 add.commute)
    then show ?thesis by (simp add: unsigned_minus_1_eq_mask mask_eq_exp_minus_1)
  qed
  ultimately have "1 + ?n \<noteq> 0" by auto
  then have "unat (?n + 1) = Suc (unat ?n)" using unatSuc [of ?n] by (simp add: add.commute)
  then show "?n + 1 = be32dec (if a + 1 = 0 then [d, c, b + 1, 0] else [d, c, b, a + 1])"
    using b Suc_byte [of a] Suc_byte(1) [of b]
    by (subst word_unat_eq_iff) (auto simp: unat_be32dec)
qed

lemma aes_ccm_inc_counter:
  assumes "length a = 16" "length c = 12" "counter16 n < 2 ^ 16 - 1"
  shows "aes_ccm_inc (a @ c @ be32enc n) = Some (a @ c @ be32enc (n + 1))"
proof -
  obtain z y x w where n: "be32enc n = [z, y, x, w]" "n = be32dec [z, y, x, w]" by (rule be32_bytes)
  note s = be32dec_Suc [OF assms(3) [unfolded n(2)]]
  have "be32enc (n + 1) = (if w + 1 = 0 then [z, y, x + 1, 0] else [z, y, x, w + 1])"
    unfolding n(2) s(2) by (simp add: be32enc_dec4)
  then show ?thesis
    using assms(1,2) s(1)
    by (simp add: aes_ccm_inc_def n(1) nth_append list_update_append)
qed

lemma counter16_Suc: "counter16 n < 2 ^ 16 - 1 \<Longrightarrow> counter16 (n + 1) = Suc (counter16 n)"
proof -
  assume a: "counter16 n < 2 ^ 16 - 1"
  obtain z y x w where n: "n = be32dec [z, y, x, w]" by (rule be32_bytes)
  show ?thesis
    unfolding n be32dec_Suc(2) [OF a [unfolded n]]
    using be32dec_Suc(1) [OF a [unfolded n]] Suc_byte [of w] Suc_byte(1) [of x] by (auto simp: counter16_bytes)
qed

text \<open>The number of bytes that can still be processed before the block counter is exhausted.\<close>

definition ccm_left :: "ccm_pos \<Rightarrow> nat" where
  "ccm_left s = (case s of (a, n, ks, i) \<Rightarrow> 16 * (2 ^ 16 - 1 - counter16 n) + (16 - i) mod 16)"

definition ccm_index :: "ccm_pos \<Rightarrow> nat" where
  "ccm_index s = (case s of (a, n, ks, i) \<Rightarrow> i)"

lemma ccm_left_byte:
  assumes "ccm_byte encrypting e c s x = (s', y)" "0 < ccm_left s" "ccm_index s < 16"
  shows "ccm_left s' = ccm_left s - 1 \<and> ccm_index s' < 16"
proof -
  obtain a n ks i where s: "s = (a, n, ks, i)" by (cases s)
  show ?thesis
  proof (cases "i = 0")
    case True
    then have "counter16 n < 2 ^ 16 - 1" using assms(2) by (auto simp: s ccm_left_def)
    then show ?thesis
      using assms(1) True counter16_Suc [of n]
      by (auto simp: s ccm_byte_def Let_def ccm_left_def ccm_index_def)
  next
    case False
    then show ?thesis
      using assms(1,3) by (auto simp: s ccm_byte_def Let_def ccm_left_def ccm_index_def split: if_splits)
  qed
qed

lemma ccm_left_bytes:
  assumes "map_state (ccm_byte encrypting e c) s p = (s', q)" "length p \<le> ccm_left s" "ccm_index s < 16"
  shows "ccm_left s' = ccm_left s - length p"
  using assms
proof (induction p arbitrary: s q)
  case (Cons x p)
  obtain t y where t: "ccm_byte encrypting e c s x = (t, y)" by (meson surj_pair)
  have *: "ccm_left t = ccm_left s - 1" "ccm_index t < 16"
    using ccm_left_byte [OF t] Cons.prems by auto
  then show ?case using Cons.IH [of t] Cons.prems by (auto simp: t split: prod.splits)
qed simp

subsection \<open>Pieces act byte by byte\<close>

lemma xor_at_append: "i + length p \<le> length a \<Longrightarrow> xor_at i p (a @ r) = xor_at i p a @ r"
  by (simp add: xor_at_def put_at_def)

lemma enc_auth_append: "length a = 16 \<Longrightarrow> enc_auth rk nr (a @ r) = ccm_cipher nr rk a @ r"
  by (simp add: enc_auth_def ccm_cipher_def put_at_def)

lemma put_authctr_append:
  "length a = 16 \<Longrightarrow> length c = 12 \<Longrightarrow>
   put_authctr A n' (a @ c @ be32enc n) = store_block A @ c @ be32enc n'"
  by (simp add: put_authctr_def put_at_def)

definition ccm_bulk :: "bool \<Rightarrow> u32 list \<Rightarrow> bytes \<Rightarrow> bytes \<Rightarrow> nat \<Rightarrow> bytes \<times> bytes" where
  "ccm_bulk encrypting rk p ac nr =
     (if p = [] then (ac, [])
      else if encrypting then aesbear_ccm_enc1 rk p ac nr else aesbear_ccm_dec1 rk p ac nr)"

lemma load_block_take: "load_block (a @ r) = load_block a" if "length a = 16"
  using that by (simp add: load_block_def le32dec_def nth_append)

lemma ccm_bulk_bytes:
  assumes "length a = 16" "length c = 12" "16 dvd length p"
  obtains a' n' q where "length a' = 16"
    "ccm_bulk encrypting rk p (a @ c @ be32enc n) nr = (a' @ c @ be32enc n', q)"
    "map_state (ccm_byte encrypting (ccm_cipher nr rk) c) (a, n, [], 0) p = ((a', n', [], 0), q)"
proof (cases "p = []")
  case True
  then show thesis using assms(1) by (intro that [of a n "[]"]) (auto simp: ccm_bulk_def)
next
  case False
  let ?ac = "a @ c @ be32enc n"
  let ?f = "(if encrypting then ccm_enc_ref else ccm_dec_ref) (aes_block nr rk) (load_block (c @ be32enc n))"
  obtain A n' out where r: "map_state ?f (load_block a, n) (chunks p) = ((A, n'), out)"
    by (metis surj_pair)
  have "ccm_bulk encrypting rk p ?ac nr = (put_authctr A n' ?ac, concat out)"
    using False assms r
    by (auto simp: ccm_bulk_def aesbear_ccm_enc1_ref aesbear_ccm_dec1_ref load_block_take split: if_splits)
  moreover have "map_state (ccm_byte encrypting (ccm_cipher nr rk) c) (a, n, [], 0) (concat (chunks p)) =
      ((store_block A, n', [], 0), concat out)"
    using assms r ccm_enc_ref_bytes [of a c "chunks p" nr rk "be32enc n" n A n' out]
      ccm_dec_ref_bytes [of a c "chunks p" nr rk "be32enc n" n A n' out]
    by (auto simp: length_chunk split: if_splits)
  ultimately show thesis
    using assms by (intro that [of "store_block A" n' "concat out"])
      (auto simp: put_authctr_append concat_chunks)
qed

text \<open>A state of the code represents an abstract one.\<close>

definition ccm_rep :: "bytes \<Rightarrow> aes_ccm \<Rightarrow> ccm_pos \<Rightarrow> bool" where
  "ccm_rep c C s \<longleftrightarrow> (case s of (a, n, ks, i) \<Rightarrow>
     length a = 16 \<and> length c = 12 \<and> cc_authctr C = a @ c @ be32enc n \<and> cc_i C = i \<and> i < 16 \<and>
     ks = (if i = 0 then [] else cc_out C) \<and> (i \<noteq> 0 \<longrightarrow> length ks = 16))"

text \<open>What a piece of the message leaves alone.\<close>

definition ccm_same :: "aes_ccm \<Rightarrow> aes_ccm \<Rightarrow> bool" where
  "ccm_same C C' \<longleftrightarrow> cc_rk C' = cc_rk C \<and> cc_nr C' = cc_nr C \<and> cc_mlen C' = cc_mlen C \<and>
     cc_L C' = cc_L C \<and> cc_M C' = cc_M C"

lemma ccm_blocks_unfold:
  fixes p :: bytes
  defines "k \<equiv> length p - length p mod 16"
  assumes "cc_authctr C = a @ c @ be32enc n" "length a = 16" "length c = 12"
    and "ccm_bulk encrypting (cc_rk C) (take k p) (cc_authctr C) (cc_nr C) = (a' @ c @ be32enc n', q)"
    and "length a' = 16" "drop k p \<noteq> [] \<longrightarrow> counter16 n' < 2 ^ 16 - 1"
    and "ks = ccm_cipher (cc_nr C) (cc_rk C) (c @ be32enc (n' + 1))"
    and "y = xor_bytes (take (length (drop k p)) ks) (drop k p)"
  shows "(if encrypting then ccm_enc_blocks C p else ccm_dec_blocks C p) =
    Some (if drop k p = [] then (C\<lparr>cc_authctr := a' @ c @ be32enc n'\<rparr>, q)
          else (C\<lparr>cc_authctr := xor_at 0 (if encrypting then drop k p else y) a' @ c @ be32enc (n' + 1),
                 cc_out := ks, cc_i := length (drop k p)\<rparr>, q @ y))"
proof -
  have k: "k \<le> length p" "take k p = [] \<longleftrightarrow> k = 0" by (auto simp: k_def)
  have len: "length (drop k p) < 16" by (simp add: k_def)
  have *: "(if k \<noteq> 0 then aesbear_ccm_enc1 (cc_rk C) (take k p) (cc_authctr C) (cc_nr C) else (cc_authctr C, [])) =
      (a' @ c @ be32enc n', q)" if encrypting
    using assms(5) that k by (auto simp: ccm_bulk_def split: if_splits)
  have **: "(if k \<noteq> 0 then aesbear_ccm_dec1 (cc_rk C) (take k p) (cc_authctr C) (cc_nr C) else (cc_authctr C, [])) =
      (a' @ c @ be32enc n', q)" if "\<not> encrypting"
    using assms(5) that k by (auto simp: ccm_bulk_def split: if_splits)
  have y: "length y \<le> 16" using len assms(8) by (auto simp: assms(9))
  have inc: "aes_ccm_inc (b @ c @ be32enc n') = Some (b @ c @ be32enc (n' + 1))"
    if "drop k p \<noteq> []" "length b = 16" for b
    using that assms(4,7) by (intro aes_ccm_inc_counter) auto
  show ?thesis
  proof (cases encrypting)
    case True
    then show ?thesis
      unfolding ccm_enc_blocks_def Let_def unfolding k_def [symmetric] * [OF True]
      using inc [of "xor_at 0 (drop k p) a'"] assms(6) len assms(4)
      by (simp add: xor_at_append assms(8,9) ccm_cipher_def)
  next
    case False
    then show ?thesis
      unfolding ccm_dec_blocks_def Let_def unfolding k_def [symmetric] ** [OF False]
      using inc [of a'] assms(6) len assms(4) y
      by (simp add: xor_at_append assms(8,9) ccm_cipher_def)
  qed
qed

lemma ccm_blocks_bytes:
  assumes "ccm_rep c C (a, n, [], 0)" "length p \<le> ccm_left (a, n, [], 0)"
  obtains C' s' q where
    "(if encrypting then ccm_enc_blocks C p else ccm_dec_blocks C p) = Some (C', q)"
    "map_state (ccm_byte encrypting (ccm_cipher (cc_nr C) (cc_rk C)) c) (a, n, [], 0) p = (s', q)"
    "ccm_rep c C' s'" "ccm_same C C'" "cc_mleft C' = cc_mleft C"
proof -
  define k where "k = length p - length p mod 16"
  let ?e = "ccm_cipher (cc_nr C) (cc_rk C)" let ?t = "drop k p"
  have C: "length a = 16" "length c = 12" "cc_authctr C = a @ c @ be32enc n" "cc_i C = 0"
    using assms(1) by (auto simp: ccm_rep_def)
  have k: "k \<le> length p" "16 dvd k" by (auto simp: k_def dvd_minus_mod)
  have len: "length ?t < 16" by (simp add: k_def)
  have dvd: "16 dvd length (take k p)" using k by simp
  obtain a' n' q where a': "length a' = 16"
    "ccm_bulk encrypting (cc_rk C) (take k p) (a @ c @ be32enc n) (cc_nr C) = (a' @ c @ be32enc n', q)"
    and m: "map_state (ccm_byte encrypting ?e c) (a, n, [], 0) (take k p) = ((a', n', [], 0), q)"
    using ccm_bulk_bytes [OF C(1,2) dvd] by metis
  define ks where "ks = ?e (c @ be32enc (n' + 1))"
  define y where "y = xor_bytes (take (length ?t) ks) ?t"
  define b where "b = xor_at 0 (if encrypting then ?t else y) a'"
  have left: "ccm_left (a', n', [], 0) = ccm_left (a, n, [], 0) - k"
    using ccm_left_bytes [OF m] assms(2) k by (simp add: ccm_index_def)
  have c: "?t \<noteq> [] \<longrightarrow> counter16 n' < 2 ^ 16 - 1"
    using left assms(2) by (auto simp: ccm_left_def)
  note u = ccm_blocks_unfold [OF C(3,1,2), of encrypting p, folded k_def, OF a'(2) [folded C(3)] a'(1) c
    ks_def y_def, folded b_def]
  have lenb: "length b = 16" using a'(1) len ccm.length_e by (auto simp: b_def y_def ks_def)
  show thesis
  proof (cases "?t = []")
    case True
    then have "map_state (ccm_byte encrypting ?e c) (a, n, [], 0) p = ((a', n', [], 0), q)"
      using m by simp
    then show thesis using that [OF u [unfolded if_P [OF True]]] True a' C by (auto simp: ccm_rep_def ccm_same_def)
  next
    case False
    have "map_state (ccm_byte encrypting ?e c) (a', n', [], 0) ?t = ((b, n' + 1, ks, length ?t), y)"
      using ccm.new_block [OF a'(1) False _ ks_def y_def b_def] len by auto
    then have "map_state (ccm_byte encrypting ?e c) (a, n, [], 0) (take k p @ ?t) =
        ((b, n' + 1, ks, length ?t), q @ y)"
      by (simp add: map_state_append m del: append_take_drop_id)
    then show thesis
      using that [OF u [unfolded if_not_P [OF False]]] False lenb len C by (auto simp: ccm_rep_def ccm_same_def ks_def ccm.length_e)
  qed
qed

lemma ccm_crypt_unfold:
  assumes "ccm_rep c C (a, n, ks, i)" "i \<noteq> 0"
    and "m = min (16 - i) (length p)" "y = xor_bytes (take m (drop i ks)) (take m p)"
    and "b = xor_at i (if encrypting then take m p else y) a"
    and "D = C\<lparr>cc_mleft := size_sub (cc_mleft C) (length p), 
           cc_authctr := ccm_cipher (cc_nr C) (cc_rk C) b @ c @ be32enc n, cc_i := 0\<rparr>"
  shows "(if encrypting then aes_ccm_enc C p else aes_ccm_dec C p) =
    (if i + m = 16
     then map_option (map_prod id ((@) y))
       (if encrypting then ccm_enc_blocks D (drop m p) else ccm_dec_blocks D (drop m p))
     else Some (C\<lparr>cc_mleft := size_sub (cc_mleft C) (length p), 
                 cc_authctr := b @ c @ be32enc n, cc_i := i + m\<rparr>, y))"
proof -
  have C: "cc_i C = i" "cc_authctr C = a @ c @ be32enc n" "cc_out C = ks"
    "length a = 16" "length ks = 16" "length c = 12" "i < 16"
    using assms(1,2) by (auto simp: ccm_rep_def)
  have m: "i + m \<le> 16" "m \<le> length p" "length y = m" using C assms(3,4) by auto
  have u: "uint_sub 16 i = 16 - i" using C(7) by simp
  have b: "length b = 16" using C m assms(5) by auto
  show ?thesis
  proof (cases encrypting)
    case True
    then have "xor_at i (take m p) (a @ c @ be32enc n) = b @ c @ be32enc n"
      using m C(4) by (simp add: xor_at_append assms(5))
    then show ?thesis
      using True assms(2) b
      by (simp add: aes_ccm_enc_def Let_def C u assms(3) [symmetric] assms(4,6) enc_auth_append)
  next
    case False
    then have "xor_at i y (a @ c @ be32enc n) = b @ c @ be32enc n"
      using m C(4) by (simp add: xor_at_append assms(5))
    then show ?thesis
      using False assms(2) b
      by (simp add: aes_ccm_dec_def Let_def C u assms(3) [symmetric] assms(4,6) enc_auth_append
        del: take_all)
  qed
qed

lemma ccm_piece_bytes:
  assumes "ccm_rep c C s" "length p \<le> ccm_left s"
  obtains C' s' q where
    "(if encrypting then aes_ccm_enc C p else aes_ccm_dec C p) = Some (C', q)"
    "map_state (ccm_byte encrypting (ccm_cipher (cc_nr C) (cc_rk C)) c) s p = (s', q)"
    "ccm_rep c C' s'" "ccm_same C C'" "cc_mleft C' = size_sub (cc_mleft C) (length p)"
proof -
  obtain a n ks i where s: "s = (a, n, ks, i)" by (cases s)
  let ?D = "C\<lparr>cc_mleft := size_sub (cc_mleft C) (length p)\<rparr>"
  let ?e = "ccm_cipher (cc_nr C) (cc_rk C)"
  show thesis
  proof (cases "i = 0")
    case True
    then have s0: "s = (a, n, [], 0)" "cc_i C = 0" using assms(1) by (auto simp: ccm_rep_def s)
    then have D: "ccm_rep c ?D (a, n, [], 0)" using assms(1) by (auto simp: ccm_rep_def)
    obtain C' s' q where "(if encrypting then ccm_enc_blocks ?D p else ccm_dec_blocks ?D p) = Some (C', q)"
      "map_state (ccm_byte encrypting (ccm_cipher (cc_nr ?D) (cc_rk ?D)) c) (a, n, [], 0) p = (s', q)"
      "ccm_rep c C' s'" "ccm_same ?D C'" "cc_mleft C' = cc_mleft ?D"
      by (rule ccm_blocks_bytes [OF D assms(2) [unfolded s0]])
    then show thesis
      using s0 by (intro that [of C' q s']) (auto simp: aes_ccm_enc_def aes_ccm_dec_def ccm_same_def)
  next
    case False
    define m where "m = min (16 - i) (length p)"
    define y where "y = xor_bytes (take m (drop i ks)) (take m p)"
    define b where "b = xor_at i (if encrypting then take m p else y) a"
    define D where "D = C\<lparr>cc_mleft := size_sub (cc_mleft C) (length p), 
           cc_authctr := ccm_cipher (cc_nr C) (cc_rk C) b @ c @ be32enc n, cc_i := 0\<rparr>"
    note u = ccm_crypt_unfold [OF assms(1) [unfolded s] False m_def y_def b_def D_def]
    have C: "length a = 16" "length ks = 16" "length c = 12" "i < 16" "cc_out C = ks"
      using assms(1) False by (auto simp: ccm_rep_def s)
    have m: "i + m \<le> 16" "m \<le> length p" "length y = m" using C by (auto simp: m_def y_def)
    have b: "length b = 16" using C m by (auto simp: b_def)
    have w: "map_state (ccm_byte encrypting ?e c) s (take m p) =
        (if i + m = 16 then (?e b, n, [], 0) else (b, n, ks, i + m), y)"
      unfolding s using C m False ccm.within_block [of a ks i "take m p" y b encrypting "cc_nr C" "cc_rk C" c n]
      by (simp add: y_def b_def min_absorb2)
    show thesis
    proof (cases "i + m = 16")
      case True
      have D: "ccm_rep c D (?e b, n, [], 0)" using C by (auto simp: ccm_rep_def D_def ccm.length_e)
      have "ccm_left (?e b, n, [], 0) = ccm_left s - m"
        using ccm_left_bytes [OF w] True assms(2) m C by (simp add: s ccm_index_def)
      then have "length (drop m p) \<le> ccm_left (?e b, n, [], 0)" using assms(2) by simp
      then obtain C' s' q where r:
        "(if encrypting then ccm_enc_blocks D (drop m p) else ccm_dec_blocks D (drop m p)) = Some (C', q)"
        "map_state (ccm_byte encrypting (ccm_cipher (cc_nr D) (cc_rk D)) c) (?e b, n, [], 0) (drop m p) = (s', q)"
        "ccm_rep c C' s'" "ccm_same D C'" "cc_mleft C' = cc_mleft D"
        by (rule ccm_blocks_bytes [OF D])
      have "map_state (ccm_byte encrypting ?e c) s (take m p @ drop m p) = (s', y @ q)"
        using r(2) True unfolding map_state_append w by (simp add: D_def)
      then show thesis
        using r True u by (intro that [of C' "y @ q" s']) (auto simp: ccm_same_def D_def)
    next
      case False': False
      then have "take m p = p" "i + m < 16" using m by (auto simp: m_def min_def split: if_splits)
      then show thesis
        using w u False' False b C
        by (intro that [of "C\<lparr>cc_mleft := size_sub (cc_mleft C) (length p),
            cc_authctr := b @ c @ be32enc n, cc_i := i + m\<rparr>" y "(b, n, ks, i + m)"])
          (auto simp: ccm_rep_def ccm_same_def)
    qed
  qed
qed

subsection \<open>Buffer chains\<close>

text \<open>
  The walk to the buffer that holds an offset, and the loop over the pieces of the message in
  the buffers from there on; \<open>None\<close> is the null pointer behind the last buffer.
\<close>

fun ccm_skip :: "nat \<Rightarrow> chain \<Rightarrow> (chain \<times> nat \<times> chain) option" where
  "ccm_skip off [] = None"
| "ccm_skip off (m # ms) =
     (if off \<ge> m_len m then map_option (map_prod ((#) m) id) (ccm_skip (off - m_len m) ms)
      else Some ([], off, m # ms))"

fun ccm_chain ::
  "('s \<Rightarrow> bytes \<Rightarrow> ('s \<times> bytes) option) \<Rightarrow> 's \<Rightarrow> nat \<Rightarrow> nat \<Rightarrow> chain \<Rightarrow> ('s \<times> chain) option" where
  "ccm_chain f s off len [] = (if len > 0 then None else Some (s, []))"
| "ccm_chain f s off len (m # ms) =
     (if len > 0
      then
        let seglen = min (size_sub (m_len m) off) len
        in case f s (take seglen (drop off (m_bytes m))) of
             None \<Rightarrow> None
           | Some (s', out) \<Rightarrow>
               map_option
                 (map_prod id ((#) (m\<lparr>m_cluster := put_at (m_data m + off) out (m_cluster m)\<rparr>)))
                 (ccm_chain f s' 0 (len - seglen) ms)
      else Some (s, m # ms))"

definition aes_ccm_enc_mbuf ::
  "aes_ccm \<Rightarrow> chain \<Rightarrow> nat \<Rightarrow> nat \<Rightarrow> (aes_ccm \<times> chain \<times> bytes) option" where
  "aes_ccm_enc_mbuf C m off len =
     (case ccm_skip off m of
        None \<Rightarrow> None
      | Some (pre, off, m) \<Rightarrow>
          case ccm_chain aes_ccm_enc C off len m of
            None \<Rightarrow> None
          | Some (C, m) \<Rightarrow> case aes_ccm_tag C of (C, tag) \<Rightarrow> Some (C, pre @ m, tag))"

definition zero_piece :: "unit \<Rightarrow> bytes \<Rightarrow> (unit \<times> bytes) option" where
  "zero_piece u p = Some (u, replicate (length p) 0)"

definition aes_ccm_dec_mbuf ::
  "aes_ccm \<Rightarrow> chain \<Rightarrow> nat \<Rightarrow> nat \<Rightarrow> bytes \<Rightarrow> (aes_ccm \<times> chain \<times> bool) option" where
  "aes_ccm_dec_mbuf C m off len tag =
     (case ccm_skip off m of
        None \<Rightarrow> None
      | Some (pre, off, m) \<Rightarrow>
          case ccm_chain aes_ccm_dec C off len m of
            None \<Rightarrow> None
          | Some (C, m) \<Rightarrow>
              case aes_ccm_verify C tag of (C, ok) \<Rightarrow>
                if ok then Some (C, pre @ m, True)
                else map_option (\<lambda>(u, m). (C, pre @ m, False)) (ccm_chain zero_piece () off len m))"

lemma ccm_skip_spec:
  assumes "wf_chain ms"
  shows "off < chain_len ms \<Longrightarrow> \<exists>pre off' ms'. ccm_skip off ms = Some (pre, off', ms') \<and>
      ms = pre @ ms' \<and> off = chain_len pre + off' \<and> ms' \<noteq> [] \<and> off' < m_len (hd ms')"
    and "chain_len ms \<le> off \<Longrightarrow> ccm_skip off ms = None"
  using assms
proof (induction ms arbitrary: off)
  case (Cons m ms)
  {
    case 1
    show ?case
    proof (cases "m_len m \<le> off")
      case True
      then have "off - m_len m < chain_len ms" using 1 by simp
      then obtain pre off' ms' where "ccm_skip (off - m_len m) ms = Some (pre, off', ms')"
        "ms = pre @ ms'" "off - m_len m = chain_len pre + off'" "ms' \<noteq> []" "off' < m_len (hd ms')"
        using Cons.IH(1) [of "off - m_len m"] 1 by force
      then show ?thesis using True by auto
    qed (use 1 in auto)
  next
    case 2
    then show ?case using Cons.IH(2) [of "off - m_len m"] by auto
  }
qed auto

text \<open>
  An operation that works on pieces and, as long as the budget \<open>left\<close> lasts, acts on each as a
  byte step does.  The chain then sees one pass of the byte step, wherever the buffers end.
\<close>

locale piecewise =
  fixes f :: "'s \<Rightarrow> bytes \<Rightarrow> ('s \<times> bytes) option"
    and g :: "'t \<Rightarrow> u8 \<Rightarrow> 't \<times> u8"
    and R :: "'s \<Rightarrow> 't \<Rightarrow> bool"
    and left :: "'t \<Rightarrow> nat"
  assumes piece: "R s t \<Longrightarrow> length p \<le> left t \<Longrightarrow> map_state g t p = (t', q) \<Longrightarrow>
    \<exists>s'. f s p = Some (s', q) \<and> R s' t' \<and> left t' \<ge> left t - length p"
begin

lemma chain_pieces:
  assumes "wf_chain ms" "ms = [] \<or> off \<le> m_len (hd ms)" "len + off \<le> chain_len ms"
    and "R s t" "len \<le> left t" "map_state g t (take len (drop off (chain_bytes ms))) = (t', out)"
  shows "\<exists>s' ms'. ccm_chain f s off len ms = Some (s', ms') \<and> R s' t' \<and>
    chain_bytes ms' = put_at off out (chain_bytes ms) \<and> chain_shape ms' = chain_shape ms"
  using assms
proof (induction ms arbitrary: s t off len out)
  case (Cons m ms)
  show ?case
  proof (cases "len = 0")
    case False
    define n where "n = min (m_len m - off) len"
    have wf: "wf_mbuf m" "wf_chain ms" and off: "off \<le> m_len m" using Cons.prems by simp_all
    define d1 where "d1 = take n (drop off (m_bytes m))"
    define d2 where "d2 = take (len - n) (chain_bytes ms)"
    have split: "take len (drop off (chain_bytes (m # ms))) = d1 @ d2"
      using wf off by (simp add: d1_def d2_def n_def min_def)
    obtain t1 o1 where st1: "map_state g t d1 = (t1, o1)" by fastforce
    obtain o2 where st2: "map_state g t1 d2 = (t', o2)" and out: "out = o1 @ o2"
      using Cons.prems(6) unfolding split by (auto simp: map_state_append st1 split: prod.splits)
    have d1: "length d1 = n" using wf off by (auto simp: d1_def n_def)
    then have len1: "length o1 = n" using length_map_stateD [OF st1] by simp
    have n: "n \<le> len" by (simp add: n_def)
    have fits: "off + length o1 \<le> m_len m" using len1 off by (auto simp: n_def)
    define m' where "m' = m\<lparr>m_cluster := put_at (m_data m + off) o1 (m_cluster m)\<rparr>"
    have m': "m_bytes m' = put_at off o1 (m_bytes m)" "mbuf_shape m' = mbuf_shape m"
      using wf(1) fits by (simp_all add: m'_def m_bytes_write wf_mbuf_def)
    obtain s1 where s1: "f s d1 = Some (s1, o1)" "R s1 t1" "left t1 \<ge> left t - n"
      using piece [OF Cons.prems(4) _ st1] d1 n Cons.prems(5) by auto
    have "\<exists>s' ms'. ccm_chain f s1 0 (len - n) ms = Some (s', ms') \<and> R s' t' \<and>
        chain_bytes ms' = put_at 0 o2 (chain_bytes ms) \<and> chain_shape ms' = chain_shape ms"
      using Cons.prems wf off s1 st2 by (intro Cons.IH) (auto simp: n_def d2_def)
    then obtain s' ms' where r: "ccm_chain f s1 0 (len - n) ms = Some (s', ms')" "R s' t'"
      "chain_bytes ms' = put_at 0 o2 (chain_bytes ms)" "chain_shape ms' = chain_shape ms"
      by blast
    have "put_at off o1 (m_bytes m) @ put_at 0 o2 (chain_bytes ms)
        = put_at off (o1 @ o2) (m_bytes m @ chain_bytes ms)"
    proof (cases "o2 = []")
      case True
      then show ?thesis using fits wf by (simp add: put_at_append_left)
    next
      case False
      then have "d2 \<noteq> []" using length_map_stateD [OF st2] by auto
      then have "n = m_len m - off" by (auto simp: d2_def n_def min_def split: if_splits)
      then show ?thesis using len1 off wf by (simp add: put_at_def add.commute)
    qed
    moreover have "min (size_sub (m_len m) off) len = n" using off by (simp add: n_def)
    ultimately show ?thesis
      using r m' False s1(1) [unfolded d1_def] by (auto simp: Let_def out m'_def)
  qed (use Cons.prems in auto)
qed auto

end

lemma ccm_chain_short:
  assumes "wf_chain ms" "ms = [] \<or> off \<le> m_len (hd ms)" "chain_len ms < len + off" "0 < len"
  shows "ccm_chain f s off len ms = None"
  using assms
proof (induction ms arbitrary: s off len)
  case (Cons m ms)
  let ?n = "min (m_len m - off) len"
  have "ccm_chain f s' 0 (len - ?n) ms = None" for s'
    using Cons.prems by (intro Cons.IH) auto
  then show ?case using Cons.prems by (auto simp: Let_def split: option.split)
qed auto

definition ccm_run :: "nat \<Rightarrow> u32 list \<Rightarrow> bytes \<Rightarrow> nat \<Rightarrow> aes_ccm \<Rightarrow> ccm_pos \<Rightarrow> bool" where
  "ccm_run nr rk c M C s \<longleftrightarrow> ccm_rep c C s \<and> cc_nr C = nr \<and> cc_rk C = rk \<and> cc_M C = M"

lemma ccm_rep_index: "ccm_rep c C s \<Longrightarrow> ccm_index s < 16"
  by (cases s) (simp add: ccm_rep_def ccm_index_def)

lemma ccm_run_piece:
  assumes "ccm_run nr rk c M C s" "length p \<le> ccm_left s"
    and "map_state (ccm_byte encrypting (ccm_cipher nr rk) c) s p = (s', q)"
  shows "\<exists>C'. (if encrypting then aes_ccm_enc C p else aes_ccm_dec C p) = Some (C', q) \<and>
    ccm_run nr rk c M C' s' \<and> ccm_left s' \<ge> ccm_left s - length p"
proof -
  have C: "ccm_rep c C s" "cc_nr C = nr" "cc_rk C = rk" "cc_M C = M"
    using assms(1) by (auto simp: ccm_run_def)
  have left: "ccm_left s' = ccm_left s - length p"
    using ccm_left_bytes [OF assms(3,2)] ccm_rep_index [OF C(1)] by simp
  obtain C' t' q' where r: "(if encrypting then aes_ccm_enc C p else aes_ccm_dec C p) = Some (C', q')"
    "map_state (ccm_byte encrypting (ccm_cipher (cc_nr C) (cc_rk C)) c) s p = (t', q')"
    "ccm_rep c C' t'" "ccm_same C C'"
    by (rule ccm_piece_bytes [OF C(1) assms(2)])
  then have "t' = s'" "q' = q" using assms(3) C by auto
  then show ?thesis using r left C by (auto simp: ccm_run_def ccm_same_def)
qed

interpretation ccm_enc_pieces: piecewise aes_ccm_enc "ccm_byte True (ccm_cipher nr rk) c" "ccm_run nr rk c M" ccm_left
  for nr rk c M
  using ccm_run_piece [where encrypting = True] by unfold_locales auto

interpretation ccm_dec_pieces: piecewise aes_ccm_dec "ccm_byte False (ccm_cipher nr rk) c" "ccm_run nr rk c M" ccm_left
  for nr rk c M
  using ccm_run_piece [where encrypting = False] by unfold_locales auto

text \<open>The bytes that follow the payload in a chain never end the pass of the zeroing loop early.\<close>

lemma map_state_zero: "map_state (\<lambda>t x. (t, 0)) t p = (t, replicate (length p) 0)"
  by (induction p) auto

interpretation zero_pieces: piecewise zero_piece "\<lambda>t x. (t, 0 :: u8)" "\<lambda>_ _. True" "\<lambda>n. n"
  by unfold_locales (auto simp: zero_piece_def map_state_zero)

subsection \<open>RFC 3610\<close>

text \<open>
  The definition of CCM for a length field of two bytes, over a block cipher \<open>e\<close> on blocks of
  16 bytes: the blocks to authenticate, their CBC-MAC, the key stream and the tag.
\<close>

definition pad16 :: "bytes \<Rightarrow> bytes" where
  "pad16 p = p @ replicate ((16 - length p mod 16) mod 16) 0"

definition rfc_ad_length :: "nat \<Rightarrow> bytes" where
  "rfc_ad_length l =
     (let be = (\<lambda>k. map (\<lambda>i. word_of_nat (l div 256 ^ i)) (rev [0..<k]))
      in if l < 2 ^ 16 - 2 ^ 8 then be 2
         else if l < 2 ^ 32 then 0xff # 0xfe # be 4 else 0xff # 0xff # be 8)"

definition rfc_b0 :: "nat \<Rightarrow> bytes \<Rightarrow> bytes \<Rightarrow> nat \<Rightarrow> bytes" where
  "rfc_b0 M nonce ad l =
     word_of_nat (64 * (if ad = [] then 0 else 1) + 8 * ((M - 2) div 2) + 1) # nonce
       @ [word_of_nat (l div 256), word_of_nat l]"

definition mac_step :: "(bytes \<Rightarrow> bytes) \<Rightarrow> bytes \<Rightarrow> bytes \<Rightarrow> bytes" where
  "mac_step e b x = e (xor_bytes x b)"

definition rfc_mac :: "(bytes \<Rightarrow> bytes) \<Rightarrow> nat \<Rightarrow> bytes \<Rightarrow> bytes \<Rightarrow> bytes \<Rightarrow> bytes" where
  "rfc_mac e M nonce ad m =
     fold (mac_step e)
       ((if ad = [] then [] else chunks (pad16 (rfc_ad_length (length ad) @ ad))) @ chunks (pad16 m))
       (e (rfc_b0 M nonce ad (length m)))"

definition rfc_stream :: "(bytes \<Rightarrow> bytes) \<Rightarrow> bytes \<Rightarrow> nat \<Rightarrow> bytes" where
  "rfc_stream e nonce i = e (1 # nonce @ [word_of_nat (i div 256), word_of_nat i])"

definition rfc_encrypt :: "(bytes \<Rightarrow> bytes) \<Rightarrow> bytes \<Rightarrow> bytes \<Rightarrow> bytes" where
  "rfc_encrypt e nonce m =
     xor_bytes (concat (map (rfc_stream e nonce) [1..<Suc ((length m + 15) div 16)])) m"

definition rfc_tag :: "(bytes \<Rightarrow> bytes) \<Rightarrow> nat \<Rightarrow> bytes \<Rightarrow> bytes \<Rightarrow> bytes \<Rightarrow> bytes" where
  "rfc_tag e M nonce ad m =
     xor_bytes (take M (rfc_mac e M nonce ad m)) (take M (rfc_stream e nonce 0))"

text \<open>The authenticator once the last block is complete.\<close>

definition ccm_final :: "(bytes \<Rightarrow> bytes) \<Rightarrow> ccm_pos \<Rightarrow> bytes" where
  "ccm_final e s = (case s of (a, n, ks, i) \<Rightarrow> if i = 0 then a else e a)"

lemma pad16_short: "p \<noteq> [] \<Longrightarrow> length p < 16 \<Longrightarrow> pad16 p = p @ replicate (16 - length p) 0"
  by (simp add: pad16_def)

lemma pad16_Nil [simp]: "pad16 [] = []"
  by (simp add: pad16_def)

lemma pad16_append: "16 dvd length b \<Longrightarrow> pad16 (b @ p) = b @ pad16 p"
  by (auto simp: pad16_def elim!: dvdE)

lemma chunks_single: "length b = 16 \<Longrightarrow> chunks b = [b]"
  using chunks_Cons [of b "[]"] by simp

lemma xor_at_pad:
  assumes "length a = 16" "length p \<le> 16" "p \<noteq> []"
  shows "xor_at 0 p a = xor_bytes a (pad16 p)"
proof -
  have "length (pad16 p) = 16" using assms by (cases "length p = 16") (auto simp: pad16_def)
  then show ?thesis
    using assms by (intro nth_equalityI) (auto simp: nth_xor_at pad16_def nth_append)
qed

lemma take_xor_bytes_short:
  "length p \<le> length ks \<Longrightarrow> xor_bytes (take (length p) ks) p = xor_bytes ks p"
  by (intro nth_equalityI) auto

context byte_cipher
begin

lemma bytes_ref:
  assumes "length a = 16" "map_state (ccm_byte True e c) (a, n, [], 0) p = (s', q)"
  shows "ccm_final e s' = fold (mac_step e) (chunks (pad16 p)) a \<and>
    q = xor_bytes (concat (map (\<lambda>j. e (c @ be32enc (n + word_of_nat j))) [1..<Suc ((length p + 15) div 16)])) p"
  using assms
proof (induction p arbitrary: a n q rule: chunks.induct)
  case (1 p)
  show ?case
  proof (cases "length p < 16")
    case True
    show ?thesis
    proof (cases "p = []")
      case True
      then show ?thesis using "1.prems" by (auto simp: ccm_final_def)
    next
      case False
      then have one: "(length p + 15) div 16 = 1" using True by (cases p) auto
      have len: "length (pad16 p) = 16" using True False by (simp add: pad16_short)
      define ks where "ks = e (c @ be32enc (n + 1))"
      have "map_state (ccm_byte True e c) (a, n, [], 0) p =
          ((xor_bytes a (pad16 p), n + 1, ks, length p), xor_bytes ks p)"
        using new_block [OF "1.prems"(1) False _ ks_def refl refl, of True] "1.prems"(1) True False
        by (simp add: xor_at_pad take_xor_bytes_short length_e ks_def)
      then show ?thesis
        using "1.prems"(2) False by (auto simp: one ccm_final_def chunks_single [OF len] mac_step_def ks_def)
    qed
  next
    case False
    define b where "b = take 16 p"
    define r where "r = drop 16 p"
    have p: "p = b @ r" "length b = 16" using False by (simp_all add: b_def r_def)
    have b: "b \<noteq> []" using p by auto
    let ?ks = "e (c @ be32enc (n + 1))" let ?a = "e (xor_bytes a b)"
    have s: "map_state (ccm_byte True e c) (a, n, [], 0) b = ((?a, n + 1, [], 0), xor_bytes ?ks b)"
      using new_block [OF "1.prems"(1) b, of _ c n, OF _ refl refl refl, of True] "1.prems"(1) p
      by (auto simp: xor_at_0 length_e)
    obtain q' where r: "map_state (ccm_byte True e c) (?a, n + 1, [], 0) r = (s', q')"
      and q: "q = xor_bytes ?ks b @ q'"
      using "1.prems"(2) unfolding p(1) by (auto simp: map_state_append s split: prod.splits)
    have k: "(length p + 15) div 16 = Suc ((length r + 15) div 16)" using p by simp
    have upt: "[1..<Suc (Suc k)] = 1 # map Suc [1..<Suc k]" for k
      by (simp add: map_Suc_upt upt_conv_Cons del: upt_Suc)
    have app: "xor_bytes (x @ y) (b @ r) = xor_bytes x b @ xor_bytes y r" if "length x = 16" for x y
      using that p(2) by (simp add: xor_bytes_def)
    note IH = "1.IH" [OF False, folded r_def, OF _ r]
    show ?thesis
      unfolding k upt using IH by (simp add: length_e p pad16_append chunks_Cons mac_step_def q app comp_def
        add.commute add.left_commute del: upt_Suc)
  qed
qed

end

lemma dvd_pad16: "16 dvd length (pad16 p)"
proof (cases "length p mod 16 = 0")
  case False
  then have "(16 - length p mod 16) mod 16 = 16 - length p mod 16" by simp
  moreover have "l + (16 - r) = 16 * Suc q" if "16 * q + r = l" "r < 16" for l q r :: nat
    using that by simp
  from this [OF mult_div_mod_eq] have "length p + (16 - length p mod 16) = 16 * Suc (length p div 16)"
    by simp
  ultimately show ?thesis by (simp only: pad16_def length_append length_replicate dvd_triv_left)
qed (auto simp: pad16_def)

lemma cbcmac_bytes:
  assumes "length a = 16"
  shows "aesbear_cbcmac_update1 rk p a nr = fold (mac_step (ccm_cipher nr rk)) (chunks p) a"
proof -
  have "store_block (fold (cbcmac_ref (aes_block nr rk)) bs (load_block a)) =
      fold (mac_step (ccm_cipher nr rk)) bs a" if "length a = 16" "\<forall>b \<in> set bs. length b = 16" for bs a
    using that
  proof (induction bs arbitrary: a)
    case (Cons b bs)
    have "cbcmac_ref (aes_block nr rk) b (load_block a) = load_block (mac_step (ccm_cipher nr rk) b a)"
      using Cons.prems by (simp add: cbcmac_ref_def ccm_cipher_block load_xor_bytes mac_step_def)
    then show ?case using Cons by (simp add: mac_step_def ccm.length_e)
  qed (simp add: store_load_block)
  then show ?thesis using assms by (simp add: aesbear_cbcmac_ref length_chunk)
qed

lemma length_fold_mac: "length a = 16 \<Longrightarrow> length (fold (mac_step (ccm_cipher nr rk)) bs a) = 16"
  by (induction bs arbitrary: a) (simp_all add: mac_step_def ccm.length_e)

lemma enc_auth_16: "length a = 16 \<Longrightarrow> enc_auth rk nr a = ccm_cipher nr rk a"
  using enc_auth_append [of a rk nr "[]"] by simp

lemma xor_at_xor_at:
  assumes "length l + length p \<le> length a"
  shows "xor_at (length l) p (xor_at 0 l a) = xor_at 0 (l @ p) a"
  using assms by (intro nth_equalityI) (auto simp: nth_xor_at nth_append)

lemma mac_last:
  assumes "length a = 16" "length p \<le> 16" "p \<noteq> []"
  shows "enc_auth rk nr (xor_at 0 p a) = fold (mac_step (ccm_cipher nr rk)) (chunks (pad16 p)) a"
proof -
  have "length (pad16 p) = 16" using assms by (cases "length p = 16") (auto simp: pad16_def)
  then show ?thesis using assms by (simp add: enc_auth_16 xor_at_pad chunks_single mac_step_def)
qed

lemma mac_tail:
  fixes p :: bytes
  defines "k \<equiv> length p - length p mod 16"
  assumes "length a = 16" and "b = (if k \<noteq> 0 then aesbear_cbcmac_update1 rk (take k p) a nr else a)"
  shows "(if drop k p \<noteq> [] then enc_auth rk nr (xor_at 0 (drop k p) b) else b) =
    fold (mac_step (ccm_cipher nr rk)) (chunks (pad16 p)) a"
proof -
  let ?f = "fold (mac_step (ccm_cipher nr rk))"
  have k: "k \<le> length p" "16 dvd k" "length (drop k p) < 16" by (auto simp: k_def dvd_minus_mod)
  have b: "b = ?f (chunks (take k p)) a" using assms(2,3) by (auto simp: cbcmac_bytes)
  have d: "16 dvd length (take k p)" using k by simp
  have "pad16 (take k p @ drop k p) = take k p @ pad16 (drop k p)" using d by (rule pad16_append)
  then have "?f (chunks (pad16 p)) a = ?f (chunks (pad16 (drop k p))) b"
    by (simp add: chunks_append [OF d] b)
  moreover have "length b = 16" using assms(2) by (simp add: b length_fold_mac)
  ultimately show ?thesis
    using mac_last [of b "drop k p" rk nr] k(3) by (auto simp del: drop_eq_Nil)
qed

lemma length_ad_length: "length (ad_length n) \<le> 10" "ad_length n \<noteq> []"
  by (simp_all add: ad_length_def Let_def)

lemma ccm_ad_ref:
  assumes "length auth = 16" "ad \<noteq> []"
  shows "ccm_ad rk nr ad auth =
    fold (mac_step (ccm_cipher nr rk)) (chunks (pad16 (ad_length (length ad) @ ad))) auth"
proof -
  define l where "l = ad_length (length ad)"
  define n where "n = min (length ad) (16 - length l)"
  define b where "b = enc_auth rk nr (xor_at 0 (l @ take n ad) auth)"
  have l: "length l \<le> 10" "l \<noteq> []" unfolding l_def by (rule length_ad_length)+
  have first: "xor_at (length l) (take n ad) (xor_at 0 l auth) = xor_at 0 (l @ take n ad) auth"
    using assms(1) l(1) by (intro xor_at_xor_at) (auto simp: n_def)
  have b: "b = fold (mac_step (ccm_cipher nr rk)) (chunks (pad16 (l @ take n ad))) auth"
    using assms(1) l unfolding b_def by (intro mac_last) (auto simp: n_def)
  have *: "pad16 (l @ ad) = pad16 (l @ take n ad) @ pad16 (drop n ad)"
  proof (cases "length ad \<le> 16 - length l")
    case False
    then have "length (l @ take n ad) = 16" using l by (simp add: n_def)
    then have "pad16 ((l @ take n ad) @ drop n ad) = (l @ take n ad) @ pad16 (drop n ad)"
      "pad16 (l @ take n ad) = l @ take n ad"
      using pad16_append [of "l @ take n ad" "drop n ad"] pad16_append [of "l @ take n ad" "[]"] by simp_all
    then show ?thesis by simp
  qed (simp add: n_def)
  have d: "16 dvd length (pad16 (l @ take n ad))" by (rule dvd_pad16)
  have "length b = 16" using assms(1) by (simp add: b length_fold_mac)
  from mac_tail [OF this refl, where p = "drop n ad" and rk = rk and nr = nr] show ?thesis
    unfolding ccm_ad_def Let_def l_def [symmetric] n_def [symmetric] first b_def [symmetric] * chunks_append [OF d]
    by (auto simp: b simp del: drop_drop)
qed

subsection \<open>The whole message\<close>

lemma rfc_flags:
  assumes "M \<le> 16" "b = 0 \<or> b = 1"
  shows "word_of_nat (b * 0x40) OR word_of_nat ((M - 2) div 2 * 8) OR word_of_nat (2 - 1) =
    (word_of_nat (64 * b + 8 * ((M - 2) div 2) + 1) :: u8)"
proof -
  have "(M - 2) div 2 < 8" using assms(1) by auto
  then have "(M - 2) div 2 \<in> {0, 1, 2, 3, 4, 5, 6, 7}" by auto
  then show ?thesis using assms(2) by auto
qed

lemma ccm_b0_rfc: "M \<le> 16 \<Longrightarrow> ccm_b0 2 M nonce (length ad) l = rfc_b0 M nonce ad l"
proof -
  assume "M \<le> 16"
  then have "word_of_nat ((if length ad = 0 then 0 else 1) * 0x40) OR
      word_of_nat ((M - 2) div 2 * 8) OR word_of_nat (2 - 1) =
      (word_of_nat (64 * (if ad = [] then 0 else 1) + 8 * ((M - 2) div 2) + 1) :: u8)"
    using rfc_flags [of M 0] rfc_flags [of M 1] by (cases "ad = []") simp_all
  moreover have "rev [0..<2] = [1, 0 :: nat]" by (simp add: upt_rec)
  ultimately show ?thesis unfolding ccm_b0_def rfc_b0_def Let_def by simp
qed

lemma ad_length_rfc:
  assumes "n \<noteq> 0xffffffff"
  shows "ad_length n = rfc_ad_length n"
proof -
  have "rev [0..<2] = [1, 0 :: nat]" "rev [0..<4] = [3, 2, 1, 0 :: nat]"
    "rev [0..<8] = [7, 6, 5, 4, 3, 2, 1, 0 :: nat]" by (simp_all add: upt_rec)
  then show ?thesis using assms by (simp add: ad_length_def rfc_ad_length_def Let_def)
qed

definition ccm_prefix :: "bytes \<Rightarrow> bytes" where
  "ccm_prefix nonce = 1 # take 11 nonce"

definition ccm_counter :: "bytes \<Rightarrow> u32" where
  "ccm_counter nonce = be32dec [nonce ! 11, nonce ! 12, 0, 0]"

lemma counter_add:
  assumes "j < 2 ^ 16"
  shows "be32dec [x, y, 0, 0] + word_of_nat j = be32dec [x, y, word_of_nat (j div 256), word_of_nat j]"
proof -
  have j: "unat (word_of_nat (j div 256) :: u8) = j div 256" "unat (word_of_nat j :: u8) = j mod 256"
    using assms by (simp_all add: unsigned_of_nat take_bit_eq_mod)
  have d: "j mod 256 + 2 ^ 8 * (j div 256) = j" by simp
  have "unat x < 256" "unat y < 256" by (rule unat_u8_less)+
  then have "2 ^ 16 * unat y + 2 ^ 24 * unat x + j < 2 ^ 32" using assms by simp
  then have "unat (be32dec [x, y, 0, 0] + word_of_nat j) = 2 ^ 16 * unat y + 2 ^ 24 * unat x + j"
    by (simp add: unat_word_ariths unat_be32dec unsigned_of_nat take_bit_eq_mod)
  also have "\<dots> = unat (be32dec [x, y, word_of_nat (j div 256), word_of_nat j])"
    unfolding unat_be32dec j d by simp
  finally show ?thesis by (subst word_unat_eq_iff)
qed

lemma nonce_split: "length nonce = 13 \<Longrightarrow> nonce = take 11 nonce @ [nonce ! 11, nonce ! 12]"
  by (rule nth_equalityI) (auto simp: nth_append less_Suc_eq numeral_eq_Suc)

lemma rfc_counter:
  assumes "length nonce = 13" "j < 2 ^ 16"
  shows "ccm_prefix nonce @ be32enc (ccm_counter nonce + word_of_nat j) =
    1 # nonce @ [word_of_nat (j div 256), word_of_nat j]"
  using assms nonce_split [OF assms(1)]
  by (simp add: ccm_prefix_def ccm_counter_def counter_add be32enc_dec4)

lemma rfc_streams:
  assumes "length nonce = 13" "length m < 2 ^ 16"
  shows "map (\<lambda>j. e (ccm_prefix nonce @ be32enc (ccm_counter nonce + word_of_nat j)))
      [1..<Suc ((length m + 15) div 16)] = map (rfc_stream e nonce) [1..<Suc ((length m + 15) div 16)]"
proof (rule map_cong)
  fix j assume "j \<in> set [1..<Suc ((length m + 15) div 16)]"
  then have "j < 2 ^ 16" using assms(2) by auto
  then show "e (ccm_prefix nonce @ be32enc (ccm_counter nonce + word_of_nat j)) = rfc_stream e nonce j"
    using assms(1) by (simp add: rfc_counter rfc_stream_def)
qed simp

definition ccm_start :: "nat \<Rightarrow> u32 list \<Rightarrow> nat \<Rightarrow> bytes \<Rightarrow> bytes \<Rightarrow> nat \<Rightarrow> ccm_pos" where
  "ccm_start nr rk M nonce ad l =
     (fold (mac_step (ccm_cipher nr rk))
        (if ad = [] then [] else chunks (pad16 (rfc_ad_length (length ad) @ ad)))
        (ccm_cipher nr rk (rfc_b0 M nonce ad l)), ccm_counter nonce, [], 0)"

lemma ccm_init_run:
  assumes "length nonce = 13" "M \<le> 16" "length ad \<noteq> 0xffffffff"
  shows "ccm_run nr rk (ccm_prefix nonce) M (aes_ccm_init nr rk 2 M nonce ad l out)
    (ccm_start nr rk M nonce ad l)"
proof -
  let ?e = "ccm_cipher nr rk"
  have "1 # nonce @ [0, 0] = ccm_prefix nonce @ be32enc (ccm_counter nonce)"
    using rfc_counter [OF assms(1), of 0] by simp
  moreover have "replicate 2 (0 :: u8) = [0, 0]" by (simp add: numeral_2_eq_2)
  moreover have "aesbear_enc rk (ccm_b0 2 M nonce (length ad) l) nr = ?e (rfc_b0 M nonce ad l)"
    using assms(2) by (simp add: ccm_b0_rfc ccm_cipher_def)
  ultimately show ?thesis
    using assms ccm.length_e [of nr rk]
    by (auto simp: ccm_run_def ccm_rep_def aes_ccm_init_def ccm_start_def Let_def ccm_ad_ref ad_length_rfc
        length_fold_mac ccm_prefix_def)
qed

lemma ccm_start_left: "ccm_left (ccm_start nr rk M nonce ad l) = 16 * (2 ^ 16 - 1)"
  by (simp add: ccm_start_def ccm_left_def ccm_counter_def counter16_bytes)

lemma ccm_start_bytes:
  assumes "length nonce = 13" "length m < 2 ^ 16"
  obtains s where
    "map_state (ccm_byte True (ccm_cipher nr rk) (ccm_prefix nonce)) (ccm_start nr rk M nonce ad (length m)) m =
      (s, rfc_encrypt (ccm_cipher nr rk) nonce m)"
    "ccm_final (ccm_cipher nr rk) s = rfc_mac (ccm_cipher nr rk) M nonce ad m"
proof -
  let ?e = "ccm_cipher nr rk" and ?s = "ccm_start nr rk M nonce ad (length m)"
  obtain s q where r: "map_state (ccm_byte True ?e (ccm_prefix nonce)) ?s m = (s, q)" by fastforce
  have "length (fst ?s) = 16" by (simp add: ccm_start_def length_fold_mac ccm.length_e)
  then have "ccm_final ?e s = fold (mac_step ?e) (chunks (pad16 m)) (fst ?s) \<and>
      q = rfc_encrypt ?e nonce m"
    using ccm.bytes_ref [OF _ r [unfolded ccm_start_def]]
    unfolding rfc_streams [OF assms] rfc_encrypt_def ccm_start_def by simp
  then show thesis using r by (intro that [of s]) (simp_all add: rfc_mac_def ccm_start_def)
qed

text \<open>The half of the counter word that belongs to the nonce never changes.\<close>

definition ccm_high :: "ccm_pos \<Rightarrow> bytes" where
  "ccm_high s = (case s of (a, n, ks, i) \<Rightarrow> take 2 (be32enc n))"

lemma take2_Suc: "counter16 n < 2 ^ 16 - 1 \<Longrightarrow> take 2 (be32enc (n + 1)) = take 2 (be32enc n)"
proof -
  assume a: "counter16 n < 2 ^ 16 - 1"
  obtain z y x w where n: "n = be32dec [z, y, x, w]" by (rule be32_bytes)
  show ?thesis unfolding n be32dec_Suc(2) [OF a [unfolded n]] by (simp add: be32enc_dec4)
qed

lemma ccm_high_bytes:
  assumes "map_state (ccm_byte encrypting e c) s p = (s', q)" "length p \<le> ccm_left s" "ccm_index s < 16"
  shows "ccm_high s' = ccm_high s"
  using assms
proof (induction p arbitrary: s q)
  case (Cons x p)
  obtain t y where t: "ccm_byte encrypting e c s x = (t, y)" by (meson surj_pair)
  obtain a n ks i where s: "s = (a, n, ks, i)" by (cases s)
  have *: "ccm_left t = ccm_left s - 1" "ccm_index t < 16"
    using ccm_left_byte [OF t] Cons.prems by auto
  have "counter16 n < 2 ^ 16 - 1" if "i = 0" using Cons.prems(2) that by (auto simp: s ccm_left_def)
  then have "ccm_high t = ccm_high s"
    using t take2_Suc [of n] by (auto simp: s ccm_byte_def Let_def ccm_high_def split: if_splits)
  then show ?case using Cons.IH [of t] Cons.prems * by (auto simp: t split: prod.splits)
qed simp

lemma ccm_tag_rfc:
  assumes "ccm_run nr rk (ccm_prefix nonce) M C s" "length nonce = 13" "M \<le> 16"
    and "ccm_high s = [nonce ! 11, nonce ! 12]"
  shows "\<exists>C'. aes_ccm_tag C = (C', xor_bytes (take M (ccm_final (ccm_cipher nr rk) s))
    (take M (rfc_stream (ccm_cipher nr rk) nonce 0)))"
proof -
  let ?e = "ccm_cipher nr rk" and ?c = "ccm_prefix nonce"
  obtain a n ks i where s: "s = (a, n, ks, i)" by (cases s)
  have C: "length a = 16" "length ?c = 12" "cc_authctr C = a @ ?c @ be32enc n" "cc_i C = i"
    "cc_nr C = nr" "cc_rk C = rk" "cc_M C = M"
    using assms(1) by (auto simp: ccm_run_def ccm_rep_def s)
  define f where "f = ccm_final ?e s"
  have f: "length f = 16" using C(1) ccm.length_e by (simp add: f_def ccm_final_def s)
  have "(if cc_i C \<noteq> 0 then enc_auth (cc_rk C) (cc_nr C) (cc_authctr C) else cc_authctr C) = f @ ?c @ be32enc n"
    using C by (simp add: f_def ccm_final_def s enc_auth_append)
  moreover obtain y x where n: "be32enc n = [nonce ! 11, nonce ! 12, y, x]"
    using assms(4) by (auto simp: ccm_high_def s be32enc_def)
  then have "aes_ccm_zero_ctr (f @ ?c @ be32enc n) = f @ ?c @ [nonce ! 11, nonce ! 12, 0, 0]"
    using f C(2) by (simp add: aes_ccm_zero_ctr_def list_update_append)
  moreover have "?c @ [nonce ! 11, nonce ! 12, 0, 0] = 1 # nonce @ [0, 0]"
    using rfc_counter [OF assms(2), of 0] by (simp add: ccm_counter_def be32enc_dec4)
  ultimately show ?thesis
    using f C assms(3) by (simp add: aes_ccm_tag_def Let_def rfc_stream_def ccm_cipher_def f_def [symmetric]
        xor_bytes_commute)
qed

lemma ccm_message:
  assumes "length nonce = 13" "length m < 2 ^ 16" "M \<le> 16"
  obtains s where
    "map_state (ccm_byte True (ccm_cipher nr rk) (ccm_prefix nonce)) (ccm_start nr rk M nonce ad (length m)) m =
      (s, rfc_encrypt (ccm_cipher nr rk) nonce m)"
    "\<And>C. ccm_run nr rk (ccm_prefix nonce) M C s \<Longrightarrow> \<exists>C'. aes_ccm_tag C = (C', rfc_tag (ccm_cipher nr rk) M nonce ad m)"
proof -
  obtain s where s: "map_state (ccm_byte True (ccm_cipher nr rk) (ccm_prefix nonce))
      (ccm_start nr rk M nonce ad (length m)) m = (s, rfc_encrypt (ccm_cipher nr rk) nonce m)"
    and f: "ccm_final (ccm_cipher nr rk) s = rfc_mac (ccm_cipher nr rk) M nonce ad m"
    using ccm_start_bytes [OF assms(1,2)] by metis
  have "ccm_high s = ccm_high (ccm_start nr rk M nonce ad (length m))"
    using assms(2) by (intro ccm_high_bytes [OF s]) (simp_all add: ccm_start_left, simp add: ccm_index_def ccm_start_def)
  then have "ccm_high s = [nonce ! 11, nonce ! 12]"
    by (simp add: ccm_high_def ccm_start_def ccm_counter_def be32enc_dec4)
  note t = ccm_tag_rfc [where nr = nr and rk = rk and M = M, OF _ assms(1,3) this, unfolded f, folded rfc_tag_def]
  show thesis by (intro that [OF s] t)
qed

lemma rfc_encrypt_involution:
  assumes "\<And>b. length (e b) = 16"
  shows "length (rfc_encrypt e nonce m) = length m" "rfc_encrypt e nonce (rfc_encrypt e nonce m) = m"
proof -
  let ?ks = "concat (map (rfc_stream e nonce) [1..<Suc ((length m + 15) div 16)])"
  have "length ?ks = 16 * ((length m + 15) div 16)"
    using assms by (simp add: length_concat rfc_stream_def comp_def sum_list_triv del: upt_Suc)
  then have le: "length m \<le> length ?ks" by simp
  then show l: "length (rfc_encrypt e nonce m) = length m" by (simp add: rfc_encrypt_def del: upt_Suc)
  have "rfc_encrypt e nonce (rfc_encrypt e nonce m) = xor_bytes ?ks (rfc_encrypt e nonce m)"
    unfolding rfc_encrypt_def [of e nonce "rfc_encrypt e nonce m"] l by simp
  also have "\<dots> = m" unfolding rfc_encrypt_def using le by (rule xor_bytes_cancel)
  finally show "rfc_encrypt e nonce (rfc_encrypt e nonce m) = m" .
qed

lemma ccm_enc_chain:
  assumes "wf_chain ms" "off < chain_len ms" "off + len \<le> chain_len ms" "len < 2 ^ 16"
    and "length nonce = 13" "M \<le> 16" "length ad \<noteq> 0xffffffff"
    and "m = take len (drop off (chain_bytes ms))"
  shows "\<exists>C ms'. aes_ccm_enc_mbuf (aes_ccm_init nr rk 2 M nonce ad len out) ms off len =
      Some (C, ms', rfc_tag (ccm_cipher nr rk) M nonce ad m) \<and>
    chain_bytes ms' = put_at off (rfc_encrypt (ccm_cipher nr rk) nonce m) (chain_bytes ms) \<and>
    chain_shape ms' = chain_shape ms"
proof -
  let ?e = "ccm_cipher nr rk" and ?s = "ccm_start nr rk M nonce ad len"
  obtain pre off' ms1 where sk: "ccm_skip off ms = Some (pre, off', ms1)" "ms = pre @ ms1"
    "off = chain_len pre + off'" "ms1 \<noteq> []" "off' < m_len (hd ms1)"
    using ccm_skip_spec(1) [OF assms(1,2)] by blast
  have wf: "wf_chain pre" "wf_chain ms1" using assms(1) sk(2) by simp_all
  have m: "m = take len (drop off' (chain_bytes ms1))" "length m = len"
    using assms(3,8) sk wf by auto
  obtain s where s: "map_state (ccm_byte True ?e (ccm_prefix nonce)) ?s m = (s, rfc_encrypt ?e nonce m)"
    and t: "\<And>C. ccm_run nr rk (ccm_prefix nonce) M C s \<Longrightarrow> \<exists>C'. aes_ccm_tag C = (C', rfc_tag ?e M nonce ad m)"
    using ccm_message [OF assms(5) _ assms(6), of m] m(2) assms(4) by metis
  have len: "len + off' \<le> chain_len ms1" using assms(3) sk(2,3) by simp
  have left: "len \<le> ccm_left ?s" using assms(4) by (simp add: ccm_start_left)
  have first: "ms1 = [] \<or> off' \<le> m_len (hd ms1)" using sk(5) by simp
  note ccm_enc_pieces.chain_pieces [OF wf(2) first len ccm_init_run [OF assms(5-7)] left s [unfolded m(1)]]
  then obtain C ms' where r: "ccm_chain aes_ccm_enc (aes_ccm_init nr rk 2 M nonce ad len out) off' len ms1 = Some (C, ms')"
    "ccm_run nr rk (ccm_prefix nonce) M C s"
    "chain_bytes ms' = put_at off' (rfc_encrypt ?e nonce m) (chain_bytes ms1)" "chain_shape ms' = chain_shape ms1"
    unfolding m(1) [symmetric] by blast
  show ?thesis
    using r t [OF r(2)] sk wf
    by (auto simp: aes_ccm_enc_mbuf_def put_at_append_right)
qed

lemma ccm_dec_chain:
  assumes "wf_chain ms" "off < chain_len ms" "off + len \<le> chain_len ms" "len < 2 ^ 16"
    and "length nonce = 13" "M \<le> 16" "length ad \<noteq> 0xffffffff"
    and "p = rfc_encrypt (ccm_cipher nr rk) nonce (take len (drop off (chain_bytes ms)))"
    and "ok \<longleftrightarrow> take M tag = rfc_tag (ccm_cipher nr rk) M nonce ad p"
  shows "\<exists>C ms'. aes_ccm_dec_mbuf (aes_ccm_init nr rk 2 M nonce ad len out) ms off len tag =
      Some (C, ms', ok) \<and>
    chain_bytes ms' = put_at off (if ok then p else replicate len 0) (chain_bytes ms) \<and>
    chain_shape ms' = chain_shape ms"
proof -
  let ?e = "ccm_cipher nr rk" and ?s = "ccm_start nr rk M nonce ad len"
  let ?m = "take len (drop off (chain_bytes ms))"
  obtain pre off' ms1 where sk: "ccm_skip off ms = Some (pre, off', ms1)" "ms = pre @ ms1"
    "off = chain_len pre + off'" "ms1 \<noteq> []" "off' < m_len (hd ms1)"
    using ccm_skip_spec(1) [OF assms(1,2)] by blast
  have wf: "wf_chain pre" "wf_chain ms1" using assms(1) sk(2) by simp_all
  have m: "?m = take len (drop off' (chain_bytes ms1))" "length ?m = len"
    using assms(3) sk wf by auto
  note inv = rfc_encrypt_involution [of ?e nonce ?m, OF ccm.length_e]
  have p: "length p = len" "rfc_encrypt ?e nonce p = ?m" using inv m(2) assms(8) by simp_all
  obtain s where s: "map_state (ccm_byte True ?e (ccm_prefix nonce)) ?s p = (s, ?m)"
    and t: "\<And>C. ccm_run nr rk (ccm_prefix nonce) M C s \<Longrightarrow> \<exists>C'. aes_ccm_tag C = (C', rfc_tag ?e M nonce ad p)"
    using ccm_message [OF assms(5) _ assms(6), of p] p assms(4) by metis
  have d: "map_state (ccm_byte False ?e (ccm_prefix nonce)) ?s ?m = (s, p)"
    by (rule map_state_inverse [OF ccm_byte_inverse s])
  have len: "len + off' \<le> chain_len ms1" using assms(3) sk(2,3) by simp
  have left: "len \<le> ccm_left ?s" using assms(4) by (simp add: ccm_start_left)
  have first: "ms1 = [] \<or> off' \<le> m_len (hd ms1)" using sk(5) by simp
  note ccm_dec_pieces.chain_pieces [OF wf(2) first len ccm_init_run [OF assms(5-7)] left d [unfolded m(1)]]
  then obtain C ms' where r: "ccm_chain aes_ccm_dec (aes_ccm_init nr rk 2 M nonce ad len out) off' len ms1 = Some (C, ms')"
    "ccm_run nr rk (ccm_prefix nonce) M C s"
    "chain_bytes ms' = put_at off' p (chain_bytes ms1)" "chain_shape ms' = chain_shape ms1"
    by blast
  have M: "cc_M C = M" using r(2) by (simp add: ccm_run_def)
  obtain C' where v: "aes_ccm_verify C tag = (C', ok)"
    using t [OF r(2)] assms(9) M by (auto simp: aes_ccm_verify_def)
  show ?thesis
  proof (cases ok)
    case True
    then show ?thesis using r v sk wf by (auto simp: aes_ccm_dec_mbuf_def put_at_append_right)
  next
    case False
    note sh = chain_shape_eq [OF r(4)]
    have hd: "m_len (hd ms') = m_len (hd ms1)"
      using r(4) sk(4) sh(2) by (metis hd_map mbuf_shapeD(3))
    have "\<exists>u ms2. ccm_chain zero_piece () off' len ms' = Some (u, ms2) \<and> True \<and>
        chain_bytes ms2 = put_at off' (replicate len 0) (chain_bytes ms') \<and> chain_shape ms2 = chain_shape ms'"
      using sh wf sk assms(3) hd
      by (intro zero_pieces.chain_pieces [where t = len and t' = len]) (auto simp: map_state_zero)
    moreover have "put_at off' (replicate len 0) (put_at off' p (chain_bytes ms1)) =
        put_at off' (replicate len 0) (chain_bytes ms1)"
      using p(1) len wf by (simp add: put_at_def)
    ultimately show ?thesis
      using False r v sk wf by (auto simp: aes_ccm_dec_mbuf_def put_at_append_right)
  qed
qed

lemma rfc_cong:
  assumes "\<And>b. length b = 16 \<Longrightarrow> e b = e' b" "\<And>b. length (e b) = 16" "length nonce = 13"
  shows "rfc_encrypt e nonce m = rfc_encrypt e' nonce m" "rfc_tag e M nonce ad m = rfc_tag e' M nonce ad m"
proof -
  have s: "rfc_stream e nonce = rfc_stream e' nonce"
    using assms(3) by (intro ext) (simp add: rfc_stream_def assms(1))
  then show "rfc_encrypt e nonce m = rfc_encrypt e' nonce m" by (simp add: rfc_encrypt_def)
  have f: "fold (mac_step e) bs x = fold (mac_step e') bs x"
    if "length x = 16" "\<forall>b \<in> set bs. length b = 16" for bs x
    using that
  proof (induction bs arbitrary: x)
    case (Cons b bs)
    have "mac_step e b x = mac_step e' b x" using Cons.prems by (simp add: mac_step_def assms(1))
    moreover have "length (mac_step e b x) = 16" by (simp add: mac_step_def assms(2))
    ultimately show ?case using Cons by simp
  qed simp
  have b0: "e (rfc_b0 M nonce ad (length m)) = e' (rfc_b0 M nonce ad (length m))"
    using assms(1,3) by (simp add: rfc_b0_def)
  then have "length (e' (rfc_b0 M nonce ad (length m))) = 16" using assms(2) by metis
  then have "rfc_mac e M nonce ad m = rfc_mac e' M nonce ad m"
    unfolding rfc_mac_def b0 by (intro f) (auto simp: length_chunk split: if_splits)
  then show "rfc_tag e M nonce ad m = rfc_tag e' M nonce ad m" by (simp add: rfc_tag_def s)
qed

lemma rfc_fips:
  assumes "valid_key key" "length rk = 60" "length nonce = 13"
    and "aesbear_setkey rk key (key_rounds (length key)) = Some rk'"
  shows "rfc_encrypt (ccm_cipher (key_rounds (length key)) rk') nonce m = rfc_encrypt (aes_encrypt key) nonce m"
    "rfc_tag (ccm_cipher (key_rounds (length key)) rk') M nonce ad m = rfc_tag (aes_encrypt key) M nonce ad m"
  using keysched_enc_fips [OF assms(1,2)] assms(3) aesbear_setkey_Some [OF assms(1,4)]
  by (auto intro!: rfc_cong simp: ccm_cipher_def ccm.length_e [unfolded ccm_cipher_def])

subsection \<open>Properties\<close>



text \<open>
  C36.  A message of no bytes at the very end of a chain makes the walk to its first buffer run
  over the null pointer behind the last one, in both directions.
\<close>

theorem aes_ccm_mbuf_empty_crash:
  assumes "wf_chain ms"
  shows "aes_ccm_enc_mbuf C ms (chain_len ms) 0 = None \<and> aes_ccm_dec_mbuf C ms (chain_len ms) 0 tag = None"
  using ccm_skip_spec(2) [OF assms order_refl] by (simp add: aes_ccm_enc_mbuf_def aes_ccm_dec_mbuf_def)

lemma rfc_ad_length_differs: "ad_length 0xffffffff \<noteq> rfc_ad_length 0xffffffff"
  by (simp add: ad_length_def rfc_ad_length_def Let_def)

definition ex_aes_key :: bytes where "ex_aes_key = replicate 16 5"

lemma ex_aes_key_facts [simp]: "valid_key ex_aes_key" "length ex_aes_key = 16" "key_rounds 16 = 10"
  by (simp_all add: ex_aes_key_def valid_key_def key_rounds_def)

lemma ex_setkey: "aesbear_setkey (replicate 60 0) ex_aes_key 10 =
    Some (snd (br_aes_ct_keysched (replicate 60 0) ex_aes_key 16))"
  by (simp add: aesbear_setkey_def)

lemma length_rfc_tag: "M \<le> 16 \<Longrightarrow> length (rfc_tag (ccm_cipher nr rk) M nonce ad m) = M"
  by (simp add: rfc_tag_def rfc_mac_def rfc_stream_def ccm.length_e length_fold_mac)

lemma ex_rfc_tag_length:
  assumes "length nonce = 13" "M \<le> 16"
  shows "length (rfc_tag (aes_encrypt ex_aes_key) M nonce ad m) = M"
proof -
  let ?rk = "snd (br_aes_ct_keysched (replicate 60 0) ex_aes_key 16)"
  have "rfc_tag (ccm_cipher 10 ?rk) M nonce ad m = rfc_tag (aes_encrypt ex_aes_key) M nonce ad m"
    using rfc_fips(2) [of ex_aes_key "replicate 60 0" nonce ?rk M ad m] assms ex_setkey by simp
  then show ?thesis using length_rfc_tag [OF assms(2), of 10 ?rk nonce ad m] by simp
qed

lemma ex_rfc_length:
  assumes "length nonce = 13"
  shows "length (rfc_encrypt (aes_encrypt ex_aes_key) nonce m) = length m"
proof -
  let ?rk = "snd (br_aes_ct_keysched (replicate 60 0) ex_aes_key 16)"
  have "rfc_encrypt (ccm_cipher 10 ?rk) nonce m = rfc_encrypt (aes_encrypt ex_aes_key) nonce m"
    using rfc_fips(1) [of ex_aes_key "replicate 60 0" nonce ?rk m] assms ex_setkey by simp
  then show ?thesis using rfc_encrypt_involution(1) [of "ccm_cipher 10 ?rk" nonce m, OF ccm.length_e] by simp
qed



theorem aes_ccm_mbuf_empty_crash_witness:
  "aes_ccm_enc_mbuf (aes_ccm_init 10 [] 2 8 (replicate 13 1) [] 0 []) ex_packet 4 0 = None"
  using aes_ccm_mbuf_empty_crash [of ex_packet] by simp

end
