(* ===== verification/Ccmp.thy ===== *)
theory Ccmp
  imports Aes_Ccm Tkip
begin

text \<open>
  The CCMP module (\<open>net80211/ieee80211_crypto_ccmp.c\<close>): AES-CCM over the payload of a frame,
  with the nonce and the additional authenticated data built from the 802.11 header, the
  packet number in the privacy header and the replay check.  The context \<open>struct ccmp_ctx\<close> is
  an explicit argument and result.  \<open>None\<close> is a null pointer access or panic in AES-CCM.
\<close>

subsection \<open>Context and key\<close>

record ccmp_ctx =
  cc_aes :: "u32 list"

definition ccmp_attach :: "bool \<Rightarrow> 'b com_scheme \<Rightarrow> ccmp_ctx option \<times> 'b com_scheme" where
  "ccmp_attach alloc ic =
     (if \<not> alloc then (None, inc_stat is_crypto_nomem ic) else (Some \<lparr>cc_aes = replicate 60 0\<rparr>, ic))"

definition ccmp_setkey :: "'a ieee80211_key_scheme \<Rightarrow> ccmp_ctx \<Rightarrow> (bool \<times> ccmp_ctx) option" where
  "ccmp_setkey k ctx =
     (if wk_keylen k \<noteq> 128 div 8 then Some (False, ctx)
      else if swcrypt k
      then map_option (\<lambda>(nrounds, rk). (True, ctx\<lparr>cc_aes := rk\<rparr>))
             (aes_setenckey128 (cc_aes ctx) (take 16 (wk_key k)))
      else Some (True, ctx))"

subsection \<open>Nonce and additional data\<close>

definition IEEE80211_SEQ_FRAG_MASK :: u16 where "IEEE80211_SEQ_FRAG_MASK = 0x000f"

text \<open>The priority bits of \<open>i_qos[0]\<close>, in \<open>ieee80211_qosframe\<close> or \<open>ieee80211_qosframe_addr4\<close>.\<close>

definition ccmp_qos :: "bytes \<Rightarrow> u8" where
  "ccmp_qos wh =
     (if \<not> ieee80211_has_qos wh then 0
      else if IEEE80211_IS_DSTODS wh then wh ! 30 AND 0x0f else wh ! 24 AND 0x0f)"

definition ccmp_nonce :: "bytes \<Rightarrow> u64 \<Rightarrow> bytes" where
  "ccmp_nonce wh pn =
     ccmp_qos wh # i_addr2 wh @
       [ucast (drop_bit 40 pn), ucast (drop_bit 32 pn), ucast (drop_bit 24 pn),
        ucast (drop_bit 16 pn), ucast (drop_bit 8 pn), ucast pn]"

definition ccmp_ad :: "bytes \<Rightarrow> bytes" where
  "ccmp_ad wh =
     [i_fc wh 0 AND 0x8f, i_fc wh 1 AND 0xc7] @ i_addr1 wh @ i_addr2 wh @ i_addr3 wh @
     [i_seq wh ! 0 AND ucast IEEE80211_SEQ_FRAG_MASK, 0] @
     (if IEEE80211_IS_DSTODS wh then i_addr4 wh else []) @
     (if ieee80211_has_qos wh then [ccmp_qos wh, 0] else [])"

definition ccmp_init_blocks :: "bytes \<Rightarrow> u32 list \<Rightarrow> bytes \<Rightarrow> u64 \<Rightarrow> nat \<Rightarrow> aes_ccm" where
  "ccmp_init_blocks stale rk wh pn data_len =
     aes_ccm_init 10 rk 2 IEEE80211_WEP_MICLEN (ccmp_nonce wh pn) (ccmp_ad wh) data_len stale"

subsection \<open>Encryption and decryption\<close>

text \<open>\<open>stale\<close> is the contents of the uninitialised \<open>struct aes_ccm\<close> on the stack.\<close>

definition ccmp_encrypt ::
  "bytes option list \<Rightarrow> bytes \<Rightarrow> 'a ieee80211_key_scheme \<Rightarrow> ccmp_ctx \<Rightarrow> 'b com_scheme \<Rightarrow> chain \<Rightarrow> nat \<Rightarrow>
   (bool \<times> 'b com_scheme \<times> chain) option" where
  "ccmp_encrypt mems stale key ctx ic m hdrlen =
     (let ic1 = inc_stat is_crypto_ccmp ic;
          wh = mtod m;
          data_len = uint_sub (pkt_len m) (hdrlen + ic_header cipher_ccmp);
          C = ccmp_init_blocks stale (cc_aes ctx) wh (wk_keytsc key) data_len
      in case aes_ccm_enc_mbuf C m (hdrlen + ic_header cipher_ccmp) data_len of
           None \<Rightarrow> None
         | Some (C', m1, mic) \<Rightarrow>
             (case m_append mems m1 (take (ic_trailer cipher_ccmp) mic) of (ok, m2) \<Rightarrow> Some (ok, ic1, m2)))"

definition ccmp_decrypt ::
  "bytes \<Rightarrow> 'a ieee80211_key_scheme \<Rightarrow> ccmp_ctx \<Rightarrow> u64 \<Rightarrow> 'b com_scheme \<Rightarrow> chain \<Rightarrow> nat \<Rightarrow>
   (bool \<times> 'b com_scheme \<times> chain) option" where
  "ccmp_decrypt stale key ctx pn ic m hdrlen =
     (let ic1 = inc_stat is_crypto_ccmp ic;
          wh = mtod m;
          data_len = uint_sub (pkt_len m) (hdrlen + ic_header cipher_ccmp + ic_trailer cipher_ccmp);
          C = ccmp_init_blocks stale (cc_aes ctx) wh pn data_len;
          mic = m_copydata m (uint_sub (pkt_len m) (ic_trailer cipher_ccmp)) (ic_trailer cipher_ccmp)
      in case aes_ccm_dec_mbuf C m (hdrlen + ic_header cipher_ccmp) data_len mic of
           None \<Rightarrow> None
         | Some (C', m1, ok) \<Rightarrow>
             if \<not> ok then Some (False, inc_stat is_rx_ccmpmic ic1, m1) else Some (True, ic1, m1))"

subsection \<open>Encapsulation and decapsulation\<close>

definition ccmp_encap ::
  "bytes option list \<Rightarrow> bytes \<Rightarrow> 'a ieee80211_key_scheme \<Rightarrow> ccmp_ctx \<Rightarrow> 'b com_scheme \<Rightarrow> chain \<Rightarrow> u8 \<Rightarrow>
   (bool \<times> 'a ieee80211_key_scheme \<times> 'b com_scheme \<times> chain) option" where
  "ccmp_encap mems stale k ctx ic m keyid =
     (let hdrlen = ieee80211_hdrspace (ic_flags ic) (mtod m);
          k1 = k\<lparr>wk_keytsc := wk_keytsc k + 1\<rparr>;
          tsc = wk_keytsc k1;
          m1 = m_poke m hdrlen
            [ucast tsc, ucast (drop_bit 8 tsc), 0, keyid OR IEEE80211_WEP_EXTIV,
             ucast (drop_bit 16 tsc), ucast (drop_bit 24 tsc), ucast (drop_bit 32 tsc), ucast (drop_bit 40 tsc)]
      in if swcrypt k1
         then map_option (\<lambda>(ok, ic1, m2). (ok, k1, ic1, m2)) (ccmp_encrypt mems stale k1 ctx ic m1 hdrlen)
         else Some (True, k1, ic, m1))"

definition ccmp_decap ::
  "bytes \<Rightarrow> 'a ieee80211_key_scheme \<Rightarrow> ccmp_ctx \<Rightarrow> 'b com_scheme \<Rightarrow> chain \<Rightarrow> nat \<Rightarrow>
   (bool \<times> 'a ieee80211_key_scheme \<times> 'b com_scheme \<times> chain) option" where
  "ccmp_decap stale k ctx ic m hdrlen =
     (let wh = mtod m; ivp = drop hdrlen (mtod m)
      in if \<not> has_flag (ivp ! IEEE80211_WEP_IVLEN) IEEE80211_WEP_EXTIV
         then Some (False, k, inc_stat is_rx_ccmpformat ic, m)
         else
           let pn = READ_6 (ivp ! 0) (ivp ! 1) (ivp ! 4) (ivp ! 5) (ivp ! 6) (ivp ! 7)
           in if pn \<le> wk_keyrsc k
              then Some (False, k, inc_stat is_rx_ccmpreplay (ieee80211_notify_replay_failure wh k pn ic), m)
              else
                case (if swcrypt k then ccmp_decrypt stale k ctx pn ic m hdrlen else Some (True, ic, m)) of
                  None \<Rightarrow> None
                | Some (ok, ic1, m1) \<Rightarrow>
                    if \<not> ok then Some (False, k, ic1, m1)
                    else Some (True, k\<lparr>wk_keyrsc := pn\<rparr>, ic1, strip_crypto cipher_ccmp m1 hdrlen))"

definition ccmp_enmic :: "chain \<Rightarrow> bool" where "ccmp_enmic m \<longleftrightarrow> True"
definition ccmp_demic :: "chain \<Rightarrow> bool" where "ccmp_demic m \<longleftrightarrow> True"

subsection \<open>The header as bytes of the frame\<close>

lemma ccmp_hdr_cong:
  assumes "take n wh = take n wh'" "ieee80211_hdrsize wh \<le> n" "ieee80211_hdrsize wh \<le> length wh"
  shows "ccmp_nonce wh pn = ccmp_nonce wh' pn" "ccmp_ad wh = ccmp_ad wh'"
proof -
  have n: "24 \<le> n" using hdrsize_bounds(1) [of wh] assms(2) by simp
  have at: "wh ! i = wh' ! i" if "i < n" for i using arg_cong [OF assms(1), of "\<lambda>x. x ! i"] that by simp
  have slice: "take k (drop i wh) = take k (drop i wh')" if "i + k \<le> n" for i k
    using arg_cong [OF assms(1), of "\<lambda>x. take k (drop i x)"] that by (simp add: drop_take min_absorb1)
  have fc: "i_fc wh 0 = i_fc wh' 0" "i_fc wh 1 = i_fc wh' 1" using at n by (simp_all add: i_fc_def)
  then have flags: "IEEE80211_IS_DSTODS wh = IEEE80211_IS_DSTODS wh'" "ieee80211_has_qos wh = ieee80211_has_qos wh'"
    by (simp_all add: IEEE80211_IS_DSTODS_def ieee80211_has_qos_def)
  have size: "ieee80211_hdrsize wh = 24 + (if IEEE80211_IS_DSTODS wh then 6 else 0) + (if ieee80211_has_qos wh then 2 else 0)"
    by (simp add: ieee80211_hdrsize_def IEEE80211_IS_DSTODS_def sizeof_frame_def IEEE80211_ADDR_LEN_def)
  have "wh ! 24 = wh' ! 24" if "ieee80211_has_qos wh" using at that size assms(2) by simp
  moreover have "wh ! 30 = wh' ! 30" if "ieee80211_has_qos wh" "IEEE80211_IS_DSTODS wh"
    using at that size assms(2) by simp
  ultimately have qos: "ccmp_qos wh = ccmp_qos wh'" by (auto simp: ccmp_qos_def flags)
  have a: "i_addr1 wh = i_addr1 wh'" "i_addr2 wh = i_addr2 wh'" "i_addr3 wh = i_addr3 wh'" "i_seq wh = i_seq wh'"
    using slice n by (simp_all add: i_addr1_def i_addr2_def i_addr3_def i_seq_def)
  have "i_addr4 wh = i_addr4 wh'" if "IEEE80211_IS_DSTODS wh"
    using slice that size assms(2) by (simp add: i_addr4_def)
  then show "ccmp_nonce wh pn = ccmp_nonce wh' pn" "ccmp_ad wh = ccmp_ad wh'"
    using a qos fc flags by (auto simp: ccmp_nonce_def ccmp_ad_def)
qed

lemma ccmp_lengths:
  assumes "24 \<le> length wh"
  shows "length (ccmp_nonce wh pn) = 13" "length (ccmp_ad wh) \<noteq> 0xffffffff"
proof -
  show "length (ccmp_nonce wh pn) = 13" using assms by (simp add: ccmp_nonce_def i_addr2_def)
  have "length (ccmp_ad wh) \<le> 30"
    by (auto simp: ccmp_ad_def i_addr1_def i_addr2_def i_addr3_def i_addr4_def min_def)
  then show "length (ccmp_ad wh) \<noteq> 0xffffffff" by simp
qed

lemma ccmp_mtod:
  assumes "wf_packet m" "ieee80211_hdrsize (mtod m) \<le> hdrlen" "hdrlen \<le> front_len m"
  shows "ccmp_nonce (mtod m) pn = ccmp_nonce (chain_bytes m) pn" "ccmp_ad (mtod m) = ccmp_ad (chain_bytes m)"
proof -
  have t: "take hdrlen (mtod m) = take hdrlen (chain_bytes m)" using assms(1,3) by (rule take_mtod)
  have "hdrlen \<le> length (chain_bytes m)" using assms(3) front_len_le [OF assms(1)] by simp
  then have "hdrlen \<le> length (mtod m)" using arg_cong [OF t, of length] by simp
  then have "ieee80211_hdrsize (mtod m) \<le> length (mtod m)" using assms(2) by simp
  from ccmp_hdr_cong [OF t assms(2) this]
  show "ccmp_nonce (mtod m) pn = ccmp_nonce (chain_bytes m) pn" "ccmp_ad (mtod m) = ccmp_ad (chain_bytes m)" .
qed

lemma hdrsize_le_hdrspace: "ieee80211_hdrsize wh \<le> ieee80211_hdrspace fl wh"
  using roundup4_bounds(1) by (simp add: ieee80211_hdrspace_def Let_def)

text \<open>A context set up for software encryption with the key.\<close>

definition ccmp_keyed :: "'a ieee80211_key_scheme \<Rightarrow> ccmp_ctx \<Rightarrow> bool" where
  "ccmp_keyed k ctx \<longleftrightarrow> 16 \<le> length (wk_key k) \<and>
     (\<exists>rk. length rk = 60 \<and> aesbear_setkey rk (take 16 (wk_key k)) 10 = Some (cc_aes ctx))"

abbreviation ccmp_cipher :: "'a ieee80211_key_scheme \<Rightarrow> bytes \<Rightarrow> bytes" where
  "ccmp_cipher k \<equiv> aes_encrypt (take 16 (wk_key k))"

lemma ccmp_rfc_fips:
  assumes "ccmp_keyed k ctx" "length nonce = 13"
  shows "rfc_encrypt (ccm_cipher 10 (cc_aes ctx)) nonce m = rfc_encrypt (ccmp_cipher k) nonce m"
    "rfc_tag (ccm_cipher 10 (cc_aes ctx)) M nonce ad m = rfc_tag (ccmp_cipher k) M nonce ad m"
proof -
  obtain rk where rk: "length rk = 60" "aesbear_setkey rk (take 16 (wk_key k)) 10 = Some (cc_aes ctx)"
    and k: "length (take 16 (wk_key k)) = 16"
    using assms(1) by (auto simp: ccmp_keyed_def)
  have "valid_key (take 16 (wk_key k))" "key_rounds (length (take 16 (wk_key k))) = 10"
    using k by (simp_all add: valid_key_def key_rounds_def)
  then show "rfc_encrypt (ccm_cipher 10 (cc_aes ctx)) nonce m = rfc_encrypt (ccmp_cipher k) nonce m"
    "rfc_tag (ccm_cipher 10 (cc_aes ctx)) M nonce ad m = rfc_tag (ccmp_cipher k) M nonce ad m"
    using rfc_fips [of "take 16 (wk_key k)" rk nonce "cc_aes ctx"] rk assms(2) by simp_all
qed

lemma ccmp_rfc_lengths:
  assumes "ccmp_keyed k ctx" "length nonce = 13"
  shows "length (rfc_encrypt (ccmp_cipher k) nonce m) = length m"
    "rfc_encrypt (ccmp_cipher k) nonce (rfc_encrypt (ccmp_cipher k) nonce m) = m"
    "M \<le> 16 \<Longrightarrow> length (rfc_tag (ccmp_cipher k) M nonce ad m) = M"
  using rfc_encrypt_involution [of "ccm_cipher 10 (cc_aes ctx)" nonce m, OF ccm.length_e]
    length_rfc_tag [of M 10 "cc_aes ctx" nonce ad m]
  by (simp_all add: ccmp_rfc_fips [OF assms])

lemma ccmp_setkey_keyed:
  assumes "wf_key k" "swcrypt k" "length (cc_aes ctx) = 60" "ccmp_setkey k ctx = Some (True, ctx')"
  shows "ccmp_keyed k ctx'"
  using assms
  by (auto simp: ccmp_setkey_def ccmp_keyed_def aes_setenckey128_def wf_key_def wep_lens split: if_splits
      intro!: exI [of _ "cc_aes ctx"])

subsection \<open>Software encryption\<close>

text \<open>The privacy header: the packet number in the order of the standard.\<close>

definition pn_header :: "u64 \<Rightarrow> u8 \<Rightarrow> bytes" where
  "pn_header pn keyid =
     [ucast pn, ucast (drop_bit 8 pn), 0, keyid OR IEEE80211_WEP_EXTIV,
      ucast (drop_bit 16 pn), ucast (drop_bit 24 pn), ucast (drop_bit 32 pn), ucast (drop_bit 40 pn)]"

definition read_pn :: "bytes \<Rightarrow> u64" where
  "read_pn ivp = READ_6 (ivp ! 0) (ivp ! 1) (ivp ! 4) (ivp ! 5) (ivp ! 6) (ivp ! 7)"

lemma length_pn_header [simp]: "length (pn_header pn keyid) = 8"
  by (simp add: pn_header_def)

lemma read_pn_header: "read_pn (pn_header pn keyid @ rest) = take_bit 48 pn"
  using READ_6_bits [of pn] by (simp add: read_pn_def pn_header_def)

lemma pn_header_extiv: "has_flag (pn_header pn keyid ! 3) IEEE80211_WEP_EXTIV"
proof -
  have "(keyid OR 0x20) AND 0x20 = (0x20 :: u8)" by (auto simp: bit_eq_iff bit_simps)
  then show ?thesis by (simp add: has_flag_def pn_header_def IEEE80211_WEP_EXTIV_def)
qed

text \<open>A sealed frame: the clear header, the encrypted payload and the tag over both.\<close>

definition ccmp_seal :: "'a ieee80211_key_scheme \<Rightarrow> nat \<Rightarrow> u64 \<Rightarrow> bytes \<Rightarrow> bytes" where
  "ccmp_seal k off pn frame =
     (let nonce = ccmp_nonce frame pn; payload = drop off frame
      in take off frame @ rfc_encrypt (ccmp_cipher k) nonce payload @
         rfc_tag (ccmp_cipher k) 8 nonce (ccmp_ad frame) payload)"

lemma ccmp_encrypt_sw:
  assumes "wf_packet m" "ieee80211_hdrsize (mtod m) \<le> hdrlen" "hdrlen + 8 \<le> front_len m"
    and "hdrlen + 8 < pkt_len m" "pkt_len m < 2 ^ 16" "ccmp_keyed k ctx" "length cl = MCLBYTES + MH_ALIGN"
  obtains m2 where "ccmp_encrypt [Some cl] stale k ctx ic m hdrlen = Some (True, inc_stat is_crypto_ccmp ic, m2)"
    "wf_packet m2" "front_len m \<le> front_len m2"
    "chain_bytes m2 = ccmp_seal k (hdrlen + 8) (wk_keytsc k) (chain_bytes m)"
proof -
  define nonce where "nonce = ccmp_nonce (chain_bytes m) (wk_keytsc k)"
  define ad where "ad = ccmp_ad (chain_bytes m)"
  define n where "n = pkt_len m - (hdrlen + 8)"
  define p where "p = take n (drop (hdrlen + 8) (chain_bytes m))"
  let ?E = "ccmp_cipher k"
  have len: "length (chain_bytes m) = pkt_len m" "chain_len m = pkt_len m"
    using assms(1) wf_packetD(1) [OF assms(1)] by (simp_all add: pkt_len_bytes)
  have h24: "24 \<le> length (chain_bytes m)"
    using hdrsize_bounds(1) [of "mtod m"] assms(2,4) len by simp
  note hdr = ccmp_mtod [OF assms(1,2)] and lens = ccmp_lengths [OF h24]
  have C: "ccmp_init_blocks stale (cc_aes ctx) (mtod m) (wk_keytsc k) n =
      aes_ccm_init 10 (cc_aes ctx) 2 8 nonce ad n stale"
    using assms(3) hdr by (simp add: ccmp_init_blocks_def nonce_def ad_def wep_lens)
  have "\<exists>C m1. aes_ccm_enc_mbuf (aes_ccm_init 10 (cc_aes ctx) 2 8 nonce ad n stale) m (hdrlen + 8) n =
      Some (C, m1, rfc_tag ?E 8 nonce ad p) \<and>
      chain_bytes m1 = put_at (hdrlen + 8) (rfc_encrypt ?E nonce p) (chain_bytes m) \<and> chain_shape m1 = chain_shape m"
    using ccm_enc_chain [OF wf_packetD(1) [OF assms(1)], of "hdrlen + 8" n nonce 8 ad p 10 "cc_aes ctx" stale]
      assms(4,5) len lens
    by (simp add: n_def nonce_def ad_def p_def ccmp_rfc_fips [OF assms(6)])
  then obtain C m1 where m1: "aes_ccm_enc_mbuf (aes_ccm_init 10 (cc_aes ctx) 2 8 nonce ad n stale) m (hdrlen + 8) n =
      Some (C, m1, rfc_tag ?E 8 nonce ad p)"
    "chain_bytes m1 = put_at (hdrlen + 8) (rfc_encrypt ?E nonce p) (chain_bytes m)" "chain_shape m1 = chain_shape m"
    by blast
  have p: "p = drop (hdrlen + 8) (chain_bytes m)" "length p = n" using len by (simp_all add: p_def n_def)
  have lp: "length (rfc_encrypt ?E nonce p) = length p" "length (rfc_tag ?E 8 nonce ad p) = 8"
    using ccmp_rfc_lengths [OF assms(6), of nonce] lens(1) by (simp_all add: nonce_def)
  note pk = chain_shape_packet [OF m1(3) assms(1)]
  have fits: "length (rfc_tag ?E 8 nonce ad p) \<le> MLEN" unfolding lp(2) MLEN_def by simp
  obtain m2 where m2: "m_append [Some cl] m1 (rfc_tag ?E 8 nonce ad p) = (True, m2)"
    "chain_bytes m2 = chain_bytes m1 @ rfc_tag ?E 8 nonce ad p" "wf_packet m2" "front_len m1 \<le> front_len m2"
    using m_append_small [OF pk(1) assms(7) fits] by metis
  have "chain_bytes m2 = ccmp_seal k (hdrlen + 8) (wk_keytsc k) (chain_bytes m)"
    using m2(2) m1(2) lp p len(1) assms(4)
    by (simp add: ccmp_seal_def Let_def nonce_def [symmetric] ad_def [symmetric] put_at_def n_def)
  moreover have "ccmp_encrypt [Some cl] stale k ctx ic m hdrlen = Some (True, inc_stat is_crypto_ccmp ic, m2)"
    using m2(1) m1(1) C lp assms(4) by (simp add: ccmp_encrypt_def Let_def n_def wep_lens)
  ultimately show thesis using that m2(3,4) pk(2) by simp
qed

lemma poke_header:
  assumes "wf_packet m" "hdrlen + length iv \<le> front_len m" "24 \<le> hdrlen"
    and "hdrlen = ieee80211_hdrspace fl (mtod m)"
  shows "hdrlen = ieee80211_hdrspace fl (mtod (m_poke m hdrlen iv))"
    "ccmp_nonce (chain_bytes (m_poke m hdrlen iv)) pn = ccmp_nonce (chain_bytes m) pn"
    "ccmp_ad (chain_bytes (m_poke m hdrlen iv)) = ccmp_ad (chain_bytes m)"
proof -
  let ?m = "m_poke m hdrlen iv"
  note m1 = m_poke_chain [OF assms(1,2)]
  have le: "hdrlen + length iv \<le> length (chain_bytes m)" using assms(2) front_len_le [OF assms(1)] by simp
  have t: "take hdrlen (chain_bytes ?m) = take hdrlen (chain_bytes m)" using m1 le by simp
  have fl: "hdrlen \<le> front_len ?m" "hdrlen \<le> front_len m" using m1 assms(2) by simp_all
  have nth: "mtod ?m ! i = mtod m ! i" if "i < hdrlen" for i
    using take_mtod [OF m1(2) fl(1)] take_mtod [OF assms(1) fl(2)] t that by (metis nth_take)
  show h: "hdrlen = ieee80211_hdrspace fl (mtod ?m)"
    using assms(3,4) hdrspace_cong [of "mtod ?m" "mtod m" fl] nth [of 0] nth [of 1] by simp
  have "ieee80211_hdrsize (chain_bytes ?m) \<le> hdrlen"
    using h hdrsize_le_hdrspace [of "mtod ?m" fl] hdrsize_cong [of "chain_bytes ?m" "mtod ?m"]
      nth_mtod [OF m1(2), of 0] nth_mtod [OF m1(2), of 1] fl(1) assms(3) by simp
  moreover have "hdrlen \<le> length (chain_bytes ?m)" using m1 le by simp
  ultimately show "ccmp_nonce (chain_bytes ?m) pn = ccmp_nonce (chain_bytes m) pn"
    "ccmp_ad (chain_bytes ?m) = ccmp_ad (chain_bytes m)"
    using ccmp_hdr_cong [OF t] by simp_all
qed

lemma ccmp_encap_sw:
  assumes "wf_packet ms" "hdrlen = ieee80211_hdrspace (ic_flags ic) (mtod ms)" "hdrlen + 8 \<le> front_len ms"
    and "hdrlen + 8 < pkt_len ms" "pkt_len ms < 2 ^ 16" "swcrypt k" "ccmp_keyed k ctx" "length cl = MCLBYTES + MH_ALIGN"
    and "pn = wk_keytsc k + 1" "nonce = ccmp_nonce (chain_bytes ms) pn" "ad = ccmp_ad (chain_bytes ms)"
    and "p = drop (hdrlen + 8) (chain_bytes ms)"
  obtains ms1 where
    "ccmp_encap [Some cl] stale k ctx ic ms keyid = Some (True, k\<lparr>wk_keytsc := pn\<rparr>, inc_stat is_crypto_ccmp ic, ms1)"
    "wf_packet ms1" "front_len ms \<le> front_len ms1"
    "chain_bytes ms1 = take hdrlen (chain_bytes ms) @ pn_header pn keyid @
       rfc_encrypt (ccmp_cipher k) nonce p @ rfc_tag (ccmp_cipher k) 8 nonce ad p"
proof -
  let ?m = "m_poke ms hdrlen (pn_header pn keyid)"
  define k1 where "k1 = k\<lparr>wk_keytsc := pn\<rparr>"
  have h24: "24 \<le> hdrlen" using hdrspace_bounds(1) assms(2) by simp
  have fits: "hdrlen + length (pn_header pn keyid) \<le> front_len ms" using assms(3) by simp
  note m1 = m_poke_chain [OF assms(1) fits]
  note hd = poke_header [OF assms(1) fits h24 assms(2)]
  have le: "hdrlen + 8 \<le> length (chain_bytes ms)" using assms(3) front_len_le [OF assms(1)] by simp
  have size: "ieee80211_hdrsize (mtod ?m) \<le> hdrlen" using hd(1) hdrsize_le_hdrspace [of "mtod ?m"] by metis
  have pl: "pkt_len ?m = pkt_len ms" using m1 le by (simp add: pkt_len_bytes assms(1) m1(2))
  have keyed: "ccmp_keyed k1 ctx" using assms(7) by (simp add: ccmp_keyed_def k1_def)
  have fl: "hdrlen + 8 \<le> front_len ?m" using m1 assms(3) by simp
  obtain ms1 where e: "ccmp_encrypt [Some cl] stale k1 ctx ic ?m hdrlen = Some (True, inc_stat is_crypto_ccmp ic, ms1)"
    and r: "wf_packet ms1" "front_len ?m \<le> front_len ms1"
      "chain_bytes ms1 = ccmp_seal k1 (hdrlen + 8) (wk_keytsc k1) (chain_bytes ?m)"
    by (rule ccmp_encrypt_sw [OF m1(2) size fl assms(4,5) [folded pl] keyed assms(8)])
  have kk: "k\<lparr>wk_keytsc := wk_keytsc k + 1\<rparr> = k1" and kt: "wk_keytsc k1 = pn"
    by (simp_all add: k1_def assms(9))
  have "swcrypt k1" using assms(6) by (simp add: swcrypt_def k1_def)
  then have "ccmp_encap [Some cl] stale k ctx ic ms keyid = Some (True, k1, inc_stat is_crypto_ccmp ic, ms1)"
    using e unfolding ccmp_encap_def Let_def assms(2) [symmetric] kk kt pn_header_def [symmetric] by simp
  moreover have "chain_bytes ms1 = take hdrlen (chain_bytes ms) @ pn_header pn keyid @
       rfc_encrypt (ccmp_cipher k) nonce p @ rfc_tag (ccmp_cipher k) 8 nonce ad p"
    using r(3) hd(2,3) m1 le
    by (simp add: ccmp_seal_def Let_def assms(10-12) k1_def put_at_def)
  ultimately show thesis using that r m1 by (simp add: k1_def)
qed

subsection \<open>Software decryption\<close>

lemma iv_mtod:
  assumes "wf_packet m" "hdrlen + 8 \<le> front_len m"
  shows "drop hdrlen (mtod m) ! IEEE80211_WEP_IVLEN = drop hdrlen (chain_bytes m) ! 3"
    "READ_6 (drop hdrlen (mtod m) ! 0) (drop hdrlen (mtod m) ! 1) (drop hdrlen (mtod m) ! 4)
       (drop hdrlen (mtod m) ! 5) (drop hdrlen (mtod m) ! 6) (drop hdrlen (mtod m) ! 7) =
     read_pn (drop hdrlen (chain_bytes m))"
proof -
  have "drop hdrlen (mtod m) ! i = drop hdrlen (chain_bytes m) ! i" if "i < 8" for i
    using arg_cong [OF slice_mtod [OF assms], of "\<lambda>x. x ! i"] that by simp
  then show "drop hdrlen (mtod m) ! IEEE80211_WEP_IVLEN = drop hdrlen (chain_bytes m) ! 3"
    "READ_6 (drop hdrlen (mtod m) ! 0) (drop hdrlen (mtod m) ! 1) (drop hdrlen (mtod m) ! 4)
       (drop hdrlen (mtod m) ! 5) (drop hdrlen (mtod m) ! 6) (drop hdrlen (mtod m) ! 7) =
     read_pn (drop hdrlen (chain_bytes m))"
    by (simp_all add: read_pn_def wep_lens)
qed

text \<open>What a receiver makes of the bytes of a frame: the plaintext and whether the tag is right.\<close>

definition ccmp_open :: "'a ieee80211_key_scheme \<Rightarrow> nat \<Rightarrow> u64 \<Rightarrow> bytes \<Rightarrow> bytes \<times> bool" where
  "ccmp_open k off pn frame =
     (let nonce = ccmp_nonce frame pn; n = length frame - off - 8;
          p = rfc_encrypt (ccmp_cipher k) nonce (take n (drop off frame))
      in (p, drop (off + n) frame = rfc_tag (ccmp_cipher k) 8 nonce (ccmp_ad frame) p))"

lemma ccmp_decrypt_sw:
  assumes "wf_packet m" "ieee80211_hdrsize (mtod m) \<le> hdrlen" "hdrlen + 8 \<le> front_len m"
    and "hdrlen + 16 \<le> pkt_len m" "pkt_len m < 2 ^ 16" "ccmp_keyed k ctx"
    and "ccmp_open k (hdrlen + 8) pn (chain_bytes m) = (p, ok)"
  obtains m1 where
    "ccmp_decrypt stale k ctx pn ic m hdrlen =
       Some (ok, if ok then inc_stat is_crypto_ccmp ic else inc_stat is_rx_ccmpmic (inc_stat is_crypto_ccmp ic), m1)"
    "chain_shape m1 = chain_shape m"
    "chain_bytes m1 = put_at (hdrlen + 8) (if ok then p else replicate (pkt_len m - hdrlen - 16) 0) (chain_bytes m)"
    "length p = pkt_len m - hdrlen - 16"
proof -
  define nonce where "nonce = ccmp_nonce (chain_bytes m) pn"
  define ad where "ad = ccmp_ad (chain_bytes m)"
  define n where "n = pkt_len m - hdrlen - 16"
  define tag where "tag = m_copydata m (pkt_len m - 8) 8"
  let ?E = "ccmp_cipher k" and ?e = "ccm_cipher 10 (cc_aes ctx)"
  have len: "length (chain_bytes m) = pkt_len m" "chain_len m = pkt_len m"
    using assms(1) wf_packetD(1) [OF assms(1)] by (simp_all add: pkt_len_bytes)
  have h24: "24 \<le> length (chain_bytes m)"
    using hdrsize_bounds(1) [of "mtod m"] assms(2,4) len by simp
  note hdr = ccmp_mtod [OF assms(1,2)] and lens = ccmp_lengths [OF h24]
  have nl: "length nonce = 13" "length ad \<noteq> 0xffffffff" using lens by (simp_all add: nonce_def ad_def)
  note fips = ccmp_rfc_fips [OF assms(6) nl(1)]
  have C: "ccmp_init_blocks stale (cc_aes ctx) (mtod m) pn n = aes_ccm_init 10 (cc_aes ctx) 2 8 nonce ad n stale"
    using assms(3) hdr by (simp add: ccmp_init_blocks_def nonce_def ad_def wep_lens)
  have n: "pkt_len m - (hdrlen + 8) - 8 = n" "hdrlen + 8 + n = pkt_len m - 8" using assms(4) by (simp_all add: n_def)
  have tag: "tag = drop (pkt_len m - 8) (chain_bytes m)" "length tag = 8"
    using assms(4) len wf_packetD(1) [OF assms(1)] by (simp_all add: tag_def m_copydata_bytes)
  have p: "p = rfc_encrypt ?e nonce (take n (drop (hdrlen + 8) (chain_bytes m)))"
    and ok: "ok \<longleftrightarrow> take 8 tag = rfc_tag ?e 8 nonce ad p"
    using assms(7) len n tag by (auto simp: ccmp_open_def Let_def nonce_def [symmetric] ad_def [symmetric] fips)
  have lp: "length p = n"
    using rfc_encrypt_involution(1) [OF ccm.length_e] len assms(4) by (simp add: p n_def)
  have "\<exists>C m1. aes_ccm_dec_mbuf (aes_ccm_init 10 (cc_aes ctx) 2 8 nonce ad n stale) m (hdrlen + 8) n tag =
      Some (C, m1, ok) \<and>
      chain_bytes m1 = put_at (hdrlen + 8) (if ok then p else replicate n 0) (chain_bytes m) \<and> chain_shape m1 = chain_shape m"
    using ccm_dec_chain [OF wf_packetD(1) [OF assms(1)], of "hdrlen + 8" n nonce 8 ad p 10 "cc_aes ctx" ok tag stale]
      assms(4,5) len nl p ok by (simp add: n_def)
  then obtain C m1 where d: "aes_ccm_dec_mbuf (aes_ccm_init 10 (cc_aes ctx) 2 8 nonce ad n stale) m (hdrlen + 8) n tag =
      Some (C, m1, ok)" and m1: "chain_shape m1 = chain_shape m"
      "chain_bytes m1 = put_at (hdrlen + 8) (if ok then p else replicate n 0) (chain_bytes m)"
    by blast
  have u: "uint_sub (pkt_len m) (hdrlen + 8 + ic_trailer cipher_ccmp) = n" "hdrlen + ic_header cipher_ccmp = hdrlen + 8"
    "m_copydata m (uint_sub (pkt_len m) (ic_trailer cipher_ccmp)) (ic_trailer cipher_ccmp) = tag"
    using assms(4) by (simp_all add: n_def tag_def wep_lens)
  have "ccmp_decrypt stale k ctx pn ic m hdrlen =
      Some (ok, if ok then inc_stat is_crypto_ccmp ic else inc_stat is_rx_ccmpmic (inc_stat is_crypto_ccmp ic), m1)"
    unfolding ccmp_decrypt_def Let_def u C d by simp
  then show thesis using that m1 lp by (simp add: n_def)
qed

lemma ccmp_decap_sw:
  assumes "wf_packet m" "ieee80211_hdrsize (mtod m) \<le> hdrlen" "hdrlen + 8 \<le> front_len m"
    and "hdrlen + 16 \<le> pkt_len m" "pkt_len m < 2 ^ 16" "swcrypt k" "ccmp_keyed k ctx"
    and "has_flag (drop hdrlen (chain_bytes m) ! 3) IEEE80211_WEP_EXTIV"
    and "pn = read_pn (drop hdrlen (chain_bytes m))" "wk_keyrsc k < pn"
    and "ccmp_open k (hdrlen + 8) pn (chain_bytes m) = (p, ok)"
  shows "\<exists>m'. ccmp_decap stale k ctx ic m hdrlen =
      Some (ok, if ok then k\<lparr>wk_keyrsc := pn\<rparr> else k,
        if ok then inc_stat is_crypto_ccmp ic else inc_stat is_rx_ccmpmic (inc_stat is_crypto_ccmp ic), m') \<and>
    wf_packet m' \<and>
    chain_bytes m' = (if ok then take hdrlen (chain_bytes m) @ p
      else put_at (hdrlen + 8) (replicate (pkt_len m - hdrlen - 16) 0) (chain_bytes m))"
proof -
  obtain m1 where d: "ccmp_decrypt stale k ctx pn ic m hdrlen =
       Some (ok, if ok then inc_stat is_crypto_ccmp ic else inc_stat is_rx_ccmpmic (inc_stat is_crypto_ccmp ic), m1)"
    and m1: "chain_shape m1 = chain_shape m"
    "chain_bytes m1 = put_at (hdrlen + 8) (if ok then p else replicate (pkt_len m - hdrlen - 16) 0) (chain_bytes m)"
    "length p = pkt_len m - hdrlen - 16"
    by (rule ccmp_decrypt_sw [OF assms(1-5,7,11)])
  note pk = chain_shape_packet [OF m1(1) assms(1)]
  have n: "\<not> pn \<le> wk_keyrsc k" using assms(10) by simp
  note iv = iv_mtod [OF assms(1,3), folded assms(9)]
  have r: "ccmp_decap stale k ctx ic m hdrlen =
      Some (ok, if ok then k\<lparr>wk_keyrsc := pn\<rparr> else k,
        if ok then inc_stat is_crypto_ccmp ic else inc_stat is_rx_ccmpmic (inc_stat is_crypto_ccmp ic),
        if ok then strip_crypto cipher_ccmp m1 hdrlen else m1)"
    unfolding ccmp_decap_def Let_def iv using assms(6,8) n d by simp
  have fits: "hdrlen + ic_header cipher_ccmp \<le> front_len m1" using assms(3) pk by (simp add: wep_lens)
  have len: "length (chain_bytes m) = pkt_len m" using assms(1) by (simp add: pkt_len_bytes)
  have "chain_bytes (strip_crypto cipher_ccmp m1 hdrlen) = take hdrlen (chain_bytes m) @ p" if ok
    unfolding strip_crypto_packet(1) [OF pk(1) fits]
    using that m1(2,3) assms(4) len by (simp add: wep_lens put_at_def)
  then show ?thesis
    using r m1(2) strip_crypto_packet(2) [OF pk(1) fits] pk(1) by auto
qed

lemma ccmp_decap_short:
  assumes "wf_packet m" "hdrlen + 8 \<le> front_len m" "pkt_len m < hdrlen + 16" "pkt_len m < 2 ^ 16" "swcrypt k"
    and "has_flag (drop hdrlen (chain_bytes m) ! 3) IEEE80211_WEP_EXTIV"
    and "wk_keyrsc k < read_pn (drop hdrlen (chain_bytes m))"
  shows "ccmp_decap stale k ctx ic m hdrlen = None"
proof -
  define n where "n = uint_sub (pkt_len m) (hdrlen + 16)"
  have wf: "wf_chain m" using assms(1) by (rule wf_packetD)
  have len: "chain_len m = pkt_len m" "front_len m \<le> pkt_len m"
    using assms(1) front_len_le [OF assms(1)] wf by (simp_all add: pkt_len_bytes)
  then have n: "chain_len m < n" using assms(2-4) by (simp add: n_def uint_sub_def)
  have "aes_ccm_dec_mbuf C m (hdrlen + 8) n tag = None" for C tag
  proof (cases "hdrlen + 8 < chain_len m")
    case True
    then obtain pre off' ms' where sk: "ccm_skip (hdrlen + 8) m = Some (pre, off', ms')"
      "m = pre @ ms'" "hdrlen + 8 = chain_len pre + off'" "ms' \<noteq> []" "off' < m_len (hd ms')"
      using ccm_skip_spec(1) [OF wf] by blast
    have "ccm_chain aes_ccm_dec C off' n ms' = None"
      using sk n wf by (intro ccm_chain_short) auto
    then show ?thesis using sk(1) by (simp add: aes_ccm_dec_mbuf_def)
  next
    case False
    then show ?thesis using ccm_skip_spec(2) [OF wf, of "hdrlen + 8"] by (simp add: aes_ccm_dec_mbuf_def)
  qed
  moreover have u: "uint_sub (pkt_len m) (hdrlen + 8 + ic_trailer cipher_ccmp) = n" "hdrlen + ic_header cipher_ccmp = hdrlen + 8"
    by (simp_all add: n_def wep_lens add.commute)
  ultimately have "ccmp_decrypt stale k ctx pn ic m hdrlen = None" for pn
    unfolding ccmp_decrypt_def Let_def u by simp
  then show ?thesis
    unfolding ccmp_decap_def Let_def iv_mtod [OF assms(1,2)] using assms(5-7) by (simp add: not_le)
qed

subsection \<open>Replay\<close>

text \<open>
  The receive side of a cipher with a packet number, as the replay check relies on it: a frame
  is accepted only with a number above the receive counter, which then becomes that number.
  \<open>None\<close> is a crash, after which nothing is received.
\<close>

fun rx_accepted :: "('s \<Rightarrow> 'f \<Rightarrow> (bool \<times> 's) option) \<Rightarrow> ('f \<Rightarrow> u64) \<Rightarrow> 's \<Rightarrow> 'f list \<Rightarrow> u64 list" where
  "rx_accepted rx num s [] = []"
| "rx_accepted rx num s (f # fs) =
     (case rx s f of
        None \<Rightarrow> []
      | Some (ok, s') \<Rightarrow> (if ok then [num f] else []) @ rx_accepted rx num s' fs)"

locale replay_counter =
  fixes rx :: "'s \<Rightarrow> 'f \<Rightarrow> (bool \<times> 's) option"
    and num :: "'f \<Rightarrow> u64"
    and rsc :: "'s \<Rightarrow> u64"
  assumes accept: "rx s f = Some (True, s') \<Longrightarrow> rsc s < num f \<and> rsc s' = num f"
    and reject: "rx s f = Some (False, s') \<Longrightarrow> rsc s' = rsc s"
begin

lemma accepted_increasing: "sorted_wrt (<) (rsc s # rx_accepted rx num s fs)"
proof (induction fs arbitrary: s)
  case (Cons f fs)
  show ?case
  proof (cases "rx s f")
    case (Some r)
    obtain ok s' where r: "r = (ok, s')" by (cases r)
    have IH: "sorted_wrt (<) (rsc s' # rx_accepted rx num s' fs)" by (rule Cons.IH)
    show ?thesis
    proof (cases ok)
      case True
      then show ?thesis using Some r IH accept [of s f s'] by (auto dest: less_trans)
    next
      case False
      then show ?thesis using Some r IH reject [of s f s'] by simp
    qed
  qed simp
qed simp

end

definition ccmp_rx ::
  "bytes \<Rightarrow> ccmp_ctx \<Rightarrow> 'a ieee80211_key_scheme \<times> 'b com_scheme \<Rightarrow> chain \<times> nat \<Rightarrow>
   (bool \<times> 'a ieee80211_key_scheme \<times> 'b com_scheme) option" where
  "ccmp_rx stale ctx s f =
     map_option (\<lambda>(ok, k, ic, m). (ok, k, ic)) (ccmp_decap stale (fst s) ctx (snd s) (fst f) (snd f))"

definition ccmp_num :: "chain \<times> nat \<Rightarrow> u64" where
  "ccmp_num f = read_pn (drop (snd f) (mtod (fst f)))"

lemma ccmp_decap_rsc:
  assumes "ccmp_decap stale k ctx ic m h = Some (ok, k', ic', m')"
  shows "if ok then wk_keyrsc k < read_pn (drop h (mtod m)) \<and> wk_keyrsc k' = read_pn (drop h (mtod m)) else k' = k"
  using assms
  by (auto simp: ccmp_decap_def Let_def read_pn_def not_le split: if_splits option.splits prod.splits)

interpretation ccmp_replay: replay_counter "ccmp_rx stale ctx" ccmp_num "\<lambda>s. wk_keyrsc (fst s)"
  by unfold_locales
    (auto simp: ccmp_rx_def ccmp_num_def dest: ccmp_decap_rsc split: if_splits)

interpretation tkip_replay: replay_counter
  "\<lambda>(k, ctx, ic) (m, h). tkip_rx_frame k ctx ic m h" "\<lambda>(m, h). read_tsc (drop h (mtod m))" "\<lambda>s. wk_keyrsc (fst s)"
  by unfold_locales (auto dest: tkip_rx_frame_rsc split: prod.splits if_splits)

lemma ccmp_open_sealed:
  assumes "ccmp_keyed k ctx" "24 \<le> hdrlen" "hdrlen + 8 \<le> length frame" "ieee80211_hdrsize frame \<le> hdrlen"
    and "pn' = take_bit 48 pn" "wk_key k2 = wk_key k"
    and "nonce = ccmp_nonce frame pn" "ad = ccmp_ad frame" "p = drop (hdrlen + 8) frame"
    and "sealed = take hdrlen frame @ pn_header pn keyid @
       rfc_encrypt (ccmp_cipher k) nonce p @ rfc_tag (ccmp_cipher k) 8 nonce ad p"
  shows "ccmp_open k2 (hdrlen + 8) pn' sealed = (p, True)"
proof -
  let ?E = "ccmp_cipher k"
  have t: "take hdrlen frame = take hdrlen sealed" using assms(3) by (simp add: assms(10))
  have "ieee80211_hdrsize frame \<le> length frame" using assms(3,4) by simp
  note c = ccmp_hdr_cong [OF t assms(4) this]
  have "ccmp_nonce sealed pn' = ccmp_nonce sealed pn"
    unfolding ccmp_nonce_def assms(5) by (simp add: bit_eq_iff bit_simps)
  then have n: "ccmp_nonce sealed pn' = nonce" "ccmp_ad sealed = ad" using c assms(7,8) by simp_all
  have "24 \<le> length frame" using assms(2,3) by simp
  then have nl: "length nonce = 13" using ccmp_lengths(1) assms(7) by simp
  note l = ccmp_rfc_lengths [OF assms(1) nl]
  have "length sealed - (hdrlen + 8) - 8 = length p" using l(1,3) assms(3) by (simp add: assms(10))
  moreover have "take (length p) (drop (hdrlen + 8) sealed) = rfc_encrypt ?E nonce p"
    "drop (hdrlen + 8 + length p) sealed = rfc_tag ?E 8 nonce ad p"
    using l(1) assms(3) by (simp_all add: assms(10))
  ultimately show ?thesis unfolding ccmp_open_def Let_def n using l(2) assms(6) by simp
qed

lemma hdrsize_chain:
  assumes "wf_packet m" "24 \<le> front_len m"
  shows "ieee80211_hdrsize (mtod m) = ieee80211_hdrsize (chain_bytes m)"
  using nth_mtod [OF assms(1), of 0] nth_mtod [OF assms(1), of 1] assms(2) by (intro hdrsize_cong) simp_all

lemma ccmp_roundtrip:
  assumes "wf_packet ms" "hdrlen = ieee80211_hdrspace (ic_flags ic) (mtod ms)" "hdrlen + 8 \<le> front_len ms"
    and "hdrlen + 8 < pkt_len ms" "pkt_len ms + 8 < 2 ^ 16" "swcrypt k" "ccmp_keyed k ctx" "length cl = MCLBYTES + MH_ALIGN"
    and "ccmp_encap [Some cl] stale k ctx ic ms keyid = Some (ok, k', ic', ms1)"
    and "wf_packet ms2" "chain_bytes ms2 = chain_bytes ms1" "hdrlen + 8 \<le> front_len ms2"
    and "swcrypt k2" "ccmp_keyed k2 ctx2" "wk_key k2 = wk_key k" "wk_keyrsc k2 < take_bit 48 (wk_keytsc k + 1)"
  shows "ok \<and> wk_keytsc k' = wk_keytsc k + 1 \<and>
    (\<exists>ms3. ccmp_decap stale2 k2 ctx2 ic2 ms2 hdrlen =
        Some (True, k2\<lparr>wk_keyrsc := take_bit 48 (wk_keytsc k + 1)\<rparr>, inc_stat is_crypto_ccmp ic2, ms3) \<and>
      wf_packet ms3 \<and> chain_bytes ms3 = stripped cipher_ccmp hdrlen (chain_bytes ms))"
proof -
  define pn where "pn = wk_keytsc k + 1"
  define p where "p = drop (hdrlen + 8) (chain_bytes ms)"
  define nonce where "nonce = ccmp_nonce (chain_bytes ms) pn"
  define ad where "ad = ccmp_ad (chain_bytes ms)"
  let ?E = "ccmp_cipher k" and ?B = "chain_bytes ms"
  have lt: "pkt_len ms < 2 ^ 16" using assms(5) by simp
  obtain ms1' where e: "ccmp_encap [Some cl] stale k ctx ic ms keyid =
      Some (True, k\<lparr>wk_keytsc := pn\<rparr>, inc_stat is_crypto_ccmp ic, ms1')"
    and b: "chain_bytes ms1' = take hdrlen ?B @ pn_header pn keyid @ rfc_encrypt ?E nonce p @ rfc_tag ?E 8 nonce ad p"
    by (rule ccmp_encap_sw [OF assms(1-4) lt assms(6-8) pn_def nonce_def ad_def p_def])
  have B2: "chain_bytes ms2 = take hdrlen ?B @ pn_header pn keyid @ rfc_encrypt ?E nonce p @ rfc_tag ?E 8 nonce ad p"
    using e b assms(9,11) by simp
  have h24: "24 \<le> hdrlen" using hdrspace_bounds(1) assms(2) by simp
  have len: "length ?B = pkt_len ms" "hdrlen + 8 < length ?B" using assms(1,4) by (simp_all add: pkt_len_bytes)
  have hs: "ieee80211_hdrsize ?B \<le> hdrlen"
    using hdrsize_chain [OF assms(1)] h24 assms(2,3) hdrsize_le_hdrspace [of "mtod ms"] by simp
  have "?B ! i = chain_bytes ms2 ! i" if "i < 24" for i using that h24 len by (simp add: B2 nth_append)
  then have hs2: "ieee80211_hdrsize (mtod ms2) \<le> hdrlen"
    using hdrsize_chain [OF assms(10)] hdrsize_cong [of ?B "chain_bytes ms2"] h24 hs assms(12) by simp
  have "length nonce = 13" using ccmp_lengths(1) len h24 by (simp add: nonce_def)
  note l = ccmp_rfc_lengths [OF assms(7) this]
  have pl: "pkt_len ms2 = pkt_len ms + 8" using len l(1,3) by (simp add: pkt_len_bytes [OF assms(10)] B2 p_def)
  have dr: "drop hdrlen (chain_bytes ms2) = pn_header pn keyid @ rfc_encrypt ?E nonce p @ rfc_tag ?E 8 nonce ad p"
    using len by (simp add: B2)
  have ext: "has_flag (drop hdrlen (chain_bytes ms2) ! 3) IEEE80211_WEP_EXTIV"
    using pn_header_extiv [of pn keyid] by (simp add: dr nth_append)
  have pn2: "take_bit 48 pn = read_pn (drop hdrlen (chain_bytes ms2))" by (simp add: dr read_pn_header)
  have op: "ccmp_open k2 (hdrlen + 8) (take_bit 48 pn) (chain_bytes ms2) = (p, True)"
    by (rule ccmp_open_sealed [OF assms(7) h24 _ hs refl assms(15) nonce_def ad_def p_def B2]) (use len in simp)
  have s: "hdrlen + 16 \<le> pkt_len ms2" "pkt_len ms2 < 2 ^ 16" "wk_keyrsc k2 < take_bit 48 pn"
    using assms(4,5,16) pl by (simp_all add: pn_def)
  have "take hdrlen (chain_bytes ms2) @ p = stripped cipher_ccmp hdrlen ?B"
    using len by (simp add: B2 p_def stripped_def wep_lens)
  then have "\<exists>ms3. ccmp_decap stale2 k2 ctx2 ic2 ms2 hdrlen =
      Some (True, k2\<lparr>wk_keyrsc := take_bit 48 pn\<rparr>, inc_stat is_crypto_ccmp ic2, ms3) \<and>
      wf_packet ms3 \<and> chain_bytes ms3 = stripped cipher_ccmp hdrlen ?B"
    using ccmp_decap_sw [OF assms(10) hs2 assms(12) s(1,2) assms(13,14) ext pn2 s(3) op, of stale2 ic2] by simp
  then show ?thesis using e assms(9) by (auto simp: pn_def)
qed

subsection \<open>Properties\<close>

text \<open>
  C21.  Software encapsulation produces the CCMP frame of the standard: the 802.11 header, the
  privacy header with the next packet number, the payload encrypted as RFC 3610 prescribes
  with AES of FIPS 197 under nonce and additional data from the header, and the eight byte tag.
\<close>

theorem ccmp_encap_rfc3610:
  assumes "wf_packet ms" "hdrlen = ieee80211_hdrspace (ic_flags ic) (mtod ms)" "hdrlen + 8 \<le> front_len ms"
    and "hdrlen + 8 < pkt_len ms" "pkt_len ms < 2 ^ 16" "swcrypt k" "ccmp_keyed k ctx" "length cl = MCLBYTES + MH_ALIGN"
    and "pn = wk_keytsc k + 1" "nonce = ccmp_nonce (chain_bytes ms) pn" "ad = ccmp_ad (chain_bytes ms)"
    and "p = drop (hdrlen + 8) (chain_bytes ms)"
  shows "\<exists>ms1. ccmp_encap [Some cl] stale k ctx ic ms keyid =
      Some (True, k\<lparr>wk_keytsc := pn\<rparr>, inc_stat is_crypto_ccmp ic, ms1) \<and> wf_packet ms1 \<and>
    chain_bytes ms1 = take hdrlen (chain_bytes ms) @ pn_header pn keyid @
       rfc_encrypt (ccmp_cipher k) nonce p @ rfc_tag (ccmp_cipher k) 8 nonce ad p"
  using ccmp_encap_sw [OF assms, of stale keyid] by blast


text \<open>
  C10.  CCMP round trip.  A frame that software encapsulation produced, however its bytes are
  split into buffers on reception, is accepted by software decapsulation under the same key when
  the receive counter is behind; the receiver gets the sender's header and payload and its
  counter moves to the sender's packet number.
\<close>

theorem ccmp_encap_decap:
  assumes "wf_packet ms" "hdrlen = ieee80211_hdrspace (ic_flags ic) (mtod ms)" "hdrlen + 8 \<le> front_len ms"
    and "hdrlen + 8 < pkt_len ms" "pkt_len ms + 8 < 2 ^ 16" "swcrypt k" "ccmp_keyed k ctx" "length cl = MCLBYTES + MH_ALIGN"
    and "ccmp_encap [Some cl] stale k ctx ic ms keyid = Some (ok, k', ic', ms1)"
    and "wf_packet ms2" "chain_bytes ms2 = chain_bytes ms1" "hdrlen + 8 \<le> front_len ms2"
    and "swcrypt k2" "ccmp_keyed k2 ctx2" "wk_key k2 = wk_key k" "wk_keyrsc k2 < take_bit 48 (wk_keytsc k + 1)"
  shows "ok \<and> wk_keytsc k' = wk_keytsc k + 1 \<and>
    (\<exists>ms3. ccmp_decap stale2 k2 ctx2 ic2 ms2 hdrlen =
        Some (True, k2\<lparr>wk_keyrsc := take_bit 48 (wk_keytsc k + 1)\<rparr>, inc_stat is_crypto_ccmp ic2, ms3) \<and>
      wf_packet ms3 \<and> chain_bytes ms3 = stripped cipher_ccmp hdrlen (chain_bytes ms))"
  using assms by (rule ccmp_roundtrip)

text \<open>
  C11.  No CCMP frame is accepted twice: over any sequence of received frames, whatever they
  contain, the packet numbers of the accepted ones are strictly increasing and above the receive
  counter of the key.
\<close>

theorem ccmp_no_replay:
  "sorted_wrt (<) (wk_keyrsc k # rx_accepted (ccmp_rx stale ctx) ccmp_num (k, ic) frames)"
  using ccmp_replay.accepted_increasing [of "(k, ic)" stale ctx frames] by simp

definition ex_ccmp_ctx :: ccmp_ctx where
  "ex_ccmp_ctx = \<lparr>cc_aes = snd (br_aes_ct_keysched (replicate 60 0) (take 16 (wk_key ex_key)) 16)\<rparr>"

lemma ex_ccmp_keyed: "ccmp_keyed ex_key ex_ccmp_ctx"
  by (rule ccmp_setkey_keyed [of ex_key "\<lparr>cc_aes = replicate 60 0\<rparr>"])
    (simp_all add: ccmp_setkey_def aes_setenckey128_def aesbear_setkey_def ex_ccmp_ctx_def, simp add: ex_key_def)

definition ex_frame :: chain where
  "ex_frame = packet_of (8 # 0 # replicate 30 0 @ [1, 2, 3])"

lemma ex_frame_facts [simp]:
  "wf_packet ex_frame" "front_len ex_frame = 35" "pkt_len ex_frame = 35"
  "chain_bytes ex_frame = 8 # 0 # replicate 30 0 @ [1, 2, 3]"
  by (simp_all add: ex_frame_def pkt_len_bytes)

lemma ex_frame_hdr: "24 = ieee80211_hdrspace (ic_flags ex_com) (mtod ex_frame)"
  by (simp add: ex_frame_def ex_hdrspace)

lemma ex_sender:
  "24 + 8 \<le> front_len ex_frame" "24 + 8 < pkt_len ex_frame" "pkt_len ex_frame < 2 ^ 16" "swcrypt ex_key"
  "length (replicate 4352 0 :: bytes) = MCLBYTES + MH_ALIGN"
  by (simp_all add: MCLBYTES_def MH_ALIGN_def)

lemma ex_key_tsc: "2 = wk_keytsc ex_key + 1" "wk_keyrsc ex_key = 0"
  by (simp_all add: ex_key_def)

theorem ccmp_encap_rfc3610_witness:
  "\<exists>ms1. ccmp_encap [Some (replicate 4352 0)] [] ex_key ex_ccmp_ctx ex_com ex_frame 0 =
      Some (True, ex_key\<lparr>wk_keytsc := 2\<rparr>, inc_stat is_crypto_ccmp ex_com, ms1) \<and>
    drop 32 (chain_bytes ms1) =
      rfc_encrypt (ccmp_cipher ex_key) (ccmp_nonce (chain_bytes ex_frame) 2) [1, 2, 3] @
      rfc_tag (ccmp_cipher ex_key) 8 (ccmp_nonce (chain_bytes ex_frame) 2) (ccmp_ad (chain_bytes ex_frame)) [1, 2, 3]"
proof -
  have p: "[1, 2, 3] = drop (24 + 8) (chain_bytes ex_frame)" by simp
  obtain ms1 where "ccmp_encap [Some (replicate 4352 0)] [] ex_key ex_ccmp_ctx ex_com ex_frame 0 =
      Some (True, ex_key\<lparr>wk_keytsc := 2\<rparr>, inc_stat is_crypto_ccmp ex_com, ms1)"
    and b: "chain_bytes ms1 = take 24 (chain_bytes ex_frame) @ pn_header 2 0 @
      rfc_encrypt (ccmp_cipher ex_key) (ccmp_nonce (chain_bytes ex_frame) 2) [1, 2, 3] @
      rfc_tag (ccmp_cipher ex_key) 8 (ccmp_nonce (chain_bytes ex_frame) 2) (ccmp_ad (chain_bytes ex_frame)) [1, 2, 3]"
    using ccmp_encap_rfc3610 [OF ex_frame_facts(1) ex_frame_hdr ex_sender(1-4) ex_ccmp_keyed ex_sender(5) ex_key_tsc(1) refl refl p,
      of "[]" 0] by blast
  moreover have "drop 32 (chain_bytes ms1) =
      rfc_encrypt (ccmp_cipher ex_key) (ccmp_nonce (chain_bytes ex_frame) 2) [1, 2, 3] @
      rfc_tag (ccmp_cipher ex_key) 8 (ccmp_nonce (chain_bytes ex_frame) 2) (ccmp_ad (chain_bytes ex_frame)) [1, 2, 3]"
    unfolding b by (simp add: pn_header_def)
  ultimately show ?thesis by blast
qed

text \<open>The example frame as it arrives, sealed with packet number 2.\<close>

lemma ex_sealed:
  obtains ms1 where "ccmp_encap [Some (replicate 4352 0)] [] ex_key ex_ccmp_ctx ex_com ex_frame 0 =
      Some (True, ex_key\<lparr>wk_keytsc := 2\<rparr>, inc_stat is_crypto_ccmp ex_com, ms1)"
    "wf_packet ms1" "35 \<le> front_len ms1" "length (chain_bytes ms1) = 43"
proof -
  have p: "[1, 2, 3] = drop (24 + 8) (chain_bytes ex_frame)" by simp
  obtain ms1 where m: "ccmp_encap [Some (replicate 4352 0)] [] ex_key ex_ccmp_ctx ex_com ex_frame 0 =
      Some (True, ex_key\<lparr>wk_keytsc := 2\<rparr>, inc_stat is_crypto_ccmp ex_com, ms1)"
      "wf_packet ms1" "front_len ex_frame \<le> front_len ms1"
    and b: "chain_bytes ms1 = take 24 (chain_bytes ex_frame) @ pn_header 2 0 @
      rfc_encrypt (ccmp_cipher ex_key) (ccmp_nonce (chain_bytes ex_frame) 2) [1, 2, 3] @
      rfc_tag (ccmp_cipher ex_key) 8 (ccmp_nonce (chain_bytes ex_frame) 2) (ccmp_ad (chain_bytes ex_frame)) [1, 2, 3]"
    by (rule ccmp_encap_sw [OF ex_frame_facts(1) ex_frame_hdr ex_sender(1-4) ex_ccmp_keyed ex_sender(5) ex_key_tsc(1) refl refl p,
        of "[]" 0])
  have "length (ccmp_nonce (chain_bytes ex_frame) 2) = 13" by (rule ccmp_lengths) simp
  note l = ccmp_rfc_lengths [OF ex_ccmp_keyed this]
  have "length (chain_bytes ms1) = 43" unfolding b using l(1,3) by simp
  then show thesis using that m by simp
qed

theorem ccmp_encap_decap_witness:
  "\<exists>k' ic' ms1 ms3. ccmp_encap [Some (replicate 4352 0)] [] ex_key ex_ccmp_ctx ex_com ex_frame 0 = Some (True, k', ic', ms1) \<and>
     ccmp_decap [] ex_key ex_ccmp_ctx ex_com ms1 24 =
       Some (True, ex_key\<lparr>wk_keyrsc := 2\<rparr>, inc_stat is_crypto_ccmp ex_com, ms3) \<and>
     chain_bytes ms3 = 8 # 0 # replicate 22 0 @ [1, 2, 3]"
proof -
  obtain ms1 where m: "ccmp_encap [Some (replicate 4352 0)] [] ex_key ex_ccmp_ctx ex_com ex_frame 0 =
      Some (True, ex_key\<lparr>wk_keytsc := 2\<rparr>, inc_stat is_crypto_ccmp ex_com, ms1)"
      "wf_packet ms1" "35 \<le> front_len ms1" "length (chain_bytes ms1) = 43"
    by (rule ex_sealed)
  have t: "take_bit 48 (wk_keytsc ex_key + 1) = 2" by (simp add: ex_key_tsc(1) [symmetric])
  have s: "pkt_len ex_frame + 8 < 2 ^ 16" "24 + 8 \<le> front_len ms1" "wk_keyrsc ex_key < take_bit 48 (wk_keytsc ex_key + 1)"
    using m(3) by (simp_all add: t ex_key_tsc(2))
  have "stripped cipher_ccmp 24 (chain_bytes ex_frame) = 8 # 0 # replicate 22 0 @ [1, 2, 3]"
    by (simp add: stripped_def wep_lens)
  then show ?thesis
    using ccmp_encap_decap [OF ex_frame_facts(1) ex_frame_hdr ex_sender(1,2) s(1) ex_sender(4) ex_ccmp_keyed ex_sender(5) m(1,2)
      refl s(2) ex_sender(4) ex_ccmp_keyed refl s(3), of "[]" ex_com] m(1) t by auto
qed


end
