(* ===== verification/Acl.thy ===== *)
theory Acl
  imports Frame
begin

text \<open>
  The access control list by station address (\<open>net80211/ieee80211_acl.c\<close>).  An entry sits on the
  list of all entries and on the chain of its hash bucket; entries are never equal, so an entry
  is its address.  The result codes are the \<open>errno\<close> values the routines return.
\<close>

subsection \<open>State\<close>

datatype acl_result = ACL_OK | EEXIST | ENOENT | EINVAL

definition ACL_POLICY_OPEN :: int where "ACL_POLICY_OPEN = 0"
definition ACL_POLICY_ALLOW :: int where "ACL_POLICY_ALLOW = 1"
definition ACL_POLICY_DENY :: int where "ACL_POLICY_DENY = 2"
definition ACL_HASHSIZE :: nat where "ACL_HASHSIZE = 32"

definition IEEE80211_MACCMD_POLICY_OPEN :: int where "IEEE80211_MACCMD_POLICY_OPEN = 0"
definition IEEE80211_MACCMD_POLICY_ALLOW :: int where "IEEE80211_MACCMD_POLICY_ALLOW = 1"
definition IEEE80211_MACCMD_POLICY_DENY :: int where "IEEE80211_MACCMD_POLICY_DENY = 2"
definition IEEE80211_MACCMD_POLICY :: int where "IEEE80211_MACCMD_POLICY = 5"
definition IEEE80211_MACCMD_LIST :: int where "IEEE80211_MACCMD_LIST = 6"

lemmas acl_defs = ACL_POLICY_OPEN_def ACL_POLICY_ALLOW_def ACL_POLICY_DENY_def ACL_HASHSIZE_def
  IEEE80211_MACCMD_POLICY_OPEN_def IEEE80211_MACCMD_POLICY_ALLOW_def IEEE80211_MACCMD_POLICY_DENY_def
  IEEE80211_MACCMD_POLICY_def IEEE80211_MACCMD_LIST_def

record aclstate =
  as_policy :: int
  as_nacls :: u32
  as_list :: "bytes list"
  as_hash :: "bytes list list"

definition ACL_HASH :: "bytes \<Rightarrow> nat" where
  "ACL_HASH addr = unat (addr ! (IEEE80211_ADDR_LEN - 1)) mod ACL_HASHSIZE"

definition acl_attach :: aclstate where
  "acl_attach = \<lparr>as_policy = ACL_POLICY_OPEN, as_nacls = 0, as_list = [], as_hash = replicate ACL_HASHSIZE []\<rparr>"

subsection \<open>Operations\<close>

definition find_acl :: "aclstate \<Rightarrow> bytes \<Rightarrow> bytes option" where
  "find_acl as macaddr = find (\<lambda>a. a = macaddr) (as_hash as ! ACL_HASH macaddr)"

definition acl_free :: "aclstate \<Rightarrow> bytes \<Rightarrow> aclstate" where
  "acl_free as a =
     as\<lparr>as_list := remove1 a (as_list as),
        as_hash := (as_hash as)[ACL_HASH a := remove1 a (as_hash as ! ACL_HASH a)],
        as_nacls := as_nacls as - 1\<rparr>"

definition acl_check :: "aclstate \<Rightarrow> bytes \<Rightarrow> bool" where
  "acl_check as mac =
     (if as_policy as = ACL_POLICY_OPEN then True
      else if as_policy as = ACL_POLICY_ALLOW then find_acl as mac \<noteq> None
      else if as_policy as = ACL_POLICY_DENY then find_acl as mac = None
      else False)"

definition acl_add :: "aclstate \<Rightarrow> bytes \<Rightarrow> acl_result \<times> aclstate" where
  "acl_add as mac =
     (let hash = ACL_HASH mac
      in if find (\<lambda>a. a = mac) (as_hash as ! hash) \<noteq> None then (EEXIST, as)
         else (ACL_OK, as\<lparr>as_list := as_list as @ [mac],
                         as_hash := (as_hash as)[hash := mac # as_hash as ! hash],
                         as_nacls := as_nacls as + 1\<rparr>))"

definition acl_remove :: "aclstate \<Rightarrow> bytes \<Rightarrow> acl_result \<times> aclstate" where
  "acl_remove as mac =
     (case find_acl as mac of
        None \<Rightarrow> (ENOENT, as)
      | Some a \<Rightarrow> (ACL_OK, acl_free as a))"

text \<open>The loop frees the first entry of the list until the list is empty.\<close>

function acl_free_loop :: "aclstate \<Rightarrow> aclstate" where
  "acl_free_loop as = (case as_list as of [] \<Rightarrow> as | a # _ \<Rightarrow> acl_free_loop (acl_free as a))"
  by pat_completeness auto

termination
  by (relation "measure (\<lambda>as. length (as_list as))") (auto simp: acl_free_def)

declare acl_free_loop.simps [simp del]

definition acl_free_all :: "aclstate \<Rightarrow> acl_result \<times> aclstate" where
  "acl_free_all as = (ACL_OK, acl_free_loop as)"

definition acl_setpolicy :: "aclstate \<Rightarrow> int \<Rightarrow> acl_result \<times> aclstate" where
  "acl_setpolicy as policy =
     (if policy = IEEE80211_MACCMD_POLICY_OPEN then (ACL_OK, as\<lparr>as_policy := ACL_POLICY_OPEN\<rparr>)
      else if policy = IEEE80211_MACCMD_POLICY_ALLOW then (ACL_OK, as\<lparr>as_policy := ACL_POLICY_ALLOW\<rparr>)
      else if policy = IEEE80211_MACCMD_POLICY_DENY then (ACL_OK, as\<lparr>as_policy := ACL_POLICY_DENY\<rparr>)
      else (EINVAL, as))"

definition acl_getpolicy :: "aclstate \<Rightarrow> int" where
  "acl_getpolicy as = as_policy as"

text \<open>
  The request as the list command uses it: its value, its length and the bytes copied to the
  caller.  \<open>copyout\<close> belongs to the host; its result is a parameter.
\<close>

record acl_req =
  i_val :: int
  i_len :: u16
  i_data :: bytes

definition acl_getioctl :: "acl_result \<Rightarrow> aclstate \<Rightarrow> acl_req \<Rightarrow> acl_result \<times> acl_req" where
  "acl_getioctl copyout as ireq =
     (if i_val ireq = IEEE80211_MACCMD_POLICY then (ACL_OK, ireq\<lparr>i_val := as_policy as\<rparr>)
      else if i_val ireq = IEEE80211_MACCMD_LIST then
        let space = as_nacls as * of_nat IEEE80211_ADDR_LEN
        in if i_len ireq = 0 then (ACL_OK, ireq\<lparr>i_len := ucast space\<rparr>)
           else let ap = concat (as_list as)
                in if ucast (i_len ireq) \<ge> space
                   then (copyout, ireq\<lparr>i_data := take (unat space) ap, i_len := ucast space\<rparr>)
                   else (copyout, ireq\<lparr>i_data := take (unat (i_len ireq)) ap\<rparr>)
      else (EINVAL, ireq))"

definition acl_setioctl :: "acl_req \<Rightarrow> acl_result" where
  "acl_setioctl ireq = EINVAL"

subsection \<open>The invariant\<close>

definition wf_mac :: "bytes \<Rightarrow> bool" where
  "wf_mac a \<longleftrightarrow> length a = IEEE80211_ADDR_LEN"

definition wf_acl :: "aclstate \<Rightarrow> bool" where
  "wf_acl as \<longleftrightarrow> length (as_hash as) = ACL_HASHSIZE \<and> distinct (as_list as) \<and>
     (\<forall>a \<in> set (as_list as). wf_mac a) \<and> as_nacls as = of_nat (length (as_list as)) \<and>
     (\<forall>h < ACL_HASHSIZE. distinct (as_hash as ! h) \<and>
        set (as_hash as ! h) = {a \<in> set (as_list as). ACL_HASH a = h})"

lemma ACL_HASH_less [simp]: "ACL_HASH a < ACL_HASHSIZE"
  by (simp add: ACL_HASH_def ACL_HASHSIZE_def)

lemma find_eq: "find (\<lambda>a. a = x) xs = (if x \<in> set xs then Some x else None)"
  by (induction xs) auto

lemma find_acl_iff:
  "wf_acl as \<Longrightarrow> find_acl as mac = (if mac \<in> set (as_list as) then Some mac else None)"
  by (auto simp: find_acl_def find_eq wf_acl_def)

lemma wf_acl_attach: "wf_acl acl_attach"
  by (simp add: wf_acl_def acl_attach_def)

lemma acl_free_spec:
  assumes "wf_acl as" "a \<in> set (as_list as)"
  shows "wf_acl (acl_free as a)" "as_list (acl_free as a) = remove1 a (as_list as)"
    "as_policy (acl_free as a) = as_policy as"
proof -
  obtain n where "length (as_list as) = Suc n" using assms(2) by (cases "as_list as") auto
  then have "of_nat (length (as_list as)) - 1 = (of_nat (length (as_list as) - 1) :: u32)" by simp
  then show "wf_acl (acl_free as a)"
    using assms by (auto simp: wf_acl_def acl_free_def nth_list_update length_remove1 set_remove1_eq)
qed (simp_all add: acl_free_def)

lemma acl_add_spec:
  assumes "wf_acl as" "wf_mac mac"
  shows "acl_add as mac = (if mac \<in> set (as_list as) then (EEXIST, as)
      else (ACL_OK, snd (acl_add as mac)))"
    "wf_acl (snd (acl_add as mac))" "as_policy (snd (acl_add as mac)) = as_policy as"
    "as_list (snd (acl_add as mac)) = (if mac \<in> set (as_list as) then as_list as else as_list as @ [mac])"
proof -
  show "wf_acl (snd (acl_add as mac))"
    using assms by (auto simp: acl_add_def Let_def find_eq wf_acl_def nth_list_update)
qed (auto simp: acl_add_def Let_def find_acl_iff [OF assms(1), unfolded find_acl_def])

lemma acl_remove_spec:
  assumes "wf_acl as"
  shows "acl_remove as mac = (if mac \<in> set (as_list as) then (ACL_OK, acl_free as mac) else (ENOENT, as))"
  by (simp add: acl_remove_def find_acl_iff [OF assms])

lemma acl_free_loop_spec:
  assumes "wf_acl as"
  shows "wf_acl (acl_free_loop as) \<and> as_list (acl_free_loop as) = [] \<and> as_policy (acl_free_loop as) = as_policy as"
  using assms
proof (induction as rule: acl_free_loop.induct)
  case (1 as)
  show ?case
  proof (cases "as_list as")
    case Nil
    then show ?thesis using "1.prems" by (simp add: acl_free_loop.simps)
  next
    case (Cons a rest)
    then have "a \<in> set (as_list as)" by simp
    note f = acl_free_spec [OF "1.prems" this]
    show ?thesis using "1.IH" [OF Cons f(1)] f(3) by (simp add: acl_free_loop.simps [of as] Cons)
  qed
qed

subsection \<open>The abstract filter\<close>

text \<open>What the list promises: a policy and a set of addresses.\<close>

datatype acl_op = op_add bytes | op_remove bytes | op_flush | op_policy int

fun acl_step :: "aclstate \<Rightarrow> acl_op \<Rightarrow> aclstate \<times> acl_result" where
  "acl_step as (op_add mac) = prod.swap (acl_add as mac)"
| "acl_step as (op_remove mac) = prod.swap (acl_remove as mac)"
| "acl_step as op_flush = prod.swap (acl_free_all as)"
| "acl_step as (op_policy p) = prod.swap (acl_setpolicy as p)"

fun filter_step :: "int \<times> bytes set \<Rightarrow> acl_op \<Rightarrow> (int \<times> bytes set) \<times> acl_result" where
  "filter_step (p, S) (op_add mac) = ((p, insert mac S), if mac \<in> S then EEXIST else ACL_OK)"
| "filter_step (p, S) (op_remove mac) = ((p, S - {mac}), if mac \<in> S then ACL_OK else ENOENT)"
| "filter_step (p, S) op_flush = ((p, {}), ACL_OK)"
| "filter_step (p, S) (op_policy q) = (if q \<in> {0, 1, 2} then ((q, S), ACL_OK) else ((p, S), EINVAL))"

definition filter_allows :: "int \<times> bytes set \<Rightarrow> bytes \<Rightarrow> bool" where
  "filter_allows f mac = (case f of (p, S) \<Rightarrow> p = 0 \<or> p = 1 \<and> mac \<in> S \<or> p = 2 \<and> mac \<notin> S)"

definition acl_abs :: "aclstate \<Rightarrow> int \<times> bytes set" where
  "acl_abs as = (as_policy as, set (as_list as))"

fun ok_op :: "acl_op \<Rightarrow> bool" where
  "ok_op (op_add mac) = wf_mac mac"
| "ok_op (op_remove mac) = wf_mac mac"
| "ok_op op_flush = True"
| "ok_op (op_policy p) = True"

text \<open>A component whose steps simulate those of a specification, result for result.\<close>

locale simulates =
  fixes step :: "'s \<Rightarrow> 'o \<Rightarrow> 's \<times> 'r"
    and spec :: "'t \<Rightarrow> 'o \<Rightarrow> 't \<times> 'r"
    and abs :: "'s \<Rightarrow> 't"
    and inv :: "'s \<Rightarrow> bool"
    and ok :: "'o \<Rightarrow> bool"
  assumes step: "inv s \<Longrightarrow> ok a \<Longrightarrow> inv (fst (step s a)) \<and> spec (abs s) a = (abs (fst (step s a)), snd (step s a))"
begin

lemma run_simulates:
  "inv s \<Longrightarrow> list_all ok ops \<Longrightarrow> map_state step s ops = (s', rs) \<Longrightarrow>
   inv s' \<and> map_state spec (abs s) ops = (abs s', rs)"
proof (induction ops arbitrary: s rs)
  case (Cons a ops)
  obtain s1 r where a: "step s a = (s1, r)" by fastforce
  obtain rs1 where o: "map_state step s1 ops = (s', rs1)" "rs = r # rs1"
    using Cons.prems(3) a by (auto split: prod.splits)
  have "inv s1" "spec (abs s) a = (abs s1, r)" using step [of s a] Cons.prems(1,2) a by auto
  then show ?case using Cons.IH [of s1 rs1] Cons.prems(2) o by simp
qed simp

end

lemma acl_step_simulates:
  assumes "wf_acl as" "ok_op a"
  shows "wf_acl (fst (acl_step as a)) \<and>
    filter_step (acl_abs as) a = (acl_abs (fst (acl_step as a)), snd (acl_step as a))"
proof (cases a)
  case (op_add mac)
  then have m: "wf_mac mac" using assms(2) by simp
  note s = acl_add_spec [OF assms(1) m]
  have "fst (acl_add as mac) = (if mac \<in> set (as_list as) then EEXIST else ACL_OK)"
    using s(1) by (metis fst_conv)
  then show ?thesis using s(2-4) by (auto simp: op_add acl_abs_def)
next
  case (op_remove mac)
  then show ?thesis
    using acl_free_spec [OF assms(1), of mac] assms(1)
    by (auto simp: acl_remove_spec [OF assms(1)] acl_abs_def wf_acl_def set_remove1_eq)
next
  case op_flush
  then show ?thesis using acl_free_loop_spec [OF assms(1)] by (simp add: acl_free_all_def acl_abs_def)
next
  case (op_policy p)
  then show ?thesis using assms(1) by (auto simp: acl_setpolicy_def acl_defs acl_abs_def wf_acl_def)
qed

interpretation acl_spec: simulates acl_step filter_step acl_abs wf_acl ok_op
  by unfold_locales (rule acl_step_simulates)

lemma acl_check_iff: "wf_acl as \<Longrightarrow> acl_check as mac \<longleftrightarrow> filter_allows (acl_abs as) mac"
  by (auto simp: acl_check_def find_acl_iff acl_defs filter_allows_def acl_abs_def)

text \<open>
  The list command reports every address on the list in the order of addition to a caller
  with room for them, and the room needed to a caller with none, as long as the list is short
  enough for the 16 bit length of the request.
\<close>

lemma acl_list_complete:
  assumes "wf_acl as" "6 * length (as_list as) < 2 ^ 16" "i_val ireq = IEEE80211_MACCMD_LIST"
  shows "acl_getioctl copyout as ireq =
    (if i_len ireq = 0 then (ACL_OK, ireq\<lparr>i_len := of_nat (6 * length (as_list as))\<rparr>)
     else if 6 * length (as_list as) \<le> unat (i_len ireq)
     then (copyout, ireq\<lparr>i_data := concat (as_list as), i_len := of_nat (6 * length (as_list as))\<rparr>)
     else (copyout, ireq\<lparr>i_data := take (unat (i_len ireq)) (concat (as_list as))\<rparr>))"
proof -
  define n where "n = 6 * length (as_list as)"
  have sp: "as_nacls as * of_nat IEEE80211_ADDR_LEN = (of_nat n :: u32)"
    using assms(1) by (simp add: wf_acl_def n_def IEEE80211_ADDR_LEN_def mult.commute)
  have "n < 2 ^ 16" using assms(2) by (simp add: n_def)
  then have un: "unat (of_nat n :: u32) = n" by (simp add: unsigned_of_nat take_bit_nat_eq_self)
  have uc: "ucast (of_nat n :: u32) = (of_nat n :: u16)"
    by (subst word_unat_eq_iff) (simp add: unsigned_ucast_eq un, simp add: unsigned_of_nat)
  have "length (concat (as_list as)) = n"
    using assms(1) by (simp add: wf_acl_def wf_mac_def n_def length_concat IEEE80211_ADDR_LEN_def
        sum_list_triv cong: map_cong)
  moreover have "unat (i_len ireq) < 2 ^ 32" by (rule less_le_trans [OF unsigned_less]) simp
  then have "of_nat n \<le> (ucast (i_len ireq) :: u32) \<longleftrightarrow> n \<le> unat (i_len ireq)"
    by (simp add: word_le_nat_alt un unsigned_ucast_eq take_bit_nat_eq_self)
  ultimately show ?thesis
    using assms(3) by (simp add: acl_getioctl_def acl_defs Let_def sp un uc n_def [symmetric])
qed

subsection \<open>Properties\<close>

text \<open>
  C9.  The two-list hash table implements a policy and a set of addresses: after any sequence of
  additions, removals, flushes and policy changes from the attached state, every result code
  is the one the set gives, and a station is let in exactly when policy and set allow it.
\<close>

theorem acl_refines_filter:
  assumes "list_all ok_op ops" "map_state acl_step acl_attach ops = (as, rs)"
  shows "wf_acl as \<and> map_state filter_step (0, {}) ops = (acl_abs as, rs) \<and>
    (\<forall>mac. acl_check as mac \<longleftrightarrow> filter_allows (acl_abs as) mac)"
proof -
  have "acl_abs acl_attach = (0, {})" by (simp add: acl_abs_def acl_attach_def acl_defs)
  then show ?thesis
    using acl_spec.run_simulates [OF wf_acl_attach assms] acl_check_iff by simp
qed

theorem acl_refines_filter_witness:
  "\<exists>as rs. map_state acl_step acl_attach
      [op_add [1, 2, 3, 4, 5, 6], op_policy 1, op_add [1, 2, 3, 4, 5, 6], op_add [0, 0, 0, 0, 0, 38],
       op_remove [1, 2, 3, 4, 5, 6]] = (as, rs) \<and>
    rs = [ACL_OK, ACL_OK, EEXIST, ACL_OK, ACL_OK] \<and>
    acl_check as [0, 0, 0, 0, 0, 38] \<and> \<not> acl_check as [1, 2, 3, 4, 5, 6]"
proof -
  let ?ops = "[op_add [1, 2, 3, 4, 5, 6], op_policy 1, op_add [1, 2, 3, 4, 5, 6], op_add [0, 0, 0, 0, 0, 38],
       op_remove [1, 2, 3, 4, 5, 6]]"
  obtain as rs where r: "map_state acl_step acl_attach ?ops = (as, rs)" by fastforce
  have "list_all ok_op ?ops" by (simp add: wf_mac_def IEEE80211_ADDR_LEN_def)
  from acl_refines_filter [OF this r] r show ?thesis by (auto simp: filter_allows_def)
qed

end
