(* ===== verification/Rates.thy ===== *)
theory Rates
  imports Frame "HOL-Library.Multiset"
begin

text \<open>
  Rate sets: their negotiation (\<open>ieee80211_fix_rate\<close> and its relatives in
  \<open>net80211/ieee80211_proto.c\<close>), the elements that carry them (\<open>ieee80211_output.c\<close>,
  \<open>ieee80211_input.c\<close>).  The array of a rate set keeps its 15 slots; the first
  \<open>rs_nrates\<close> of them are in use.
\<close>

subsection \<open>Rate sets\<close>

definition IEEE80211_RATE_SIZE :: nat where "IEEE80211_RATE_SIZE = 8"
definition IEEE80211_RATE_MAXSIZE :: nat where "IEEE80211_RATE_MAXSIZE = 15"
definition IEEE80211_RATE_BASIC :: u8 where "IEEE80211_RATE_BASIC = 0x80"
definition IEEE80211_RATE_VAL :: u8 where "IEEE80211_RATE_VAL = 0x7f"
definition IEEE80211_FIXED_RATE_NONE :: int where "IEEE80211_FIXED_RATE_NONE = -1"
definition IEEE80211_R_DOSORT :: u32 where "IEEE80211_R_DOSORT = 0x1"
definition IEEE80211_R_DOFRATE :: u32 where "IEEE80211_R_DOFRATE = 0x2"
definition IEEE80211_R_DONEGO :: u32 where "IEEE80211_R_DONEGO = 0x4"
definition IEEE80211_R_DODEL :: u32 where "IEEE80211_R_DODEL = 0x8"

lemmas rate_defs = IEEE80211_RATE_SIZE_def IEEE80211_RATE_MAXSIZE_def IEEE80211_RATE_BASIC_def
  IEEE80211_RATE_VAL_def IEEE80211_FIXED_RATE_NONE_def
lemmas rate_flag_defs = IEEE80211_R_DOSORT_def IEEE80211_R_DOFRATE_def IEEE80211_R_DONEGO_def
  IEEE80211_R_DODEL_def

record ieee80211_rateset =
  rs_nrates :: nat
  rs_rates :: "u8 list"

definition RV :: "u8 \<Rightarrow> u8" where "RV v = v AND IEEE80211_RATE_VAL"

definition rs_list :: "ieee80211_rateset \<Rightarrow> u8 list" where
  "rs_list rs = take (rs_nrates rs) (rs_rates rs)"

definition wf_rateset :: "ieee80211_rateset \<Rightarrow> bool" where
  "wf_rateset rs \<longleftrightarrow> length (rs_rates rs) = IEEE80211_RATE_MAXSIZE \<and> rs_nrates rs \<le> IEEE80211_RATE_MAXSIZE"

subsection \<open>Negotiation\<close>

text \<open>The fields of the device and the node that the negotiation reads.\<close>

record fix_env =
  fe_flags :: u32
  fe_fixed_rate :: int
  fe_hostap :: bool
  fe_srs :: ieee80211_rateset

record fix_state =
  fx_rs :: ieee80211_rateset
  fx_error :: nat
  fx_okrate :: u8
  fx_badrate :: u8
  fx_fixedrate :: u8
  fx_txrate :: nat

definition swap_rates :: "nat \<Rightarrow> nat \<Rightarrow> u8 list \<Rightarrow> u8 list" where
  "swap_rates i j r = (if RV (r ! i) > RV (r ! j) then r[i := r ! j, j := r ! i] else r)"

definition sort_pass :: "nat \<Rightarrow> nat \<Rightarrow> u8 list \<Rightarrow> u8 list" where
  "sort_pass i n r = fold (swap_rates i) [i + 1..<n] r"

definition delete_rate :: "nat \<Rightarrow> ieee80211_rateset \<Rightarrow> ieee80211_rateset" where
  "delete_rate i rs =
     (let n = rs_nrates rs - 1
      in rs\<lparr>rs_nrates := n, rs_rates := (fold (\<lambda>j r. r[j := r ! (j + 1)]) [i..<n] (rs_rates rs))[n := 0]\<rparr>)"

text \<open>The body of the loop on position \<open>i\<close>, which yields the position and the state it continues with.\<close>

definition fix_rate_step :: "fix_env \<Rightarrow> nat \<Rightarrow> fix_state \<Rightarrow> nat \<times> fix_state" where
  "fix_rate_step e i s =
     (let n = rs_nrates (fx_rs s);
          rates = (if has_flag (fe_flags e) IEEE80211_R_DOSORT then sort_pass i n (rs_rates (fx_rs s))
                   else rs_rates (fx_rs s));
          r = RV (rates ! i);
          s1 = s\<lparr>fx_badrate := r,
                 fx_fixedrate := (if has_flag (fe_flags e) IEEE80211_R_DOFRATE \<and>
                                     r = RV (rs_rates (fe_srs e) ! nat (fe_fixed_rate e))
                                  then r else fx_fixedrate s)\<rparr>;
          sup = (if has_flag (fe_flags e) IEEE80211_R_DONEGO
                 then find (\<lambda>v. r = RV v) (rs_list (fe_srs e)) else Some (rates ! i));
          ignore = (sup = None);
          rs = (fx_rs s)\<lparr>rs_rates := (case sup of None \<Rightarrow> rates | Some v \<Rightarrow> rates[i := v])\<rparr>;
          s2 = s1\<lparr>fx_rs := rs,
                  fx_error := (if ignore \<and> fe_hostap e \<and> has_flag (rates ! i) IEEE80211_RATE_BASIC
                               then fx_error s1 + 1 else fx_error s1)\<rparr>
      in if has_flag (fe_flags e) IEEE80211_R_DODEL \<and> ignore
         then (i, s2\<lparr>fx_rs := delete_rate i rs\<rparr>)
         else (i + 1, if \<not> ignore then s2\<lparr>fx_okrate := rs_rates rs ! i, fx_txrate := i\<rparr> else s2))"

function fix_rate_loop :: "fix_env \<Rightarrow> nat \<Rightarrow> fix_state \<Rightarrow> fix_state" where
  "fix_rate_loop e i s =
     (if i < rs_nrates (fx_rs s)
      then fix_rate_loop e (fst (fix_rate_step e i s)) (snd (fix_rate_step e i s)) else s)"
  by pat_completeness auto

termination
  by (relation "measure (\<lambda>(e, i, s). rs_nrates (fx_rs s) - i)")
    (auto simp: fix_rate_step_def delete_rate_def Let_def)

declare fix_rate_loop.simps [simp del]

text \<open>Result: the returned rate, the node's rate set and its transmit rate index.\<close>

definition ieee80211_fix_rate ::
  "fix_env \<Rightarrow> ieee80211_rateset \<Rightarrow> nat \<Rightarrow> u8 \<times> ieee80211_rateset \<times> nat" where
  "ieee80211_fix_rate e rs txrate =
     (let flags = (if has_flag (fe_flags e) IEEE80211_R_DOFRATE \<and> fe_fixed_rate e = IEEE80211_FIXED_RATE_NONE
                   then clear_flag (fe_flags e) IEEE80211_R_DOFRATE else fe_flags e);
          s = fix_rate_loop (e\<lparr>fe_flags := flags\<rparr>) 0
                \<lparr>fx_rs = rs, fx_error = 0, fx_okrate = 0, fx_badrate = 0, fx_fixedrate = 0, fx_txrate = txrate\<rparr>
      in (if fx_okrate s = 0 \<or> fx_error s \<noteq> 0 \<or> has_flag flags IEEE80211_R_DOFRATE \<and> fx_fixedrate s = 0
          then fx_badrate s OR IEEE80211_RATE_BASIC else RV (fx_okrate s),
          fx_rs s, fx_txrate s))"

subsection \<open>ERP and basic rates\<close>

definition erp_rates :: "u8 list" where "erp_rates = [2, 4, 11, 22, 12, 24, 48]"

text \<open>The inner loop: the wanted rate is found before a higher one.\<close>

fun erp_search :: "u8 \<Rightarrow> u8 list \<Rightarrow> bool" where
  "erp_search want [] = False"
| "erp_search want (v # vs) = (if want = RV v then True else if RV v > want then False else erp_search want vs)"

definition ieee80211_iserp_rateset :: "ieee80211_rateset \<Rightarrow> bool" where
  "ieee80211_iserp_rateset rs =
     (if rs_nrates rs < length erp_rates then False
      else list_all (\<lambda>w. erp_search w (rs_list rs)) erp_rates)"

definition basic_rates :: "nat \<Rightarrow> u8 list" where
  "basic_rates mode =
     [[], [12, 24, 48], [2, 4], [2, 4, 11, 22], [], [2, 4, 11, 22, 12, 24, 48]] ! mode"

definition ieee80211_set11gbasicrates :: "ieee80211_rateset \<Rightarrow> nat \<Rightarrow> ieee80211_rateset" where
  "ieee80211_set11gbasicrates rs mode =
     rs\<lparr>rs_rates := map (\<lambda>v. if RV v \<in> set (basic_rates mode) then RV v OR IEEE80211_RATE_BASIC else RV v)
           (rs_list rs) @ drop (rs_nrates rs) (rs_rates rs)\<rparr>"

subsection \<open>Elements\<close>

definition IEEE80211_ELEMID_RATES :: u8 where "IEEE80211_ELEMID_RATES = 1"
definition IEEE80211_ELEMID_XRATES :: u8 where "IEEE80211_ELEMID_XRATES = 50"

definition ieee80211_add_rates :: "ieee80211_rateset \<Rightarrow> bytes" where
  "ieee80211_add_rates rs =
     (let nrates = (if rs_nrates rs > IEEE80211_RATE_SIZE then IEEE80211_RATE_SIZE else rs_nrates rs)
      in IEEE80211_ELEMID_RATES # of_nat nrates # take nrates (rs_rates rs))"

definition ieee80211_add_xrates :: "ieee80211_rateset \<Rightarrow> bytes" where
  "ieee80211_add_xrates rs =
     (if rs_nrates rs > IEEE80211_RATE_SIZE
      then let nrates = rs_nrates rs - IEEE80211_RATE_SIZE
           in IEEE80211_ELEMID_XRATES # of_nat nrates # take nrates (drop IEEE80211_RATE_SIZE (rs_rates rs))
      else [])"

text \<open>
  The rate set a node gets from the two elements before it is negotiated; \<open>None\<close> when the first
  one does not fit the array, which the callers exclude.
\<close>

definition setup_rates :: "bytes \<Rightarrow> bytes option \<Rightarrow> ieee80211_rateset option" where
  "setup_rates rates xrates =
     (let zero = replicate IEEE80211_RATE_MAXSIZE 0; n = unat (rates ! 1)
      in if n > IEEE80211_RATE_MAXSIZE then None
         else
           let rs = put_at 0 (take n (drop 2 rates)) zero
           in case xrates of
                None \<Rightarrow> Some \<lparr>rs_nrates = n, rs_rates = rs\<rparr>
              | Some x \<Rightarrow>
                  let nx = unat (x ! 1);
                      nx = (if n + nx > IEEE80211_RATE_MAXSIZE then IEEE80211_RATE_MAXSIZE - n else nx)
                  in Some \<lparr>rs_nrates = n + nx, rs_rates = put_at n (take nx (drop 2 x)) rs\<rparr>)"

definition ieee80211_setup_rates ::
  "fix_env \<Rightarrow> bytes \<Rightarrow> bytes option \<Rightarrow> nat \<Rightarrow> (u8 \<times> ieee80211_rateset \<times> nat) option" where
  "ieee80211_setup_rates e rates xrates txrate =
     map_option (\<lambda>rs. ieee80211_fix_rate e rs txrate) (setup_rates rates xrates)"

subsection \<open>One pass of the sort\<close>

lemma swap_rates_simps:
  assumes "i < j" "j < n" "n \<le> length r"
  shows "length (swap_rates i j r) = length r" "take i (swap_rates i j r) = take i r"
    "mset (take n (swap_rates i j r)) = mset (take n r)"
    "RV (swap_rates i j r ! i) \<le> RV (r ! i)" "RV (swap_rates i j r ! i) \<le> RV (swap_rates i j r ! j)"
    "k \<noteq> i \<Longrightarrow> k \<noteq> j \<Longrightarrow> swap_rates i j r ! k = r ! k"
proof -
  have "take n (r[i := r ! j, j := r ! i]) = (take n r)[i := take n r ! j, j := take n r ! i]"
    using assms by (simp add: take_update_swap)
  then show "mset (take n (swap_rates i j r)) = mset (take n r)"
    using assms mset_swap [of j "take n r" i] by (simp add: swap_rates_def list_update_swap)
qed (use assms in \<open>auto simp: swap_rates_def nth_list_update\<close>)

lemma sort_pass_spec:
  assumes "i < n" "n \<le> length r"
  shows "length (sort_pass i n r) = length r" "take i (sort_pass i n r) = take i r"
    "mset (take n (sort_pass i n r)) = mset (take n r)"
    "i \<le> k \<Longrightarrow> k < n \<Longrightarrow> RV (sort_pass i n r ! i) \<le> RV (sort_pass i n r ! k)"
proof -
  define R where "R m = fold (swap_rates i) [i + 1..<m] r" for m
  have "length (R m) = length r \<and> take i (R m) = take i r \<and> mset (take n (R m)) = mset (take n r) \<and>
      (\<forall>k. i \<le> k \<and> k < m \<longrightarrow> RV (R m ! i) \<le> RV (R m ! k))" if "i < m" "m \<le> n" for m
    using that
  proof (induction m)
    case (Suc m)
    show ?case
    proof (cases "m = i")
      case True
      then show ?thesis by (auto simp: R_def le_less_Suc_eq)
    next
      case False
      then have m: "i < m" "m < n" using Suc.prems by auto
      then have IH: "length (R m) = length r" "take i (R m) = take i r" "mset (take n (R m)) = mset (take n r)"
        "\<And>k. i \<le> k \<Longrightarrow> k < m \<Longrightarrow> RV (R m ! i) \<le> RV (R m ! k)" using Suc.IH by auto
      have R: "R (Suc m) = swap_rates i m (R m)" using m by (simp add: R_def)
      have len: "n \<le> length (R m)" using IH(1) assms(2) by simp
      note s = swap_rates_simps [OF m len]
      have "RV (R (Suc m) ! i) \<le> RV (R (Suc m) ! k)" if "i \<le> k" "k < Suc m" for k
        using that s(4,5) s(6) [of k] IH(4) [of k] by (cases "k = m"; cases "k = i") (auto simp: R)
      then show ?thesis using s(1-3) IH by (simp add: R)
    qed
  qed simp
  from this [of n] show "length (sort_pass i n r) = length r" "take i (sort_pass i n r) = take i r"
    "mset (take n (sort_pass i n r)) = mset (take n r)"
    "i \<le> k \<Longrightarrow> k < n \<Longrightarrow> RV (sort_pass i n r ! i) \<le> RV (sort_pass i n r ! k)"
    using assms by (simp_all add: R_def sort_pass_def)
qed

text \<open>What is left of the set behind position \<open>i\<close>.\<close>

lemma set_suffix:
  assumes "take i xs = take i ys" "mset (take n xs) = mset (take n ys)" "i \<le> n"
  shows "set (drop i (take n xs)) = set (drop i (take n ys))"
proof -
  have "mset (take i (take n zs)) + mset (drop i (take n zs)) = mset (take n zs)" for zs :: "'a list"
    by (metis append_take_drop_id mset_append)
  moreover have "take i (take n xs) = take i (take n ys)" using assms(1,3) by (simp add: min_absorb1)
  ultimately have "mset (drop i (take n xs)) = mset (drop i (take n ys))"
    using assms(2) by (metis add_left_cancel)
  then show ?thesis by (rule mset_eq_setD)
qed

lemma delete_rate_spec:
  assumes "i < rs_nrates rs" "rs_nrates rs \<le> length (rs_rates rs)"
  shows "rs_nrates (delete_rate i rs) = rs_nrates rs - 1"
    "length (rs_rates (delete_rate i rs)) = length (rs_rates rs)"
    "take (rs_nrates rs - 1) (rs_rates (delete_rate i rs)) =
      take i (rs_rates rs) @ drop (Suc i) (take (rs_nrates rs) (rs_rates rs))"
proof -
  let ?f = "\<lambda>j r. r[j := r ! (j + 1)] :: u8 list"
  define n where "n = rs_nrates rs - 1"
  have shift: "length (fold ?f [i..<m] r) = length r \<and>
      (\<forall>k < length r. fold ?f [i..<m] r ! k = (if i \<le> k \<and> k < m then r ! (k + 1) else r ! k))"
    if "i \<le> m" "m < length r" for m r
    using that
  proof (induction m)
    case (Suc m)
    show ?case
    proof (cases "i = Suc m")
      case False
      then show ?thesis using Suc by (auto simp: nth_list_update)
    qed auto
  qed simp
  have n: "i \<le> n" "n < length (rs_rates rs)" "rs_nrates rs = Suc n" using assms by (auto simp: n_def)
  show "rs_nrates (delete_rate i rs) = rs_nrates rs - 1" by (simp add: delete_rate_def Let_def)
  show len: "length (rs_rates (delete_rate i rs)) = length (rs_rates rs)"
    using shift [OF n(1,2)] by (simp add: delete_rate_def Let_def n_def)
  have "take n (rs_rates (delete_rate i rs)) = take i (rs_rates rs) @ drop (Suc i) (take (Suc n) (rs_rates rs))"
  proof (rule nth_equalityI)
    show "length (take n (rs_rates (delete_rate i rs))) =
        length (take i (rs_rates rs) @ drop (Suc i) (take (Suc n) (rs_rates rs)))"
      using len n by simp
    fix k assume "k < length (take n (rs_rates (delete_rate i rs)))"
    then have k: "k < n" by simp
    have "rs_rates (delete_rate i rs) = (fold ?f [i..<n] (rs_rates rs))[n := 0]"
      by (simp add: delete_rate_def Let_def n_def)
    then show "take n (rs_rates (delete_rate i rs)) ! k =
        (take i (rs_rates rs) @ drop (Suc i) (take (Suc n) (rs_rates rs))) ! k"
      using shift [OF n(1,2)] k n by (auto simp: nth_append)
  qed
  then show "take (rs_nrates rs - 1) (rs_rates (delete_rate i rs)) =
      take i (rs_rates rs) @ drop (Suc i) (take (rs_nrates rs) (rs_rates rs))"
    using n(3) by simp
qed

subsection \<open>The invariant of the negotiation\<close>

text \<open>
  With the rates sorted, negotiated and deleted: the first \<open>i\<close> rates are supported ones in
  ascending order, nothing behind them is lower, and no common rate value has been lost.
\<close>

definition fix_inv :: "u8 list \<Rightarrow> u8 list \<Rightarrow> nat \<Rightarrow> fix_state \<Rightarrow> bool" where
  "fix_inv S orig i s \<longleftrightarrow>
     wf_rateset (fx_rs s) \<and> i \<le> rs_nrates (fx_rs s) \<and>
     sorted_wrt (\<lambda>a b. RV a \<le> RV b) (take i (rs_list (fx_rs s))) \<and>
     set (take i (rs_list (fx_rs s))) \<subseteq> set S \<and>
     (\<forall>a \<in> set (take i (rs_list (fx_rs s))). \<forall>b \<in> set (drop i (rs_list (fx_rs s))). RV a \<le> RV b) \<and>
     RV ` set (take i (rs_list (fx_rs s))) \<union> RV ` set (drop i (rs_list (fx_rs s))) \<inter> RV ` set S =
       RV ` set orig \<inter> RV ` set S \<and>
     (if i = 0 then fx_okrate s = 0
      else fx_txrate s = i - 1 \<and> fx_okrate s = rs_list (fx_rs s) ! (i - 1))"

lemma sorted_live:
  assumes "wf_rateset rs" "i < rs_nrates rs" "r = sort_pass i (rs_nrates rs) (rs_rates rs)"
  shows "length r = IEEE80211_RATE_MAXSIZE" "take i (take (rs_nrates rs) r) = take i (rs_list rs)"
    "set (drop i (take (rs_nrates rs) r)) = set (drop i (rs_list rs))"
    "drop i (take (rs_nrates rs) r) = r ! i # drop (Suc i) (take (rs_nrates rs) r)"
    "b \<in> set (drop i (take (rs_nrates rs) r)) \<Longrightarrow> RV (r ! i) \<le> RV b"
proof -
  define n where "n = rs_nrates rs"
  have wf: "n \<le> length (rs_rates rs)" "length (rs_rates rs) = IEEE80211_RATE_MAXSIZE" "i < n"
    using assms(1,2) by (simp_all add: wf_rateset_def n_def)
  note s = sort_pass_spec [OF wf(3,1)]
  have r: "r = sort_pass i n (rs_rates rs)" by (simp add: assms(3) n_def)
  show "length r = IEEE80211_RATE_MAXSIZE" using s(1) wf by (simp add: r)
  show "take i (take (rs_nrates rs) r) = take i (rs_list rs)"
    using s(2) wf(3) by (simp add: r rs_list_def n_def [symmetric] min_absorb1)
  show "set (drop i (take (rs_nrates rs) r)) = set (drop i (rs_list rs))"
    using set_suffix [OF s(2,3)] wf(3) by (simp add: r rs_list_def n_def [symmetric])
  show "drop i (take (rs_nrates rs) r) = r ! i # drop (Suc i) (take (rs_nrates rs) r)"
    using Cons_nth_drop_Suc [of i "take n r"] s(1) wf by (simp add: r n_def [symmetric])
  show "RV (r ! i) \<le> RV b" if "b \<in> set (drop i (take (rs_nrates rs) r))"
    using that s(4) s(1) wf by (auto simp: in_set_conv_nth r n_def [symmetric])
qed

lemma find_RV: "find (\<lambda>v. r = RV v) S = None \<Longrightarrow> r \<notin> RV ` set S"
  "find (\<lambda>v. r = RV v) S = Some w \<Longrightarrow> w \<in> set S \<and> RV w = r"
  by (auto simp: find_None_iff find_Some_iff)

lemma fix_keep:
  assumes "fix_inv S orig i s" "i < rs_nrates (fx_rs s)" "r = sort_pass i (rs_nrates (fx_rs s)) (rs_rates (fx_rs s))"
    and "w \<in> set S" "RV w = RV (r ! i)" "fx_rs s' = (fx_rs s)\<lparr>rs_rates := r[i := w]\<rparr>"
    and "fx_okrate s' = w" "fx_txrate s' = i"
  shows "fix_inv S orig (Suc i) s'"
proof -
  define n where "n = rs_nrates (fx_rs s)"
  have wf: "wf_rateset (fx_rs s)" using assms(1) by (simp add: fix_inv_def)
  note l = sorted_live [OF wf assms(2,3), folded n_def]
  have i: "i < n" "n \<le> length r" "i < length r"
    using assms(2) wf l(1) by (simp_all add: n_def wf_rateset_def)
  have live: "rs_list (fx_rs s') = (take n r)[i := w]" by (simp add: rs_list_def assms(6) n_def [symmetric] take_update_swap)
  have t: "take (Suc i) (rs_list (fx_rs s')) = take i (rs_list (fx_rs s)) @ [w]"
    using i l(2) by (simp add: live take_Suc_conv_app_nth)
  have d: "drop (Suc i) (rs_list (fx_rs s')) = drop (Suc i) (take n r)" by (simp add: live)
  have dd: "set (drop i (rs_list (fx_rs s))) = insert (r ! i) (set (drop (Suc i) (take n r)))"
    using l(3,4) by simp
  have "wf_rateset (fx_rs s')" using wf l(1) by (simp add: wf_rateset_def assms(6))
  moreover have "rs_nrates (fx_rs s') = n" by (simp add: assms(6) n_def)
  moreover have "rs_list (fx_rs s') ! i = w" using i by (simp add: live)
  moreover have "RV (r ! i) \<le> RV b" if "b \<in> set (drop (Suc i) (take n r))" for b using l(4,5) that by auto
  moreover have "RV w \<in> RV ` set S" using assms(4) by blast
  ultimately show ?thesis
    using assms(1,4,5,7,8) i unfolding fix_inv_def t d dd by (auto simp: sorted_wrt_append)
qed

lemma fix_drop:
  assumes "fix_inv S orig i s" "i < rs_nrates (fx_rs s)" "r = sort_pass i (rs_nrates (fx_rs s)) (rs_rates (fx_rs s))"
    and "RV (r ! i) \<notin> RV ` set S" "fx_rs s' = delete_rate i ((fx_rs s)\<lparr>rs_rates := r\<rparr>)"
    and "fx_okrate s' = fx_okrate s" "fx_txrate s' = fx_txrate s"
  shows "fix_inv S orig i s'"
proof -
  define n where "n = rs_nrates (fx_rs s)"
  have wf: "wf_rateset (fx_rs s)" using assms(1) by (simp add: fix_inv_def)
  note l = sorted_live [OF wf assms(2,3), folded n_def]
  have i: "i < n" "n \<le> length r" "n \<le> IEEE80211_RATE_MAXSIZE"
    using assms(2) wf l(1) by (simp_all add: n_def wf_rateset_def)
  have pre: "i < rs_nrates ((fx_rs s)\<lparr>rs_rates := r\<rparr>)"
    "rs_nrates ((fx_rs s)\<lparr>rs_rates := r\<rparr>) \<le> length (rs_rates ((fx_rs s)\<lparr>rs_rates := r\<rparr>))"
    using i by (simp_all add: n_def)
  note d = delete_rate_spec [OF pre, folded assms(5), simplified, folded n_def]
  have live: "rs_list (fx_rs s') = take i (rs_list (fx_rs s)) @ drop (Suc i) (take n r)"
    using d(1,3) l(2) i by (simp add: rs_list_def min_absorb1)
  have li: "length (take i (rs_list (fx_rs s))) = i" using i wf by (simp add: rs_list_def wf_rateset_def n_def)
  have t: "take i (rs_list (fx_rs s')) = take i (rs_list (fx_rs s))" using li by (simp add: live)
  have dr: "drop i (rs_list (fx_rs s')) = drop (Suc i) (take n r)" using li by (simp add: live)
  have dd: "set (drop i (rs_list (fx_rs s))) = insert (r ! i) (set (drop (Suc i) (take n r)))"
    using l(3,4) by simp
  have "wf_rateset (fx_rs s')" "i \<le> rs_nrates (fx_rs s')"
    using d(1,2) l(1) i by (simp_all add: wf_rateset_def)
  moreover have "rs_list (fx_rs s') ! (i - 1) = rs_list (fx_rs s) ! (i - 1)" if "i \<noteq> 0"
    using arg_cong [OF t, of "\<lambda>x. x ! (i - 1)"] that by simp
  ultimately show ?thesis
    using assms(1,4,6,7) unfolding fix_inv_def t dr dd by auto
qed

abbreviation full_nego :: "fix_env \<Rightarrow> bool" where
  "full_nego e \<equiv> has_flag (fe_flags e) IEEE80211_R_DOSORT \<and> has_flag (fe_flags e) IEEE80211_R_DONEGO \<and>
     has_flag (fe_flags e) IEEE80211_R_DODEL"

lemma fix_rate_step_inv:
  assumes "full_nego e" "fix_inv (rs_list (fe_srs e)) orig i s" "i < rs_nrates (fx_rs s)"
  shows "fix_inv (rs_list (fe_srs e)) orig (fst (fix_rate_step e i s)) (snd (fix_rate_step e i s))"
proof -
  define r where "r = sort_pass i (rs_nrates (fx_rs s)) (rs_rates (fx_rs s))"
  have wf: "wf_rateset (fx_rs s)" using assms(2) by (simp add: fix_inv_def)
  have i: "i < length r" using sorted_live(1) [OF wf assms(3) r_def] wf assms(3) by (simp add: wf_rateset_def)
  show ?thesis
  proof (cases "find (\<lambda>v. RV (r ! i) = RV v) (rs_list (fe_srs e))")
    case None
    have "fix_inv (rs_list (fe_srs e)) orig i (snd (fix_rate_step e i s))"
      by (rule fix_drop [OF assms(2,3) r_def find_RV(1) [OF None]])
        (use assms(1) None in \<open>simp_all add: fix_rate_step_def Let_def r_def [symmetric]\<close>)
    moreover have "fst (fix_rate_step e i s) = i"
      using assms(1) None by (simp add: fix_rate_step_def Let_def r_def [symmetric])
    ultimately show ?thesis by simp
  next
    case (Some w)
    have "fix_inv (rs_list (fe_srs e)) orig (Suc i) (snd (fix_rate_step e i s))"
      by (rule fix_keep [OF assms(2,3) r_def, of w])
        (use assms(1) Some find_RV(2) [OF Some] i in \<open>simp_all add: fix_rate_step_def Let_def r_def [symmetric]\<close>)
    moreover have "fst (fix_rate_step e i s) = Suc i"
      using assms(1) Some by (simp add: fix_rate_step_def Let_def r_def [symmetric])
    ultimately show ?thesis by simp
  qed
qed

lemma fix_rate_loop_inv:
  assumes "full_nego e" "fix_inv (rs_list (fe_srs e)) orig i s"
  shows "fix_inv (rs_list (fe_srs e)) orig (rs_nrates (fx_rs (fix_rate_loop e i s))) (fix_rate_loop e i s)"
  using assms
proof (induction e i s rule: fix_rate_loop.induct)
  case (1 e i s)
  show ?case
  proof (cases "i < rs_nrates (fx_rs s)")
    case False
    then have "i = rs_nrates (fx_rs s)" using "1.prems"(2) by (auto simp: fix_inv_def)
    then show ?thesis using "1.prems"(2) by (simp add: fix_rate_loop.simps)
  next
    case True
    then show ?thesis
      using "1.IH" [OF True "1.prems"(1) fix_rate_step_inv [OF "1.prems" True]]
      by (simp add: fix_rate_loop.simps [of e i s])
  qed
qed

subsection \<open>ERP rate sets and elements\<close>

lemma erp_search_sorted:
  "sorted_wrt (\<lambda>a b. RV a \<le> RV b) vs \<Longrightarrow> erp_search w vs \<longleftrightarrow> w \<in> RV ` set vs"
  by (induction vs) (auto simp: not_less)

text \<open>On a sorted rate set the check is that all mandatory rates are there.\<close>

lemma iserp_rateset_iff:
  assumes "sorted_wrt (\<lambda>a b. RV a \<le> RV b) (rs_list rs)" "wf_rateset rs"
  shows "ieee80211_iserp_rateset rs \<longleftrightarrow> set erp_rates \<subseteq> RV ` set (rs_list rs)"
proof -
  have "card (set erp_rates) \<le> card (RV ` set (rs_list rs))" if "set erp_rates \<subseteq> RV ` set (rs_list rs)"
    using that by (intro card_mono) auto
  moreover have "card (RV ` set (rs_list rs)) \<le> rs_nrates rs"
    using card_image_le [of "set (rs_list rs)" RV] card_length [of "rs_list rs"] by (simp add: rs_list_def)
  moreover have "card (set erp_rates) = 7" "length erp_rates = 7" by (simp_all add: erp_rates_def)
  ultimately show ?thesis
    using erp_search_sorted [OF assms(1)] by (auto simp: ieee80211_iserp_rateset_def list_all_iff)
qed

text \<open>A node that receives the two elements gets the rates that were put into them.\<close>

lemma setup_rates_add:
  assumes "wf_rateset rs" "x = ieee80211_add_xrates rs"
  shows "\<exists>rs'. setup_rates (ieee80211_add_rates rs) (if x = [] then None else Some x) = Some rs' \<and>
    wf_rateset rs' \<and> rs_list rs' = rs_list rs"
proof -
  have len: "length (rs_rates rs) = 15" "rs_nrates rs \<le> 15" using assms(1) by (simp_all add: wf_rateset_def rate_defs)
  have u: "unat (of_nat k :: u8) = k" if "k \<le> 15" for k
    using that by (simp add: unsigned_of_nat take_bit_nat_eq_self)
  show ?thesis
  proof (cases "rs_nrates rs > 8")
    case True
    then have "take 8 (rs_rates rs) @ take (rs_nrates rs - 8) (drop 8 (rs_rates rs)) = rs_list rs"
      using take_add [of 8 "rs_nrates rs - 8" "rs_rates rs"] by (simp add: rs_list_def)
    moreover have "unat (of_nat (rs_nrates rs - 8) :: u8) = rs_nrates rs - 8" using len by (intro u) simp
    ultimately show ?thesis
      using True len
      by (simp add: assms(2) ieee80211_add_xrates_def ieee80211_add_rates_def setup_rates_def Let_def rate_defs
          put_at_def rs_list_def wf_rateset_def del: of_nat_diff)
  next
    case False
    then show ?thesis
      using len u [of "rs_nrates rs"]
      by (simp add: assms(2) ieee80211_add_xrates_def ieee80211_add_rates_def setup_rates_def Let_def rate_defs
          put_at_def rs_list_def wf_rateset_def)
  qed
qed

subsection \<open>Properties\<close>

lemma basic_flag: "has_flag (v OR IEEE80211_RATE_BASIC) IEEE80211_RATE_BASIC"
proof -
  have "(v OR 0x80) AND 0x80 = (0x80 :: u8)" by (auto simp: bit_eq_iff bit_simps)
  then show ?thesis by (simp add: has_flag_def rate_defs)
qed

text \<open>
  C15.  Negotiating, sorting and deleting rates terminates and leaves the node exactly the rate
  values it has in common with the device, in ascending order and with the device's basic rate
  bits; the transmit rate is the highest of them, and it is returned without the basic rate bit
  unless there is none, an access point misses a basic rate, or a fixed rate is not among them.
\<close>

theorem fix_rate_correct:
  assumes "wf_rateset rs" "full_nego e" "ieee80211_fix_rate e rs txrate = (rate, rs', tx)"
  shows "wf_rateset rs' \<and> sorted_wrt (\<lambda>a b. RV a \<le> RV b) (rs_list rs') \<and>
    set (rs_list rs') \<subseteq> set (rs_list (fe_srs e)) \<and>
    RV ` set (rs_list rs') = RV ` set (rs_list rs) \<inter> RV ` set (rs_list (fe_srs e)) \<and>
    (rs_list rs' \<noteq> [] \<longrightarrow> tx = rs_nrates rs' - 1) \<and>
    (\<not> has_flag rate IEEE80211_RATE_BASIC \<longrightarrow> rs_list rs' \<noteq> [] \<and> rate = RV (rs_list rs' ! tx))"
proof -
  define e' where "e' = e\<lparr>fe_flags := (if has_flag (fe_flags e) IEEE80211_R_DOFRATE \<and>
      fe_fixed_rate e = IEEE80211_FIXED_RATE_NONE then clear_flag (fe_flags e) IEEE80211_R_DOFRATE else fe_flags e)\<rparr>"
  define s0 where "s0 = \<lparr>fx_rs = rs, fx_error = 0, fx_okrate = 0, fx_badrate = 0, fx_fixedrate = 0, fx_txrate = txrate\<rparr>"
  define s where "s = fix_rate_loop e' 0 s0"
  have full: "full_nego e'"
    using assms(2) by (simp add: e'_def has_flag_clear_disjoint rate_flag_defs)
  have srs: "fe_srs e' = fe_srs e" by (simp add: e'_def)
  have "fix_inv (rs_list (fe_srs e')) (rs_list rs) 0 s0" using assms(1) by (simp add: fix_inv_def s0_def)
  from fix_rate_loop_inv [OF full this]
  have inv: "fix_inv (rs_list (fe_srs e)) (rs_list rs) (rs_nrates (fx_rs s)) s" by (simp add: s_def srs)
  have len: "length (rs_list (fx_rs s)) = rs_nrates (fx_rs s)"
    using inv by (simp add: fix_inv_def wf_rateset_def rs_list_def)
  have r: "rs' = fx_rs s" "tx = fx_txrate s"
    "\<not> has_flag rate IEEE80211_RATE_BASIC \<Longrightarrow> fx_okrate s \<noteq> 0 \<and> rate = RV (fx_okrate s)"
    using assms(3) basic_flag [of "fx_badrate s"]
    by (auto simp: ieee80211_fix_rate_def Let_def e'_def [symmetric] s0_def [symmetric] s_def [symmetric] split: if_splits)
  have ne: "rs_list (fx_rs s) = [] \<longleftrightarrow> rs_nrates (fx_rs s) = 0" using len by (metis length_0_conv)
  show ?thesis
    using inv len r ne unfolding fix_inv_def by (auto split: if_splits)
qed

definition ex_env :: fix_env where
  "ex_env = \<lparr>fe_flags = 0xd, fe_fixed_rate = - 1, fe_hostap = True,
     fe_srs = \<lparr>rs_nrates = 4, rs_rates = [0x82, 0x84, 11, 22] @ replicate 11 0\<rparr>\<rparr>"

theorem fix_rate_correct_witness:
  "\<exists>rate rs' tx. ieee80211_fix_rate ex_env \<lparr>rs_nrates = 3, rs_rates = [22, 12, 2] @ replicate 12 0\<rparr> 0 = (rate, rs', tx) \<and>
     RV ` set (rs_list rs') = {2, 22} \<and> tx = rs_nrates rs' - 1"
proof -
  let ?rs = "\<lparr>rs_nrates = 3, rs_rates = [22, 12, 2] @ replicate 12 0\<rparr>"
  obtain rate rs' tx where f: "ieee80211_fix_rate ex_env ?rs 0 = (rate, rs', tx)" by (metis prod_cases3)
  have w: "wf_rateset ?rs" by (simp add: wf_rateset_def rate_defs)
  have e: "full_nego ex_env" by (simp add: ex_env_def has_flag_def rate_flag_defs)
  have s: "RV ` set (rs_list ?rs) \<inter> RV ` set (rs_list (fe_srs ex_env)) = {2, 22}"
    by (auto simp: ex_env_def rs_list_def RV_def rate_defs)
  from fix_rate_correct [OF w e f] have "RV ` set (rs_list rs') = {2, 22}" "rs_list rs' \<noteq> [] \<longrightarrow> tx = rs_nrates rs' - 1"
    unfolding s by blast+
  then show ?thesis using f by auto
qed

end
