(* ===== verification/Amrr.thy ===== *)
theory Amrr
  imports Rates
begin

text \<open>
  The AMRR rate adaptation of \<open>net80211/ieee80211_amrr.c\<close> and its driver, the transmit
  report of \<open>driver/iwm/if_iwm.c\<close>.  The state is the index of the transmit rate together with
  the counters of the node; the counters are 32-bit words that wrap.
\<close>

subsection \<open>State and operations\<close>

record ieee80211_amrr =
  amrr_min_success_threshold :: u32
  amrr_max_success_threshold :: u32

record ieee80211_amrr_node =
  amn_success :: u32
  amn_recovery :: bool
  amn_success_threshold :: u32
  amn_txcnt :: u32
  amn_retrycnt :: u32

definition is_success :: "ieee80211_amrr_node \<Rightarrow> bool" where
  "is_success amn \<longleftrightarrow> amn_retrycnt amn < amn_txcnt amn div 10"

definition is_failure :: "ieee80211_amrr_node \<Rightarrow> bool" where
  "is_failure amn \<longleftrightarrow> amn_retrycnt amn > amn_txcnt amn div 3"

definition is_enough :: "ieee80211_amrr_node \<Rightarrow> bool" where
  "is_enough amn \<longleftrightarrow> amn_txcnt amn > 10"

definition is_min_rate :: "int \<Rightarrow> bool" where "is_min_rate txrate \<longleftrightarrow> txrate = 0"

definition is_max_rate :: "ieee80211_rateset \<Rightarrow> int \<Rightarrow> bool" where
  "is_max_rate rs txrate \<longleftrightarrow> txrate = int (rs_nrates rs) - 1"

definition reset_cnt :: "ieee80211_amrr_node \<Rightarrow> ieee80211_amrr_node" where
  "reset_cnt amn = amn\<lparr>amn_txcnt := 0, amn_retrycnt := 0\<rparr>"

definition ieee80211_amrr_node_init :: "ieee80211_amrr \<Rightarrow> ieee80211_amrr_node" where
  "ieee80211_amrr_node_init amrr =
    \<lparr>amn_success = 0, amn_recovery = False, amn_success_threshold = amrr_min_success_threshold amrr,
     amn_txcnt = 0, amn_retrycnt = 0\<rparr>"

text \<open>The new threshold after a failure: doubled up to the maximum when the rate was just raised.\<close>

definition amrr_threshold :: "ieee80211_amrr \<Rightarrow> ieee80211_amrr_node \<Rightarrow> u32" where
  "amrr_threshold amrr amn =
    (if amn_recovery amn
     then (let t = amn_success_threshold amn * 2
           in if t > amrr_max_success_threshold amrr then amrr_max_success_threshold amrr else t)
     else amrr_min_success_threshold amrr)"

definition ieee80211_amrr_choose ::
  "ieee80211_amrr \<Rightarrow> ieee80211_rateset \<Rightarrow> int \<times> ieee80211_amrr_node \<Rightarrow> int \<times> ieee80211_amrr_node" where
  "ieee80211_amrr_choose amrr rs = (\<lambda>(txrate, amn).
    let (need_change, txrate', amn') =
      (if is_success amn \<and> is_enough amn
       then (let amn1 = amn\<lparr>amn_success := amn_success amn + 1\<rparr>
             in if amn_success amn1 \<ge> amn_success_threshold amn1 \<and> \<not> is_max_rate rs txrate
                then (True, txrate + 1, amn1\<lparr>amn_recovery := True, amn_success := 0\<rparr>)
                else (False, txrate, amn1\<lparr>amn_recovery := False\<rparr>))
       else if is_failure amn
       then (let amn1 = amn\<lparr>amn_success := 0\<rparr>
             in if \<not> is_min_rate txrate
                then (True, txrate - 1, amn1\<lparr>amn_success_threshold := amrr_threshold amrr amn1, amn_recovery := False\<rparr>)
                else (False, txrate, amn1\<lparr>amn_recovery := False\<rparr>))
       else (False, txrate, amn))
    in (txrate', if is_enough amn \<or> need_change then reset_cnt amn' else amn'))"

text \<open>
  What the driver does: a transmit report counts a frame and whether its transmission was
  retried; the calibration timer runs the adaptation.
\<close>

datatype amrr_event = tx_report bool | amrr_timer

definition iwm_rx_tx_cmd_single :: "bool \<Rightarrow> ieee80211_amrr_node \<Rightarrow> ieee80211_amrr_node" where
  "iwm_rx_tx_cmd_single failack amn =
    (let amn = amn\<lparr>amn_txcnt := amn_txcnt amn + 1\<rparr>
     in if failack then amn\<lparr>amn_retrycnt := amn_retrycnt amn + 1\<rparr> else amn)"

fun amrr_step :: "ieee80211_amrr \<Rightarrow> ieee80211_rateset \<Rightarrow> amrr_event \<Rightarrow> int \<times> ieee80211_amrr_node \<Rightarrow> int \<times> ieee80211_amrr_node" where
  "amrr_step amrr rs (tx_report f) s = (fst s, iwm_rx_tx_cmd_single f (snd s))"
| "amrr_step amrr rs amrr_timer s = ieee80211_amrr_choose amrr rs s"

definition amrr_exec :: "ieee80211_amrr \<Rightarrow> ieee80211_rateset \<Rightarrow> amrr_event list \<Rightarrow> int \<times> ieee80211_amrr_node \<Rightarrow> int \<times> ieee80211_amrr_node" where
  "amrr_exec amrr rs es s = fold (amrr_step amrr rs) es s"

lemmas amrr_macros = is_min_rate_def is_max_rate_def reset_cnt_def
lemmas choose_def = ieee80211_amrr_choose_def

subsection \<open>Invariant\<close>

text \<open>
  The rate index is one of the set's, the threshold lies between its bounds, and below the highest
  rate the successes counted so far are fewer than the threshold.
\<close>

definition amrr_ok :: "ieee80211_amrr \<Rightarrow> bool" where
  "amrr_ok amrr \<longleftrightarrow> 1 \<le> amrr_min_success_threshold amrr \<and>
     amrr_min_success_threshold amrr \<le> amrr_max_success_threshold amrr \<and> amrr_max_success_threshold amrr < 2 ^ 31"

definition amrr_inv :: "ieee80211_amrr \<Rightarrow> ieee80211_rateset \<Rightarrow> int \<times> ieee80211_amrr_node \<Rightarrow> bool" where
  "amrr_inv amrr rs s \<longleftrightarrow> (case s of (txrate, amn) \<Rightarrow>
     0 \<le> txrate \<and> txrate < int (rs_nrates rs) \<and>
     amrr_min_success_threshold amrr \<le> amn_success_threshold amn \<and>
     amn_success_threshold amn \<le> amrr_max_success_threshold amrr \<and>
     (is_max_rate rs txrate \<or> amn_success amn < amn_success_threshold amn))"

lemma double_u32: "(t :: u32) < 2 ^ 31 \<Longrightarrow> t \<le> t * 2"
  by (simp add: word_le_nat_alt word_less_nat_alt unat_word_ariths)

lemma amrr_threshold_bounds:
  assumes "amrr_ok amrr" "amrr_min_success_threshold amrr \<le> amn_success_threshold amn"
    "amn_success_threshold amn \<le> amrr_max_success_threshold amrr"
  shows "amrr_min_success_threshold amrr \<le> amrr_threshold amrr amn"
    and "amrr_threshold amrr amn \<le> amrr_max_success_threshold amrr"
    and "0 < amrr_threshold amrr amn"
proof -
  have "amn_success_threshold amn \<le> amn_success_threshold amn * 2"
    using assms by (intro double_u32) (auto simp: amrr_ok_def)
  then show min: "amrr_min_success_threshold amrr \<le> amrr_threshold amrr amn"
    using assms by (auto simp: amrr_threshold_def amrr_ok_def Let_def)
  show "amrr_threshold amrr amn \<le> amrr_max_success_threshold amrr"
    using assms by (auto simp: amrr_threshold_def amrr_ok_def Let_def)
  have "0 < amrr_min_success_threshold amrr"
    using assms(1) by (auto simp: amrr_ok_def word_le_nat_alt word_less_nat_alt)
  with min show "0 < amrr_threshold amrr amn" by simp
qed

lemma amrr_init_inv:
  "amrr_ok amrr \<Longrightarrow> 0 < rs_nrates rs \<Longrightarrow> amrr_inv amrr rs (0, ieee80211_amrr_node_init amrr)"
  by (auto simp: amrr_inv_def amrr_ok_def ieee80211_amrr_node_init_def word_le_nat_alt word_less_nat_alt)

lemma amrr_choose_inv:
  assumes ok: "amrr_ok amrr" and inv: "amrr_inv amrr rs s"
  shows "amrr_inv amrr rs (ieee80211_amrr_choose amrr rs s)"
proof -
  obtain txrate amn where s: "s = (txrate, amn)" by fastforce
  have b: "amrr_min_success_threshold amrr \<le> amn_success_threshold amn"
    "amn_success_threshold amn \<le> amrr_max_success_threshold amrr"
    using inv by (simp_all add: s amrr_inv_def)
  note t = amrr_threshold_bounds [OF ok, of "amn\<lparr>amn_success := 0\<rparr>"]
  have p: "0 < amn_success_threshold amn"
    using b(1) ok by (auto simp: amrr_ok_def word_le_nat_alt word_less_nat_alt)
  show ?thesis
    using inv b t p by (auto simp: s amrr_inv_def choose_def Let_def amrr_macros not_le)
qed

lemma amrr_report_inv: "amrr_inv amrr rs s \<Longrightarrow> amrr_inv amrr rs (fst s, iwm_rx_tx_cmd_single f (snd s))"
  by (auto simp: amrr_inv_def iwm_rx_tx_cmd_single_def Let_def split: prod.splits)

lemma amrr_step_inv: "amrr_ok amrr \<Longrightarrow> amrr_inv amrr rs s \<Longrightarrow> amrr_inv amrr rs (amrr_step amrr rs e s)"
  by (cases e) (simp_all add: amrr_choose_inv amrr_report_inv)

lemma amrr_exec_inv: "amrr_ok amrr \<Longrightarrow> amrr_inv amrr rs s \<Longrightarrow> amrr_inv amrr rs (amrr_exec amrr rs es s)"
  by (induction es arbitrary: s) (simp_all add: amrr_exec_def amrr_step_inv)

subsection \<open>Rounds\<close>

text \<open>A round is the reports of some frames and the timer; it is good when few were retried.\<close>

definition amrr_round :: "bool list \<Rightarrow> amrr_event list" where
  "amrr_round fs = map tx_report fs @ [amrr_timer]"

definition good_round :: "bool list \<Rightarrow> bool" where
  "good_round fs \<longleftrightarrow> 10 < length fs \<and> length fs < 2 ^ 32 \<and> length (filter id fs) < length fs div 10"

definition bad_round :: "bool list \<Rightarrow> bool" where
  "bad_round fs \<longleftrightarrow> length fs < 2 ^ 32 \<and> length (filter id fs) > length fs div 3"

definition fresh_cnt :: "int \<times> ieee80211_amrr_node \<Rightarrow> bool" where
  "fresh_cnt s \<longleftrightarrow> amn_txcnt (snd s) = 0 \<and> amn_retrycnt (snd s) = 0"

lemma amrr_exec_append: "amrr_exec amrr rs (es @ es') s = amrr_exec amrr rs es' (amrr_exec amrr rs es s)"
  by (simp add: amrr_exec_def)

lemma amrr_exec_reports:
  "amrr_exec amrr rs (map tx_report fs) s =
    (fst s, snd s\<lparr>amn_txcnt := amn_txcnt (snd s) + of_nat (length fs),
                  amn_retrycnt := amn_retrycnt (snd s) + of_nat (length (filter id fs))\<rparr>)"
  by (induction fs arbitrary: s)
    (auto simp: amrr_exec_def iwm_rx_tx_cmd_single_def Let_def add.assoc prod_eq_iff)

lemma amrr_exec_round:
  assumes "fresh_cnt s"
  shows "amrr_exec amrr rs (amrr_round fs) s = ieee80211_amrr_choose amrr rs
    (fst s, snd s\<lparr>amn_txcnt := of_nat (length fs), amn_retrycnt := of_nat (length (filter id fs))\<rparr>)"
  using assms unfolding amrr_round_def amrr_exec_append amrr_exec_reports
  by (simp add: fresh_cnt_def amrr_exec_def)

lemma unat_of_nat_u32: "n < 2 ^ 32 \<Longrightarrow> unat (of_nat n :: u32) = n"
  by (simp add: unsigned_of_nat take_bit_nat_eq_self)

lemma round_counts:
  assumes "length fs < 2 ^ 32"
  shows "unat (of_nat (length fs) :: u32) = length fs"
    "unat (of_nat (length (filter id fs)) :: u32) = length (filter id fs)"
  using assms length_filter_le [of id fs] by (simp_all add: unat_of_nat_u32 del: length_filter_le)

lemma good_round_success:
  assumes "good_round fs"
  shows "(of_nat (length (filter id fs)) :: u32) < of_nat (length fs) div 10" "10 < (of_nat (length fs) :: u32)"
  using assms round_counts [of fs] by (simp_all add: good_round_def word_less_nat_alt unat_div)

lemma bad_round_failure:
  assumes "bad_round fs"
  shows "(of_nat (length fs) :: u32) div 3 < of_nat (length (filter id fs))"
    "\<not> (of_nat (length (filter id fs)) :: u32) < of_nat (length fs) div 10"
  using assms round_counts [of fs] by (auto simp: bad_round_def word_less_nat_alt unat_div)

lemma unat_Suc_less: "(a :: u32) < b \<Longrightarrow> unat (a + 1) = unat a + 1"
  using unsigned_less [of b, where 'a = nat] by (simp add: word_less_nat_alt unat_word_ariths)

text \<open>The number of good rounds that are still needed.\<close>

definition amrr_todo :: "ieee80211_rateset \<Rightarrow> int \<times> ieee80211_amrr_node \<Rightarrow> nat" where
  "amrr_todo rs s = (case s of (txrate, amn) \<Rightarrow>
     if is_max_rate rs txrate then 0
     else unat (amn_success_threshold amn) * nat (int (rs_nrates rs) - 1 - txrate) - unat (amn_success amn))"

lemma good_round_step:
  assumes ok: "amrr_ok amrr" and inv: "amrr_inv amrr rs s" and f: "fresh_cnt s" and g: "good_round fs"
  defines "s' \<equiv> amrr_exec amrr rs (amrr_round fs) s"
  shows "fresh_cnt s'" "amn_success_threshold (snd s') = amn_success_threshold (snd s)"
    "amrr_todo rs s' \<le> amrr_todo rs s - 1"
proof -
  obtain txrate amn where s: "s = (txrate, amn)" by fastforce
  note g' = good_round_success [OF g]
  show "fresh_cnt s'" "amn_success_threshold (snd s') = amn_success_threshold (snd s)"
    unfolding s'_def amrr_exec_round [OF f]
    using g' by (auto simp: s choose_def is_success_def is_enough_def Let_def fresh_cnt_def reset_cnt_def)
  show "amrr_todo rs s' \<le> amrr_todo rs s - 1"
  proof (cases "is_max_rate rs txrate")
    case True
    then show ?thesis unfolding s'_def amrr_exec_round [OF f]
      using g' by (auto simp: s choose_def is_success_def is_enough_def Let_def amrr_todo_def reset_cnt_def)
  next
    case False
    have lt: "amn_success amn < amn_success_threshold amn" "txrate < int (rs_nrates rs) - 1"
      using inv False by (auto simp: s amrr_inv_def is_max_rate_def)
    define k where "k = nat (int (rs_nrates rs) - 1 - txrate)"
    have k: "0 < k" "nat (int (rs_nrates rs) - 1 - (txrate + 1)) = k - 1" using lt(2) by (auto simp: k_def)
    have suc: "unat (amn_success amn + 1) = unat (amn_success amn) + 1"
      using lt(1) by (rule unat_Suc_less)
    show ?thesis
    proof (cases "amn_success_threshold amn \<le> amn_success amn + 1")
      case True
      then have "unat (amn_success_threshold amn) = unat (amn_success amn) + 1"
        using lt(1) suc by (simp add: word_le_nat_alt word_less_nat_alt)
      then show ?thesis unfolding s'_def amrr_exec_round [OF f]
        using g' True False k
        by (cases k) (auto simp: s choose_def is_success_def is_enough_def Let_def amrr_todo_def reset_cnt_def k_def [symmetric])
    next
      case no: False
      then show ?thesis unfolding s'_def amrr_exec_round [OF f]
        using g' False suc
        by (auto simp: s choose_def is_success_def is_enough_def Let_def amrr_todo_def reset_cnt_def)
    qed
  qed
qed

lemma todo_zero:
  assumes "amrr_inv amrr rs s" "amrr_todo rs s = 0"
  shows "is_max_rate rs (fst s)"
proof (rule ccontr)
  obtain txrate amn where s: "s = (txrate, amn)" by fastforce
  assume no: "\<not> is_max_rate rs (fst s)"
  then have "1 \<le> nat (int (rs_nrates rs) - 1 - txrate)" "unat (amn_success amn) < unat (amn_success_threshold amn)"
    using assms(1) by (auto simp: s amrr_inv_def is_max_rate_def word_less_nat_alt)
  then have "unat (amn_success amn) < unat (amn_success_threshold amn) * nat (int (rs_nrates rs) - 1 - txrate)"
    by (metis less_le_trans mult_le_mono2 nat_mult_1_right)
  then show False using assms(2) no by (simp add: s amrr_todo_def)
qed

lemma good_rounds:
  assumes "amrr_ok amrr" "amrr_inv amrr rs s" "fresh_cnt s" "list_all good_round fss"
  shows "amrr_todo rs (amrr_exec amrr rs (concat (map amrr_round fss)) s) \<le> amrr_todo rs s - length fss"
  using assms(2-)
proof (induction fss arbitrary: s)
  case Nil
  then show ?case by (simp add: amrr_exec_def)
next
  case (Cons fs fss)
  note step = good_round_step [OF assms(1) Cons.prems(1,2), of fs]
  show ?case
    using Cons.IH [OF amrr_exec_inv [OF assms(1) Cons.prems(1)] step(1)] step(3) Cons.prems(3)
    by (force simp: amrr_exec_append)
qed

lemma bad_round_step:
  assumes "fresh_cnt s" "bad_round fs" "0 < fst s"
  shows "fst (amrr_exec amrr rs (amrr_round fs) s) = fst s - 1" "fresh_cnt (amrr_exec amrr rs (amrr_round fs) s)"
  unfolding amrr_exec_round [OF assms(1)]
  using bad_round_failure [OF assms(2)] assms(3)
  by (auto simp: choose_def is_success_def is_failure_def Let_def fresh_cnt_def amrr_macros)

lemma bad_rounds:
  assumes "fresh_cnt s" "list_all bad_round fss" "int (length fss) \<le> fst s"
  shows "fst (amrr_exec amrr rs (concat (map amrr_round fss)) s) = fst s - int (length fss)"
  using assms
proof (induction fss arbitrary: s)
  case Nil
  then show ?case by (simp add: amrr_exec_def)
next
  case (Cons fs fss)
  then show ?case using bad_round_step [OF Cons.prems(1), of fs] by (simp add: amrr_exec_append)
qed

subsection \<open>Properties\<close>

text \<open>
  C37.  Whatever frames are reported and whenever the timer runs, the rate index the adaptation
  leaves is an index of the rate set, the success threshold stays within its configured bounds
  without wrapping, and below the highest rate the success counter is below the threshold.
\<close>

theorem amrr_bounds:
  assumes "amrr_ok amrr" "0 < rs_nrates rs"
    "amrr_exec amrr rs es (0, ieee80211_amrr_node_init amrr) = (txrate, amn)"
  shows "0 \<le> txrate \<and> txrate < int (rs_nrates rs) \<and>
    amrr_min_success_threshold amrr \<le> amn_success_threshold amn \<and>
    amn_success_threshold amn \<le> amrr_max_success_threshold amrr \<and>
    (txrate < int (rs_nrates rs) - 1 \<longrightarrow> amn_success amn < amn_success_threshold amn)"
  using amrr_exec_inv [OF assms(1) amrr_init_inv [OF assms(1,2)], of es] assms(3)
  by (auto simp: amrr_inv_def is_max_rate_def)

definition ex_amrr :: ieee80211_amrr where
  "ex_amrr = \<lparr>amrr_min_success_threshold = 1, amrr_max_success_threshold = 15\<rparr>"

lemma ex_amrr_ok: "amrr_ok ex_amrr"
  by (simp add: amrr_ok_def ex_amrr_def)

definition ex_rates :: ieee80211_rateset where
  "ex_rates = \<lparr>rs_nrates = 4, rs_rates = [2, 4, 11, 22] @ replicate 11 0\<rparr>"

theorem amrr_bounds_witness:
  "fst (amrr_exec ex_amrr ex_rates (amrr_round (replicate 11 False)) (0, ieee80211_amrr_node_init ex_amrr)) < 4"
proof -
  obtain t a where e: "amrr_exec ex_amrr ex_rates (amrr_round (replicate 11 False)) (0, ieee80211_amrr_node_init ex_amrr) = (t, a)"
    by fastforce
  show ?thesis using amrr_bounds [OF ex_amrr_ok _ e] unfolding e by (simp add: ex_rates_def)
qed

text \<open>
  C38.  The adaptation reaches the right end of the rate set: from any state of a run with fresh
  counters, as many rounds of well-received frames as the threshold times the number of higher
  rates lead to the highest rate, and as many rounds of failing frames as there are lower rates
  lead to the lowest.
\<close>

theorem amrr_reaches:
  assumes "amrr_ok amrr" "amrr_inv amrr rs (txrate, amn)" "amn_txcnt amn = 0" "amn_retrycnt amn = 0"
  shows "(list_all good_round fss \<and> unat (amn_success_threshold amn) * nat (int (rs_nrates rs) - 1 - txrate) \<le> length fss \<longrightarrow>
      fst (amrr_exec amrr rs (concat (map amrr_round fss)) (txrate, amn)) = int (rs_nrates rs) - 1) \<and>
    (list_all bad_round fss \<and> int (length fss) = txrate \<longrightarrow>
      fst (amrr_exec amrr rs (concat (map amrr_round fss)) (txrate, amn)) = 0)"
proof -
  let ?s = "amrr_exec amrr rs (concat (map amrr_round fss)) (txrate, amn)"
  have f: "fresh_cnt (txrate, amn)" using assms(3,4) by (simp add: fresh_cnt_def)
  have "amrr_inv amrr rs ?s" using assms(1,2) by (rule amrr_exec_inv)
  then have zero: "amrr_todo rs ?s = 0 \<Longrightarrow> is_max_rate rs (fst ?s)" by (rule todo_zero)
  have todo: "amrr_todo rs (txrate, amn) \<le> unat (amn_success_threshold amn) * nat (int (rs_nrates rs) - 1 - txrate)"
    by (simp add: amrr_todo_def)
  have "fst ?s = int (rs_nrates rs) - 1"
    if "list_all good_round fss" "unat (amn_success_threshold amn) * nat (int (rs_nrates rs) - 1 - txrate) \<le> length fss"
    using good_rounds [OF assms(1,2) f that(1)] zero todo that(2) by (simp add: is_max_rate_def)
  moreover have "fst ?s = 0" if "list_all bad_round fss" "int (length fss) = txrate"
    using bad_rounds [OF f that(1), of amrr rs] that(2) by simp
  ultimately show ?thesis by blast
qed

theorem amrr_reaches_witness:
  "fst (amrr_exec ex_amrr ex_rates (concat (map amrr_round (replicate 3 (replicate 11 False))))
     (0, ieee80211_amrr_node_init ex_amrr)) = 3"
proof -
  have i: "amrr_inv ex_amrr ex_rates (0, ieee80211_amrr_node_init ex_amrr)"
    by (rule amrr_init_inv [OF ex_amrr_ok]) (simp add: ex_rates_def)
  have g: "good_round (replicate 11 False)" by (simp add: good_round_def)
  show ?thesis
    using amrr_reaches [OF ex_amrr_ok i, of "replicate 3 (replicate 11 False)"] g
    by (simp add: ieee80211_amrr_node_init_def ex_amrr_def ex_rates_def numeral_3_eq_3)
qed

end
