(* ===== verification/Rssadapt.thy ===== *)
theory Rssadapt
  imports Rates
begin

text \<open>
  The rate adaptation by received signal strength of \<open>net80211/ieee80211_rssadapt.c\<close>.  A node
  has a table of thresholds, one row for each class of frame lengths and one column for each
  rate.  An access outside the table is the value \<open>None\<close>.  The kernel's \<open>ratecheck\<close> is a
  parameter: from the last event and the interval it yields whether the event may happen and
  the new time of the last event.
\<close>

subsection \<open>State\<close>

definition IEEE80211_RSSADAPT_BKTS :: nat where "IEEE80211_RSSADAPT_BKTS = 3"
definition IEEE80211_RSSADAPT_BKT0 :: u32 where "IEEE80211_RSSADAPT_BKT0 = 128"
definition IEEE80211_RSSADAPT_BKTPOWER :: nat where "IEEE80211_RSSADAPT_BKTPOWER = 3"

lemmas bkt_defs = IEEE80211_RSSADAPT_BKTS_def IEEE80211_RSSADAPT_BKT0_def IEEE80211_RSSADAPT_BKTPOWER_def

record expavgctl =
  rc_decay_denom :: u32
  rc_decay_old :: u32
  rc_thresh_denom :: u32
  rc_thresh_old :: u32
  rc_avgrssi_denom :: u32
  rc_avgrssi_old :: u32

definition master_expavgctl :: expavgctl where
  "master_expavgctl = \<lparr>rc_decay_denom = 16, rc_decay_old = 15, rc_thresh_denom = 8, rc_thresh_old = 4,
     rc_avgrssi_denom = 8, rc_avgrssi_old = 4\<rparr>"

record timeval =
  tv_sec :: int
  tv_usec :: int

record rssadapt =
  ra_avg_rssi :: u16
  ra_nfail :: u32
  ra_nok :: u32
  ra_pktrate :: u32
  ra_rate_thresh :: "u16 list list"
  ra_last_raise :: timeval
  ra_raise_interval :: timeval

record rssdesc =
  id_len :: u32
  id_rateidx :: u32
  id_rssi :: u8

text \<open>The weighted mean, in unsigned arithmetic, and its assignment to a 16-bit field.\<close>

definition interpolate :: "u32 \<Rightarrow> u32 \<Rightarrow> u32 \<Rightarrow> u32 \<Rightarrow> u16" where
  "interpolate w_old denom v_old v_new = ucast ((w_old * v_old + (denom - w_old) * v_new) div denom)"

subsection \<open>Operations\<close>

function bucket :: "nat \<Rightarrow> u32 \<Rightarrow> nat \<Rightarrow> u32 \<Rightarrow> nat" where
  "bucket i limit thridx len =
    (if i < IEEE80211_RSSADAPT_BKTS
     then (if len \<le> limit then i else bucket (Suc i) (push_bit IEEE80211_RSSADAPT_BKTPOWER limit) i len)
     else thridx)"
  by pat_completeness auto
termination by (relation "measure (\<lambda>(i, _). IEEE80211_RSSADAPT_BKTS - i)") auto

declare bucket.simps [simp del]

definition len_bucket :: "u32 \<Rightarrow> nat" where
  "len_bucket len = bucket 0 IEEE80211_RSSADAPT_BKT0 0 len"

text \<open>The element of a row; the row is an array of its own length.\<close>

definition thr_at :: "u16 list \<Rightarrow> nat \<Rightarrow> u16 option" where
  "thr_at thrs i = (if i < length thrs then Some (thrs ! i) else None)"

fun choose_loop :: "ieee80211_rateset \<Rightarrow> u8 \<Rightarrow> bool \<Rightarrow> u16 list \<Rightarrow> u16 \<Rightarrow> nat \<Rightarrow> nat \<Rightarrow> nat option" where
  "choose_loop rs flags do_not_adapt thrs avg 0 rateidx = Some rateidx"
| "choose_loop rs flags do_not_adapt thrs avg (Suc i) rateidx =
    (if rs_rates rs ! i AND flags \<noteq> flags then choose_loop rs flags do_not_adapt thrs avg i i
     else if do_not_adapt then Some i
     else case thr_at thrs i of
       None \<Rightarrow> None
     | Some t \<Rightarrow> if t < avg then Some i else choose_loop rs flags do_not_adapt thrs avg i i)"

definition ieee80211_rssadapt_choose ::
  "rssadapt \<Rightarrow> ieee80211_rateset \<Rightarrow> bytes \<Rightarrow> u32 \<Rightarrow> int \<Rightarrow> bool \<Rightarrow> nat option" where
  "ieee80211_rssadapt_choose ra rs wh len fixed_rate do_not_adapt =
    (let flags = (if i_fc wh 0 AND IEEE80211_FC0_TYPE_MASK = IEEE80211_FC0_TYPE_CTL then IEEE80211_RATE_BASIC else 0);
         thrs = ra_rate_thresh ra ! len_bucket len
     in if fixed_rate \<noteq> - 1
        then (if fixed_rate < 0 \<or> fixed_rate \<ge> int (length (rs_rates rs)) then None
              else if rs_rates rs ! nat fixed_rate AND flags = flags then Some (nat fixed_rate)
              else choose_loop rs (flags OR IEEE80211_RATE_BASIC) do_not_adapt thrs (ra_avg_rssi ra) (nat fixed_rate) 0)
        else choose_loop rs flags do_not_adapt thrs (ra_avg_rssi ra) (rs_nrates rs) 0)"

definition ieee80211_rssadapt_updatestats :: "rssadapt \<Rightarrow> rssadapt" where
  "ieee80211_rssadapt_updatestats ra =
    (let pktrate = (ra_pktrate ra + 10 * (ra_nfail ra + ra_nok ra)) div 2;
         interval = max 100000 (10000000 div max 1 (10 * pktrate))
     in ra\<lparr>ra_pktrate := pktrate, ra_nfail := 0, ra_nok := 0,
           ra_raise_interval := \<lparr>tv_sec = uint interval div (1000 * 1000), tv_usec = uint interval mod (1000 * 1000)\<rparr>\<rparr>)"

definition ieee80211_rssadapt_input :: "rssadapt \<Rightarrow> int \<Rightarrow> rssadapt" where
  "ieee80211_rssadapt_input ra rssi =
    ra\<lparr>ra_avg_rssi := interpolate (rc_avgrssi_old master_expavgctl) (rc_avgrssi_denom master_expavgctl)
         (ucast (ra_avg_rssi ra)) (push_bit 8 (of_int rssi))\<rparr>"

definition set_thresh :: "rssadapt \<Rightarrow> nat \<Rightarrow> nat \<Rightarrow> u16 \<Rightarrow> rssadapt" where
  "set_thresh ra b i t = ra\<lparr>ra_rate_thresh := (ra_rate_thresh ra)[b := (ra_rate_thresh ra ! b)[i := t]]\<rparr>"

definition ieee80211_rssadapt_lower_rate :: "ieee80211_rateset \<Rightarrow> rssadapt \<Rightarrow> rssdesc \<Rightarrow> rssadapt option" where
  "ieee80211_rssadapt_lower_rate rs ra0 d =
    (let ra = ra0\<lparr>ra_nfail := ra_nfail ra0 + 1\<rparr>; i = unat (id_rateidx d)
     in if i \<ge> rs_nrates rs then Some ra
        else let thridx = len_bucket (id_len d)
             in case thr_at (ra_rate_thresh ra ! thridx) i of
                  None \<Rightarrow> None
                | Some last_thr \<Rightarrow>
                    Some (set_thresh ra thridx i
                      (interpolate (rc_thresh_old master_expavgctl) (rc_thresh_denom master_expavgctl)
                        (ucast last_thr) (push_bit 8 (ucast (id_rssi d))))))"

definition ieee80211_rssadapt_raise_rate ::
  "(timeval \<Rightarrow> timeval \<Rightarrow> bool \<times> timeval) \<Rightarrow> ieee80211_rateset \<Rightarrow> rssadapt \<Rightarrow> rssdesc \<Rightarrow> rssadapt option" where
  "ieee80211_rssadapt_raise_rate ratecheck rs ra0 d =
    (let (ok, last) = ratecheck (ra_last_raise ra0) (ra_raise_interval ra0);
         ra = ra0\<lparr>ra_nok := ra_nok ra0 + 1, ra_last_raise := last\<rparr>
     in if \<not> ok then Some ra
        else let b = len_bucket (id_len d); thrs = ra_rate_thresh ra ! b;
                 i = unat (id_rateidx d); j = unat (id_rateidx d + 1)
             in if \<not> j < rs_nrates rs then Some ra
                else case (thr_at thrs j, thr_at thrs i) of
                  (Some oldthr, Some lowthr) \<Rightarrow>
                    if oldthr > lowthr
                    then Some (set_thresh ra b j
                      (interpolate (rc_decay_old master_expavgctl) (rc_decay_denom master_expavgctl)
                        (ucast oldthr) (ucast (if lowthr = 0 then ra_avg_rssi ra else lowthr))))
                    else Some ra
                | _ \<Rightarrow> None)"

subsection \<open>Lemmas\<close>

definition wf_rssadapt :: "rssadapt \<Rightarrow> bool" where
  "wf_rssadapt ra \<longleftrightarrow> length (ra_rate_thresh ra) = IEEE80211_RSSADAPT_BKTS \<and>
     (\<forall>r \<in> set (ra_rate_thresh ra). length r = IEEE80211_RATE_SIZE)"

lemma len_bucket_cases: "len_bucket len = (if len \<le> 128 then 0 else if len \<le> 1024 then 1 else 2)"
  by (simp add: len_bucket_def bucket.simps bkt_defs push_bit_eq_mult)

lemma len_bucket_less [simp]: "len_bucket len < IEEE80211_RSSADAPT_BKTS"
  by (simp add: len_bucket_cases bkt_defs)

lemma wf_row: "wf_rssadapt ra \<Longrightarrow> length (ra_rate_thresh ra ! len_bucket len) = IEEE80211_RATE_SIZE"
  using len_bucket_less [of len] by (simp add: wf_rssadapt_def)

lemma wf_set_thresh: "wf_rssadapt ra \<Longrightarrow> wf_rssadapt (set_thresh ra (len_bucket len) i t)"
  using wf_row [of ra len] by (auto simp: wf_rssadapt_def set_thresh_def dest!: subsetD [OF set_update_subset_insert])

lemma weighted_mean:
  fixes a b v w :: nat
  assumes "0 < a + b"
  shows "min v w \<le> (a * v + b * w) div (a + b)" "(a * v + b * w) div (a + b) \<le> max v w"
proof -
  have "(a + b) * min v w \<le> a * v + b * w" "a * v + b * w \<le> (a + b) * max v w"
    by (simp_all add: add_mult_distrib add_mono)
  then show "min v w \<le> (a * v + b * w) div (a + b)" "(a * v + b * w) div (a + b) \<le> max v w"
    using assms div_le_mono [of "(a + b) * min v w" "a * v + b * w" "a + b"]
      div_le_mono [of "a * v + b * w" "(a + b) * max v w" "a + b"] by simp_all
qed

text \<open>No step of the mean of two 16-bit values wraps, and it lies between them.\<close>

lemma interpolate_between:
  fixes x y :: u16
  assumes "unat a \<le> 15" "unat d \<le> 16" "unat a \<le> unat d" "0 < d"
  shows "min x y \<le> interpolate a d (ucast x) (ucast y)" "interpolate a d (ucast x) (ucast y) \<le> max x y"
proof -
  let ?m = "(unat a * unat x + (unat d - unat a) * unat y) div (unat a + (unat d - unat a))"
  have b: "unat x < 65536" "unat y < 65536"
    using unsigned_less [of x, where 'a = nat] unsigned_less [of y, where 'a = nat] by simp_all
  have "unat a * unat x \<le> 15 * 65535" "(unat d - unat a) * unat y \<le> 16 * 65535"
    using assms b by (intro mult_mono; simp)+
  then have s: "unat a * unat x + (unat d - unat a) * unat y < 2 ^ 32"
    "unat a * unat x < 2 ^ 32" "(unat d - unat a) * unat y < 2 ^ 32" by simp_all
  have m: "min (unat x) (unat y) \<le> ?m" "?m \<le> max (unat x) (unat y)"
    using assms weighted_mean [of "unat a" "unat d - unat a"] by (simp_all add: word_less_nat_alt)
  then have "?m < 2 ^ 16" using b by (simp add: max_def split: if_splits)
  moreover have "unat (d - a) = unat d - unat a" using assms(3) by (simp add: unat_sub word_le_nat_alt)
  ultimately have "unat (interpolate a d (ucast x) (ucast y)) = ?m"
    using s assms(3) b take_bit_nat_eq_self [of "unat x" 32] take_bit_nat_eq_self [of "unat y" 32]
    by (simp add: interpolate_def unat_div unat_word_ariths unsigned_ucast_eq take_bit_nat_eq_self)
  then show "min x y \<le> interpolate a d (ucast x) (ucast y)" "interpolate a d (ucast x) (ucast y) \<le> max x y"
    using m by (auto simp: word_le_nat_alt min_def max_def split: if_splits)
qed

definition between :: "'a::linorder \<Rightarrow> 'a \<Rightarrow> 'a \<Rightarrow> bool" where
  "between x y z \<longleftrightarrow> min x y \<le> z \<and> z \<le> max x y"

lemma shift_rssi: "push_bit 8 (ucast (r :: u8)) = (ucast (push_bit 8 (ucast r :: u16)) :: u32)"
  by (rule bit_word_eqI) (auto simp: bit_simps dest: bit_imp_le_length)

lemma interpolate_thresh:
  "between x (push_bit 8 (ucast (r :: u8))) (interpolate (rc_thresh_old master_expavgctl)
    (rc_thresh_denom master_expavgctl) (ucast x) (push_bit 8 (ucast r)))"
  using interpolate_between [of 4 8 x "push_bit 8 (ucast r)"]
  by (simp add: between_def master_expavgctl_def shift_rssi)

lemma interpolate_decay:
  "between x y (interpolate (rc_decay_old master_expavgctl) (rc_decay_denom master_expavgctl) (ucast x) (ucast y))"
  using interpolate_between [of 15 16 x y] by (simp add: between_def master_expavgctl_def)

lemma rssadapt_input_between:
  "between (ra_avg_rssi ra) (push_bit 8 (ucast (r :: u8))) (ra_avg_rssi (ieee80211_rssadapt_input ra (uint r)))"
proof -
  have "(of_int (uint r) :: u32) = ucast r" by (simp add: of_int_uint)
  then show ?thesis
    using interpolate_between [of 4 8 "ra_avg_rssi ra" "push_bit 8 (ucast r)"]
    by (simp add: between_def master_expavgctl_def shift_rssi ieee80211_rssadapt_input_def)
qed

text \<open>A node may be raised every tenth of a second to every ten seconds.\<close>

lemma updatestats_interval:
  fixes ra :: rssadapt
  defines "t \<equiv> ra_raise_interval (ieee80211_rssadapt_updatestats ra)"
  shows "100000 \<le> tv_sec t * 1000000 + tv_usec t" "tv_sec t * 1000000 + tv_usec t \<le> 10000000"
    "0 \<le> tv_usec t" "tv_usec t < 1000000"
proof -
  define v where "v = max (100000 :: u32) (10000000 div max 1 (10 * ((ra_pktrate ra + 10 * (ra_nfail ra + ra_nok ra)) div 2)))"
  have t: "tv_sec t * 1000000 + tv_usec t = uint v" "tv_usec t = uint v mod 1000000"
    by (simp_all add: t_def ieee80211_rssadapt_updatestats_def v_def Let_def)
  have "100000 \<le> v" by (simp add: v_def)
  moreover have "10000000 div w \<le> (10000000 :: u32)" for w
    by (simp add: word_le_nat_alt unat_div)
  then have "v \<le> 10000000" by (simp add: v_def)
  ultimately have "100000 \<le> uint v" "uint v \<le> 10000000" by (simp_all add: word_le_def)
  then show "100000 \<le> tv_sec t * 1000000 + tv_usec t" "tv_sec t * 1000000 + tv_usec t \<le> 10000000"
    "0 \<le> tv_usec t" "tv_usec t < 1000000" by (simp_all only: t(1)) (simp_all add: t(2))
qed

lemma choose_loop_spec:
  assumes "n \<le> length thrs"
  shows "\<exists>r. choose_loop rs 0 False thrs avg n 0 = Some r \<and> (0 < n \<longrightarrow> r < n) \<and>
    (r = 0 \<or> thrs ! r < avg) \<and> (\<forall>j. r < j \<and> j < n \<longrightarrow> \<not> thrs ! j < avg)"
proof -
  have g: "\<exists>r. choose_loop rs 0 False thrs avg n k = Some r \<and> (0 < n \<longrightarrow> r < n) \<and> (n = 0 \<longrightarrow> r = k) \<and>
    (r = 0 \<or> n = 0 \<or> thrs ! r < avg) \<and> (\<forall>j. r < j \<and> j < n \<longrightarrow> \<not> thrs ! j < avg)" for k
    using assms
  proof (induction n arbitrary: k)
    case (Suc n)
    show ?case
    proof (cases "thrs ! n < avg")
      case True
      then show ?thesis using Suc.prems by (auto simp: thr_at_def)
    next
      case False
      obtain r where "choose_loop rs 0 False thrs avg n n = Some r" "0 < n \<longrightarrow> r < n" "n = 0 \<longrightarrow> r = n"
        "r = 0 \<or> n = 0 \<or> thrs ! r < avg" "\<forall>j. r < j \<and> j < n \<longrightarrow> \<not> thrs ! j < avg"
        using Suc.IH [of n] Suc.prems by auto
      then show ?thesis using False Suc.prems by (auto simp: thr_at_def less_Suc_eq intro!: exI [of _ r])
    qed
  qed simp
  from g [of 0] show ?thesis by auto
qed

lemma choose_spec:
  assumes "wf_rssadapt ra" "rs_nrates rs \<le> IEEE80211_RATE_SIZE" "0 < rs_nrates rs"
    "i_fc wh 0 AND IEEE80211_FC0_TYPE_MASK \<noteq> IEEE80211_FC0_TYPE_CTL"
  shows "\<exists>r < rs_nrates rs. ieee80211_rssadapt_choose ra rs wh len (- 1) False = Some r \<and>
    (r = 0 \<or> ra_rate_thresh ra ! len_bucket len ! r < ra_avg_rssi ra) \<and>
    (\<forall>j. r < j \<and> j < rs_nrates rs \<longrightarrow> \<not> ra_rate_thresh ra ! len_bucket len ! j < ra_avg_rssi ra)"
proof -
  have "rs_nrates rs \<le> length (ra_rate_thresh ra ! len_bucket len)" using assms(2) wf_row [OF assms(1)] by simp
  from choose_loop_spec [OF this, of rs "ra_avg_rssi ra"] show ?thesis
    using assms(3,4) by (auto simp: ieee80211_rssadapt_choose_def)
qed

lemma lower_rate_spec:
  assumes "wf_rssadapt ra" "i < rs_nrates rs" "i = unat (id_rateidx d)"
  shows "ieee80211_rssadapt_lower_rate rs ra d = None \<longleftrightarrow> IEEE80211_RATE_SIZE \<le> i"
    and "i < IEEE80211_RATE_SIZE \<Longrightarrow> \<exists>t. between (ra_rate_thresh ra ! len_bucket (id_len d) ! i) (push_bit 8 (ucast (id_rssi d))) t \<and>
      ieee80211_rssadapt_lower_rate rs ra d = Some (set_thresh (ra\<lparr>ra_nfail := ra_nfail ra + 1\<rparr>) (len_bucket (id_len d)) i t)"
  using assms wf_row [OF assms(1), of "id_len d"] interpolate_thresh
  by (auto simp: ieee80211_rssadapt_lower_rate_def Let_def thr_at_def)

lemma raise_rate_spec:
  assumes wf: "wf_rssadapt ra" and n: "rs_nrates rs \<le> IEEE80211_RATE_SIZE"
    and i: "i = unat (id_rateidx d)" "i < rs_nrates rs" and b: "b = len_bucket (id_len d)"
  shows "\<exists>ra'. ieee80211_rssadapt_raise_rate ratecheck rs ra d = Some ra' \<and>
     (ra_rate_thresh ra' = ra_rate_thresh ra \<or>
      (i + 1 < rs_nrates rs \<and> (\<exists>t lo. (lo = ra_avg_rssi ra \<or> lo = ra_rate_thresh ra ! b ! i) \<and>
         between (ra_rate_thresh ra ! b ! (i + 1)) lo t \<and>
         ra_rate_thresh ra' = (ra_rate_thresh ra)[b := (ra_rate_thresh ra ! b)[i + 1 := t]])))"
proof -
  have "i < 15" using n i by (simp add: rate_defs)
  then have j: "unat (id_rateidx d + 1) = i + 1" by (simp add: unat_word_ariths i)
  have len: "length (ra_rate_thresh ra ! b) = IEEE80211_RATE_SIZE" using wf_row [OF wf] by (simp add: b)
  obtain ok l where r: "ratecheck (ra_last_raise ra) (ra_raise_interval ra) = (ok, l)" by fastforce
  let ?lo = "if ra_rate_thresh ra ! b ! i = 0 then ra_avg_rssi ra else ra_rate_thresh ra ! b ! i"
  note m = interpolate_decay [of "ra_rate_thresh ra ! b ! (i + 1)" ?lo]
  show ?thesis
  proof (cases "ok \<and> i + 1 < rs_nrates rs \<and> ra_rate_thresh ra ! b ! (i + 1) > ra_rate_thresh ra ! b ! i")
    case True
    with n have l: "i + 1 < length (ra_rate_thresh ra ! b)" "i < length (ra_rate_thresh ra ! b)" by (simp_all add: len)
    show ?thesis
      using True l m unfolding ieee80211_rssadapt_raise_rate_def r j i(1) [symmetric] b [symmetric]
      by (simp add: thr_at_def set_thresh_def Let_def r j i(1) [symmetric]) fastforce
  next
    case False
    then show ?thesis
      using n by (auto simp: ieee80211_rssadapt_raise_rate_def r j i(1) [symmetric] b [symmetric] thr_at_def Let_def len)
  qed
qed

subsection \<open>Properties\<close>


definition ex_ra :: rssadapt where
  "ex_ra = \<lparr>ra_avg_rssi = 0x2000, ra_nfail = 0, ra_nok = 0, ra_pktrate = 0,
     ra_rate_thresh = replicate 3 [0, 0x1000, 0x1800, 0x2800, 0, 0, 0, 0],
     ra_last_raise = \<lparr>tv_sec = 0, tv_usec = 0\<rparr>, ra_raise_interval = \<lparr>tv_sec = 0, tv_usec = 0\<rparr>\<rparr>"

definition ex_rs :: "nat \<Rightarrow> ieee80211_rateset" where
  "ex_rs n = \<lparr>rs_nrates = n, rs_rates = [2, 4, 11, 22, 12, 18, 24, 36, 48, 72, 96, 108, 0, 0, 0]\<rparr>"

definition ex_desc :: "u32 \<Rightarrow> rssdesc" where
  "ex_desc i = \<lparr>id_len = 1500, id_rateidx = i, id_rssi = 0x30\<rparr>"

lemma ex_ra_wf: "wf_rssadapt ex_ra"
  by (simp add: wf_rssadapt_def ex_ra_def bkt_defs rate_defs)


text \<open>
  A threshold row has eight columns but a rate set up to fifteen rates: reporting a failed
  frame accesses the table outside its row exactly when the index of the frame's rate, although
  it passed the check against the rate set, is eight or more.
\<close>

theorem rssadapt_lower_rate_outside:
  assumes "wf_rssadapt ra" "unat (id_rateidx d) < rs_nrates rs"
  shows "ieee80211_rssadapt_lower_rate rs ra d = None \<longleftrightarrow> IEEE80211_RATE_SIZE \<le> unat (id_rateidx d)"
  using lower_rate_spec(1) [OF assms] by simp

theorem rssadapt_lower_rate_outside_witness:
  "wf_rateset (ex_rs 12) \<and> ieee80211_rssadapt_lower_rate (ex_rs 12) ex_ra (ex_desc 8) = None"
  using rssadapt_lower_rate_outside [OF ex_ra_wf, of "ex_desc 8" "ex_rs 12"]
  by (simp add: ex_rs_def ex_desc_def wf_rateset_def rate_defs)

end
