(* ===== verification/Crypto.thy ===== *)
theory Crypto
  imports Ccmp
begin

text \<open>
  The generic key and cipher support of \<open>net80211/ieee80211_crypto.c\<close> and
  \<open>ieee80211_crypto.h\<close>, the null cipher of \<open>ieee80211_crypto_none.c\<close> and the key
  installation of the supplicant port (\<open>port/wpa/driver_net80211.c\<close>).  A key carries the
  private context of its cipher; a call through the cipher's method table with the context of
  another cipher is a crash, \<open>None\<close>.  The driver's key methods are parameters.
\<close>

subsection \<open>Keys with contexts, device and ciphers\<close>

datatype key_ctx = ctx_none | ctx_wep wep_ctx | ctx_tkip tkip_ctx | ctx_ccmp ccmp_ctx

record crypto_key = ieee80211_key +
  wk_private :: key_ctx

record crypto_com = com +
  ic_nw_keys :: "crypto_key list"
  ic_def_txkey :: u16
  cs_max_keyix :: u16

text \<open>A pointer to a key: an entry of the global table or the unicast key of the node.\<close>

datatype keyref = nw_key nat | ucast_key

type_synonym crypto_state = "crypto_com \<times> crypto_key"

fun get_key :: "crypto_state \<Rightarrow> keyref \<Rightarrow> crypto_key" where
  "get_key (ic, uk) (nw_key i) = ic_nw_keys ic ! i"
| "get_key (ic, uk) ucast_key = uk"

fun put_key :: "keyref \<Rightarrow> crypto_key \<Rightarrow> crypto_state \<Rightarrow> crypto_state" where
  "put_key (nw_key i) k (ic, uk) = (ic\<lparr>ic_nw_keys := (ic_nw_keys ic)[i := k]\<rparr>, uk)"
| "put_key ucast_key k (ic, uk) = (ic, k)"

record key_driver =
  cs_key_alloc :: "crypto_com \<Rightarrow> crypto_key \<Rightarrow> keyref \<Rightarrow> (u16 \<times> u16) option"
  cs_key_delete :: "crypto_com \<Rightarrow> crypto_key \<Rightarrow> bool"
  cs_key_set :: "crypto_com \<Rightarrow> crypto_key \<Rightarrow> bytes \<Rightarrow> bool"

definition null_key_alloc :: "crypto_com \<Rightarrow> crypto_key \<Rightarrow> keyref \<Rightarrow> (u16 \<times> u16) option" where
  "null_key_alloc ic k r =
    (case r of
       ucast_key \<Rightarrow> if has_flag (wk_flags k) IEEE80211_KEY_GROUP then None else Some (0, IEEE80211_KEYIX_NONE)
     | nw_key i \<Rightarrow> Some (of_nat i, IEEE80211_KEYIX_NONE))"

definition null_key_delete :: "crypto_com \<Rightarrow> crypto_key \<Rightarrow> bool" where "null_key_delete ic k = True"
definition null_key_set :: "crypto_com \<Rightarrow> crypto_key \<Rightarrow> bytes \<Rightarrow> bool" where "null_key_set ic k mac = True"

definition null_driver :: key_driver where
  "null_driver = \<lparr>cs_key_alloc = null_key_alloc, cs_key_delete = null_key_delete, cs_key_set = null_key_set\<rparr>"

type_synonym cipher_table = "cipher option list"

definition ieee80211_crypto_register :: "cipher \<Rightarrow> cipher_table \<Rightarrow> cipher_table" where
  "ieee80211_crypto_register cip ciphers =
    (if ic_cipher cip \<ge> IEEE80211_CIPHER_MAX then ciphers
     else if ciphers ! ic_cipher cip \<noteq> None \<and> ciphers ! ic_cipher cip \<noteq> Some cip then ciphers
     else ciphers[ic_cipher cip := Some cip])"

definition ieee80211_crypto_unregister :: "cipher \<Rightarrow> cipher_table \<Rightarrow> cipher_table" where
  "ieee80211_crypto_unregister cip ciphers =
    (if ic_cipher cip \<ge> IEEE80211_CIPHER_MAX then ciphers
     else if ciphers ! ic_cipher cip \<noteq> None \<and> ciphers ! ic_cipher cip \<noteq> Some cip then ciphers
     else ciphers[ic_cipher cip := None])"

definition ieee80211_crypto_available :: "nat \<Rightarrow> cipher_table \<Rightarrow> bool" where
  "ieee80211_crypto_available cipher ciphers \<longleftrightarrow> cipher < IEEE80211_CIPHER_MAX \<and> ciphers ! cipher \<noteq> None"

subsection \<open>The null cipher\<close>

definition none_attach :: key_ctx where "none_attach = ctx_none"
definition none_setkey :: "crypto_key \<Rightarrow> bool" where "none_setkey k = True"

definition none_encap :: "crypto_com \<Rightarrow> chain \<Rightarrow> bool \<times> crypto_com" where
  "none_encap ic m = (False, inc_stat is_tx_badcipher ic)"

definition none_decap :: "crypto_com \<Rightarrow> chain \<Rightarrow> bool \<times> crypto_com" where
  "none_decap ic m = (False, inc_stat is_rx_badkeyid ic)"

definition none_enmic :: "crypto_com \<Rightarrow> chain \<Rightarrow> bool \<times> crypto_com" where
  "none_enmic ic m = (False, inc_stat is_tx_badcipher ic)"

definition none_demic :: "crypto_com \<Rightarrow> chain \<Rightarrow> bool \<times> crypto_com" where
  "none_demic ic m = (False, inc_stat is_rx_badkeyid ic)"

subsection \<open>The method tables\<close>

text \<open>
  The calls through \<open>ic_attach\<close>, \<open>ic_setkey\<close>, \<open>ic_encap\<close>, \<open>ic_decap\<close>, \<open>ic_enmic\<close> and
  \<open>ic_demic\<close> of the cipher a key is bound to.  \<open>alloc\<close> and \<open>rnd\<close> are the outcome of the
  allocation and of the random number generator.
\<close>

definition ic_attach :: "bool \<times> u32 \<Rightarrow> cipher \<Rightarrow> crypto_com \<Rightarrow> key_ctx option \<times> crypto_com" where
  "ic_attach mem cip ic =
    (case cip of
       cipher_none \<Rightarrow> (Some none_attach, ic)
     | cipher_wep \<Rightarrow> map_prod (map_option ctx_wep) id (wep_attach (fst mem) (snd mem) ic)
     | cipher_tkip \<Rightarrow> map_prod (map_option ctx_tkip) id (tkip_attach (fst mem) ic)
     | cipher_ccmp \<Rightarrow> map_prod (map_option ctx_ccmp) id (ccmp_attach (fst mem) ic))"

definition ic_setkey :: "crypto_key \<Rightarrow> (bool \<times> crypto_key) option" where
  "ic_setkey k =
    (case (wk_cipher k, wk_private k) of
       (cipher_none, ctx_none) \<Rightarrow> Some (none_setkey k, k)
     | (cipher_wep, ctx_wep c) \<Rightarrow> Some (wep_setkey k, k)
     | (cipher_tkip, ctx_tkip c) \<Rightarrow> Some (tkip_setkey k)
     | (cipher_ccmp, ctx_ccmp c) \<Rightarrow>
         map_option (map_prod id (\<lambda>c'. k\<lparr>wk_private := ctx_ccmp c'\<rparr>)) (ccmp_setkey k c)
     | _ \<Rightarrow> None)"

definition ic_encap ::
  "bytes option list \<Rightarrow> bytes \<Rightarrow> crypto_key \<Rightarrow> crypto_com \<Rightarrow> chain \<Rightarrow> u8 \<Rightarrow>
   (bool \<times> crypto_key \<times> crypto_com \<times> chain) option" where
  "ic_encap mems stale k ic m keyid =
    (case (wk_cipher k, wk_private k) of
       (cipher_none, ctx_none) \<Rightarrow> (case none_encap ic m of (ok, ic') \<Rightarrow> Some (ok, k, ic', m))
     | (cipher_wep, ctx_wep c) \<Rightarrow>
         (case wep_encap mems k c ic m keyid of (ok, c', ic', m') \<Rightarrow> Some (ok, k\<lparr>wk_private := ctx_wep c'\<rparr>, ic', m'))
     | (cipher_tkip, ctx_tkip c) \<Rightarrow>
         (case tkip_encap mems k c ic m keyid of
            (ok, k', c', ic', m') \<Rightarrow> Some (ok, k'\<lparr>wk_private := ctx_tkip c'\<rparr>, ic', m'))
     | (cipher_ccmp, ctx_ccmp c) \<Rightarrow> ccmp_encap mems stale k c ic m keyid
     | _ \<Rightarrow> None)"

definition ic_decap ::
  "bytes \<Rightarrow> crypto_key \<Rightarrow> crypto_com \<Rightarrow> chain \<Rightarrow> nat \<Rightarrow> (bool \<times> crypto_key \<times> crypto_com \<times> chain) option" where
  "ic_decap stale k ic m hdrlen =
    (case (wk_cipher k, wk_private k) of
       (cipher_none, ctx_none) \<Rightarrow> (case none_decap ic m of (ok, ic') \<Rightarrow> Some (ok, k, ic', m))
     | (cipher_wep, ctx_wep c) \<Rightarrow> (case wep_decap k ic m hdrlen of (ok, ic', m') \<Rightarrow> Some (ok, k, ic', m'))
     | (cipher_tkip, ctx_tkip c) \<Rightarrow>
         (case tkip_decap k c ic m hdrlen of (ok, c', ic', m') \<Rightarrow> Some (ok, k\<lparr>wk_private := ctx_tkip c'\<rparr>, ic', m'))
     | (cipher_ccmp, ctx_ccmp c) \<Rightarrow> ccmp_decap stale k c ic m hdrlen
     | _ \<Rightarrow> None)"

definition ic_enmic ::
  "bytes option list \<Rightarrow> crypto_key \<Rightarrow> crypto_com \<Rightarrow> chain \<Rightarrow> bool \<Rightarrow> (bool \<times> crypto_com \<times> chain) option" where
  "ic_enmic mems k ic m force =
    (case wk_cipher k of
       cipher_none \<Rightarrow> (case none_enmic ic m of (ok, ic') \<Rightarrow> Some (ok, ic', m))
     | cipher_wep \<Rightarrow> Some (wep_enmic m, ic, m)
     | cipher_tkip \<Rightarrow> tkip_enmic mems k ic m force
     | cipher_ccmp \<Rightarrow> Some (ccmp_enmic m, ic, m))"

definition ic_demic ::
  "crypto_key \<Rightarrow> crypto_com \<Rightarrow> chain \<Rightarrow> bool \<Rightarrow> (bool \<times> crypto_key \<times> crypto_com \<times> chain) option" where
  "ic_demic k ic m force =
    (case (wk_cipher k, wk_private k) of
       (cipher_none, ctx_none) \<Rightarrow> (case none_demic ic m of (ok, ic') \<Rightarrow> Some (ok, k, ic', m))
     | (cipher_wep, ctx_wep c) \<Rightarrow> Some (wep_demic m, k, ic, m)
     | (cipher_tkip, ctx_tkip c) \<Rightarrow> tkip_demic k c ic m force
     | (cipher_ccmp, ctx_ccmp c) \<Rightarrow> Some (ccmp_demic m, k, ic, m)
     | _ \<Rightarrow> None)"

subsection \<open>Creating, setting and deleting keys\<close>

definition ieee80211_crypto_resetkey :: "crypto_key \<Rightarrow> u16 \<Rightarrow> crypto_key" where
  "ieee80211_crypto_resetkey k ix =
    k\<lparr>wk_cipher := cipher_none, wk_private := none_attach, wk_keyix := ix, wk_rxkeyix := ix,
      wk_flags := IEEE80211_KEY_XMIT OR IEEE80211_KEY_RECV\<rparr>"

text \<open>A key after \<open>memset\<close>; its null cipher pointer is set at once by \<open>ieee80211_crypto_resetkey\<close>.\<close>

definition zero_key :: crypto_key where
  "zero_key = \<lparr>wk_keylen = 0, wk_flags = 0, wk_keyix = 0, wk_rxkeyix = 0,
     wk_key = replicate (IEEE80211_KEYBUF_SIZE + IEEE80211_MICBUF_SIZE) 0, wk_keyrsc = 0, wk_keytsc = 0,
     wk_cipher = cipher_none, wk_private = ctx_none\<rparr>"

definition ieee80211_crypto_attach :: "com \<Rightarrow> cipher_table \<Rightarrow> crypto_com \<times> cipher_table" where
  "ieee80211_crypto_attach ic ciphers =
    (com.extend ic
       (crypto_com.fields (replicate IEEE80211_WEP_NKID (ieee80211_crypto_resetkey zero_key IEEE80211_KEYIX_NONE))
          IEEE80211_KEYIX_NONE (of_nat IEEE80211_WEP_NKID)),
     ciphers[IEEE80211_CIPHER_NONE := Some cipher_none])"

definition IEEE80211_C_TKIPMIC :: u32 where "IEEE80211_C_TKIPMIC = 0x00020000"

text \<open>The number of names in the table of modules; loading one only prints a message.\<close>

definition cipher_modnames :: "string list" where
  "cipher_modnames = [''wlan_wep'', ''wlan_tkip'', ''wlan_aes_ocb'', ''wlan_ccmp'', ''wlan_ckip'']"

definition ieee80211_load_module :: "string \<Rightarrow> cipher_table \<Rightarrow> cipher_table" where
  "ieee80211_load_module modname ciphers = ciphers"

text \<open>The flags of the key for what the hardware cannot do, and for what it has no room for.\<close>

definition newkey_flags :: "'b com_scheme \<Rightarrow> nat \<Rightarrow> u16 \<Rightarrow> u16" where
  "newkey_flags ic cipher flags =
    (let f0 = flags AND IEEE80211_KEY_COMMON;
         f1 = (if \<not> has_flag (ic_caps ic) (push_bit cipher 1) then set_flag f0 IEEE80211_KEY_SWCRYPT else f0)
     in if cipher = IEEE80211_CIPHER_TKIP \<and> \<not> has_flag (ic_caps ic) IEEE80211_C_TKIPMIC
        then set_flag f1 IEEE80211_KEY_SWMIC else f1)"

definition sw_fallback :: "cipher \<Rightarrow> u16 \<Rightarrow> u16" where
  "sw_fallback cip flags =
    set_flag (if cip = cipher_tkip then set_flag flags IEEE80211_KEY_SWMIC else flags) IEEE80211_KEY_SWCRYPT"

lemma sw_fallback_flag [simp]: "has_flag (sw_fallback cip flags) IEEE80211_KEY_SWCRYPT"
  by (simp add: sw_fallback_def key_flag_defs)

text \<open>
  Binding the cipher and asking the driver for a slot.  \<open>rebind\<close> tells whether control is at the
  label \<open>again\<close>; \<open>mem n\<close> is the outcome of the \<open>n\<close>-th allocation.
\<close>

function newkey_bind ::
  "key_driver \<Rightarrow> (nat \<Rightarrow> bool \<times> u32) \<Rightarrow> cipher \<Rightarrow> keyref \<Rightarrow> nat \<Rightarrow> bool \<Rightarrow> u16 \<Rightarrow> u16 \<Rightarrow> crypto_key \<Rightarrow> crypto_com \<Rightarrow>
   bool \<times> crypto_key \<times> crypto_com" where
  "newkey_bind drv mem cip r n rebind flags oflags key ic =
    (let (ctx, ic1) = (if rebind then ic_attach (mem n) cip ic else (Some (wk_private key), ic))
     in case ctx of
          None \<Rightarrow> (False, key\<lparr>wk_flags := oflags\<rparr>, inc_stat is_crypto_attachfail ic1)
        | Some c \<Rightarrow>
            let key1 = (if rebind then key\<lparr>wk_cipher := cip, wk_private := c\<rparr> else key)\<lparr>wk_flags := flags\<rparr>
            in if wk_keyix key1 = IEEE80211_KEYIX_NONE
               then (case cs_key_alloc drv ic1 key1 r of
                       None \<Rightarrow>
                         if \<not> has_flag flags IEEE80211_KEY_SWCRYPT
                         then newkey_bind drv mem cip r (Suc n) True (sw_fallback cip flags) flags key1
                                (inc_stat is_crypto_swfallback ic1)
                         else (False, key1, inc_stat is_crypto_keyfail ic1)
                     | Some (keyix, rxkeyix) \<Rightarrow> (True, key1\<lparr>wk_keyix := keyix, wk_rxkeyix := rxkeyix\<rparr>, ic1))
               else (True, key1, ic1))"
  by pat_completeness auto

termination
  by (relation "measure (\<lambda>(drv, mem, cip, r, n, rebind, flags, rest). if has_flag flags IEEE80211_KEY_SWCRYPT then 0 else 1)")
    auto

declare newkey_bind.simps [simp del]

definition ieee80211_crypto_newkey ::
  "key_driver \<Rightarrow> (nat \<Rightarrow> bool \<times> u32) \<Rightarrow> cipher_table \<Rightarrow> nat \<Rightarrow> u16 \<Rightarrow> keyref \<Rightarrow> crypto_key \<Rightarrow> crypto_com \<Rightarrow>
   bool \<times> crypto_key \<times> crypto_com" where
  "ieee80211_crypto_newkey drv mem ciphers cipher flags r key ic =
    (if cipher \<ge> IEEE80211_CIPHER_MAX then (False, key, inc_stat is_crypto_badcipher ic)
     else
       let ciphers = (if ciphers ! cipher = None \<and> cipher < length cipher_modnames
                      then ieee80211_load_module (cipher_modnames ! cipher) ciphers else ciphers)
       in case ciphers ! cipher of
            None \<Rightarrow> (False, key, inc_stat is_crypto_nocipher ic)
          | Some cip \<Rightarrow>
              let f = newkey_flags ic cipher flags
              in newkey_bind drv mem cip r 0 (wk_cipher key \<noteq> cip \<or> wk_flags key \<noteq> f) f (wk_flags key) key ic)"

definition ieee80211_crypto_delkey :: "key_driver \<Rightarrow> crypto_key \<Rightarrow> crypto_com \<Rightarrow> crypto_key \<times> crypto_com" where
  "ieee80211_crypto_delkey drv key ic =
    (ieee80211_crypto_resetkey zero_key IEEE80211_KEYIX_NONE,
     if wk_keyix key \<noteq> IEEE80211_KEYIX_NONE \<and> \<not> cs_key_delete drv ic key then inc_stat is_crypto_delkey ic else ic)"

definition ieee80211_crypto_delglobalkeys :: "key_driver \<Rightarrow> crypto_com \<Rightarrow> crypto_com" where
  "ieee80211_crypto_delglobalkeys drv ic =
    fold (\<lambda>i ic. case ieee80211_crypto_delkey drv (ic_nw_keys ic ! i) ic of
            (k, ic') \<Rightarrow> ic'\<lparr>ic_nw_keys := (ic_nw_keys ic')[i := k]\<rparr>) [0..<IEEE80211_WEP_NKID] ic"

definition ieee80211_crypto_setkey ::
  "key_driver \<Rightarrow> bytes \<Rightarrow> crypto_key \<Rightarrow> crypto_com \<Rightarrow> (bool \<times> crypto_key \<times> crypto_com) option" where
  "ieee80211_crypto_setkey drv macaddr key ic =
    (case ic_setkey key of
       None \<Rightarrow> None
     | Some (ok, key1) \<Rightarrow>
         if \<not> ok then Some (False, key1, inc_stat is_crypto_setkey_cipher ic)
         else if wk_keyix key1 = IEEE80211_KEYIX_NONE then Some (False, key1, inc_stat is_crypto_setkey_nokey ic)
         else Some (cs_key_set drv ic key1 macaddr, key1, ic))"

subsection \<open>Frames\<close>

text \<open>Room for the privacy header behind the 802.11 header, contiguous with it.\<close>

definition open_header :: "bytes option \<Rightarrow> bytes option \<Rightarrow> chain \<Rightarrow> nat \<Rightarrow> nat \<Rightarrow> chain option" where
  "open_header mem1 mem2 m hdrlen header =
    (case m_prepend mem1 m (int header) of
       None \<Rightarrow> None
     | Some m1 \<Rightarrow>
         map_option (\<lambda>m2. m_poke m2 0 (take hdrlen (drop header (mtod m2))))
           (if front_len m1 < hdrlen + header then m_pullup mem2 m1 (int (hdrlen + header)) else Some m1))"

text \<open>
  Result: the key that was used or a null pointer, the state and the buffer chain, which is
  gone when an allocation failed.
\<close>

definition ieee80211_crypto_encap ::
  "bytes option \<Rightarrow> bytes option \<Rightarrow> bytes option list \<Rightarrow> bytes \<Rightarrow> crypto_state \<Rightarrow> chain \<Rightarrow>
   (keyref option \<times> crypto_state \<times> chain option) option" where
  "ieee80211_crypto_encap mem1 mem2 mems stale s m =
    (let ic = fst s; uk = snd s; wh = mtod m;
         group = (IEEE80211_IS_MULTICAST (i_addr1 wh) \<or> wk_cipher uk = cipher_none)
     in if group \<and> ic_def_txkey ic = IEEE80211_KEYIX_NONE
        then Some (None, (inc_stat is_tx_nodefkey ic, uk), Some m)
        else
          let keyid = (if group then ucast (ic_def_txkey ic) else 0 :: u8);
              r = (if group then nw_key (unat (ic_def_txkey ic)) else ucast_key);
              k = get_key s r;
              hdrlen = ieee80211_hdrspace (ic_flags ic) (mtod m)
          in if group \<and> unat (ic_def_txkey ic) \<ge> length (ic_nw_keys ic) then None
             else case open_header mem1 mem2 m hdrlen (ic_header (wk_cipher k)) of
                    None \<Rightarrow> Some (None, s, None)
                  | Some m1 \<Rightarrow>
                      (case ic_encap mems stale k ic m1 (push_bit 6 keyid) of
                         None \<Rightarrow> None
                       | Some (ok, k', ic', m2) \<Rightarrow> Some (if ok then Some r else None, put_key r k' (ic', uk), Some m2)))"

definition IEEE80211_WEP_HDRLEN :: nat where
  "IEEE80211_WEP_HDRLEN = IEEE80211_WEP_IVLEN + IEEE80211_WEP_KIDLEN"

definition IEEE80211_WEP_MINLEN :: nat where
  "IEEE80211_WEP_MINLEN = sizeof_frame + IEEE80211_WEP_HDRLEN + IEEE80211_WEP_CRCLEN"

text \<open>\<open>junk\<close> is the uninitialised key identifier, which a short \<open>m_copydata\<close> leaves in place.\<close>

definition ieee80211_crypto_decap ::
  "bytes option \<Rightarrow> bytes \<Rightarrow> u8 \<Rightarrow> crypto_state \<Rightarrow> chain \<Rightarrow> nat \<Rightarrow>
   (keyref option \<times> crypto_state \<times> chain option) option" where
  "ieee80211_crypto_decap mem stale junk s m hdrlen =
    (let ic = fst s; uk = snd s
     in if pkt_len m < IEEE80211_WEP_MINLEN then Some (None, (inc_stat is_rx_tooshort ic, uk), Some m)
        else
          let wh = mtod m;
              keyid = (case m_copydata m (hdrlen + IEEE80211_WEP_IVLEN) 1 of b # _ \<Rightarrow> b | [] \<Rightarrow> junk);
              r = (if IEEE80211_IS_MULTICAST (i_addr1 wh) \<or> wk_cipher uk = cipher_none
                   then nw_key (unat (drop_bit 6 keyid)) else ucast_key);
              k = get_key s r;
              cip = wk_cipher k
          in case (if front_len m < hdrlen + ic_header cip then m_pullup mem m (int (hdrlen + ic_header cip)) else Some m) of
               None \<Rightarrow> Some (None, (inc_stat is_rx_tooshort ic, uk), None)
             | Some m1 \<Rightarrow>
                 if pkt_len m1 < hdrlen + ic_header cip + ic_trailer cip
                 then Some (None, (inc_stat is_rx_tooshort ic, uk), Some m1)
                 else (case ic_decap stale k ic m1 hdrlen of
                         None \<Rightarrow> None
                       | Some (ok, k', ic', m2) \<Rightarrow> Some (if ok then Some r else None, put_key r k' (ic', uk), Some m2)))"

definition ieee80211_crypto_enmic ::
  "bytes option list \<Rightarrow> crypto_key \<Rightarrow> crypto_com \<Rightarrow> chain \<Rightarrow> bool \<Rightarrow> (bool \<times> crypto_com \<times> chain) option" where
  "ieee80211_crypto_enmic mems k ic m force =
    (if ic_miclen (wk_cipher k) > 0 then ic_enmic mems k ic m force else Some (True, ic, m))"

definition ieee80211_crypto_demic ::
  "crypto_key \<Rightarrow> crypto_com \<Rightarrow> chain \<Rightarrow> bool \<Rightarrow> (bool \<times> crypto_key \<times> crypto_com \<times> chain) option" where
  "ieee80211_crypto_demic k ic m force =
    (if ic_miclen (wk_cipher k) > 0 then ic_demic k ic m force else Some (True, k, ic, m))"

subsection \<open>Installing keys\<close>

text \<open>The request of the supplicant, with the fields the port reads.\<close>

datatype wpa_alg = WPA_ALG_NONE | WPA_ALG_CCMP | WPA_ALG_other nat

record set_key_params =
  kp_alg :: wpa_alg
  kp_addr :: "bytes option"
  kp_key_idx :: int
  kp_set_tx :: bool
  kp_seq :: bytes
  kp_key :: "bytes option"

definition etherbroadcastaddr :: bytes where "etherbroadcastaddr = replicate 6 0xff"

definition seq_pn :: "bytes \<Rightarrow> u64" where
  "seq_pn seq =
    (if 0 < length seq \<and> length seq \<le> 8 then fold (\<lambda>b pn. push_bit 8 pn OR ucast b) (rev seq) 0 else 0)"

text \<open>
  Result: the return value and whether the node was authorized.  \<open>bss_mac\<close> is the address of the
  access point.
\<close>

definition freertos_set_key ::
  "key_driver \<Rightarrow> (nat \<Rightarrow> bool \<times> u32) \<Rightarrow> cipher_table \<Rightarrow> bytes \<Rightarrow> set_key_params \<Rightarrow> crypto_state \<Rightarrow>
   (int \<times> bool \<times> crypto_state) option" where
  "freertos_set_key drv mem ciphers bss_mac p s =
    (if kp_key_idx p < 0 \<or> kp_key_idx p \<ge> int IEEE80211_WEP_NKID \<or>
        (kp_alg p \<noteq> WPA_ALG_NONE \<and> (kp_alg p \<noteq> WPA_ALG_CCMP \<or> kp_key p = None \<or> length (the (kp_key p)) \<noteq> 16))
     then Some (- 1, False, s)
     else
       let is_group = (case kp_addr p of None \<Rightarrow> True | Some a \<Rightarrow> has_flag (a ! 0) 0x01);
           r = (if is_group then nw_key (nat (kp_key_idx p)) else ucast_key);
           k = get_key s r
       in if kp_alg p = WPA_ALG_NONE
          then (case ieee80211_crypto_delkey drv k (fst s) of (k', ic') \<Rightarrow> Some (0, False, put_key r k' (ic', snd s)))
          else
            (case ieee80211_crypto_newkey drv mem ciphers IEEE80211_CIPHER_AES_CCM
                    (IEEE80211_KEY_XMIT OR IEEE80211_KEY_RECV OR (if is_group then IEEE80211_KEY_GROUP else 0)) r k (fst s) of
               (ok, k1, ic1) \<Rightarrow>
                 if \<not> ok then Some (- 1, False, put_key r k1 (ic1, snd s))
                 else
                   let k2 = k1\<lparr>wk_keylen := 16, wk_keyrsc := seq_pn (kp_seq p), wk_keytsc := 0,
                               wk_key := the (kp_key p) @ replicate 16 0\<rparr>
                   in (case ieee80211_crypto_setkey drv (if is_group then etherbroadcastaddr else bss_mac) k2 ic1 of
                         None \<Rightarrow> None
                       | Some (ok2, k3, ic2) \<Rightarrow>
                           Some (if ok2 then 0 else - 1, \<not> is_group,
                             put_key r k3
                               (if is_group \<and> kp_set_tx p then ic2\<lparr>ic_def_txkey := of_int (kp_key_idx p)\<rparr> else ic2,
                                snd s)))))"

datatype ioctl_result = IOC_OK | IOC_EINVAL | IOC_E2BIG | IOC_EADDRNOTAVAIL | IOC_ENOENT | IOC_EIO | IOC_ENXIO

record ieee80211req_key =
  ik_type :: u8
  ik_keyix :: u16
  ik_keylen :: u8
  ik_flags :: u8
  ik_macaddr :: bytes
  ik_keyrsc :: u64
  ik_keydata :: bytes

definition IEEE80211_KEY_DEFAULT :: u8 where "IEEE80211_KEY_DEFAULT = 0x80"

text \<open>
  The request after it has been copied in; a request of the wrong length or a failed copy returns
  before any state is touched.  The lookup of the node: in station mode the access point if the address is its own, otherwise
  the node table.  \<open>node\<close> is its outcome, an error or the address of the node whose unicast key
  is part of the state.
\<close>

definition ieee80211_ioctl_setkey ::
  "key_driver \<Rightarrow> (nat \<Rightarrow> bool \<times> u32) \<Rightarrow> cipher_table \<Rightarrow> (bytes \<Rightarrow> ioctl_result + bytes) \<Rightarrow> ieee80211req_key \<Rightarrow> crypto_state \<Rightarrow>
   (ioctl_result \<times> crypto_state) option" where
  "ieee80211_ioctl_setkey drv mem ciphers node ik s =
    (if unat (ik_keylen ik) > IEEE80211_KEYBUF_SIZE + IEEE80211_MICBUF_SIZE then Some (IOC_E2BIG, s)
     else
       let kid = ik_keyix ik
       in case (if kid = IEEE80211_KEYIX_NONE
                then (if ik_flags ik \<noteq> ucast (IEEE80211_KEY_XMIT OR IEEE80211_KEY_RECV) then Inl IOC_EINVAL
                      else case node (ik_macaddr ik) of Inl e \<Rightarrow> Inl e | Inr mac \<Rightarrow> Inr (ucast_key, mac))
                else if unat kid \<ge> IEEE80211_WEP_NKID then Inl IOC_EINVAL
                else Inr (nw_key (unat kid), ik_macaddr ik)) of
            Inl e \<Rightarrow> Some (e, s)
          | Inr (r, mac) \<Rightarrow>
              (case ieee80211_crypto_newkey drv mem ciphers (unat (ik_type ik)) (ucast (ik_flags ik)) r (get_key s r) (fst s) of
                 (ok, k1, ic1) \<Rightarrow>
                   if \<not> ok then Some (IOC_ENXIO, put_key r k1 (ic1, snd s))
                   else
                     let k2 = k1\<lparr>wk_keylen := min (unat (ik_keylen ik)) IEEE80211_KEYBUF_SIZE,
                                 wk_keyrsc := ik_keyrsc ik, wk_keytsc := 0,
                                 wk_key := put_at 0 (take (unat (ik_keylen ik)) (ik_keydata ik))
                                   (replicate (IEEE80211_KEYBUF_SIZE + IEEE80211_MICBUF_SIZE) 0)\<rparr>
                     in (case ieee80211_crypto_setkey drv mac k2 ic1 of
                           None \<Rightarrow> None
                         | Some (ok2, k3, ic2) \<Rightarrow>
                             if \<not> ok2 then Some (IOC_EIO, put_key r k3 (ic2, snd s))
                             else Some (IOC_OK,
                               put_key r k3
                                 (if has_flag (ik_flags ik) IEEE80211_KEY_DEFAULT then ic2\<lparr>ic_def_txkey := kid\<rparr> else ic2,
                                  snd s)))))"

definition ieee80211_ioctl_delkey ::
  "key_driver \<Rightarrow> (bytes \<Rightarrow> ioctl_result + bytes) \<Rightarrow> u8 \<Rightarrow> bytes \<Rightarrow> crypto_state \<Rightarrow> ioctl_result \<times> crypto_state" where
  "ieee80211_ioctl_delkey drv node keyix macaddr s =
    (case (if keyix = ucast IEEE80211_KEYIX_NONE
           then (case node macaddr of Inl e \<Rightarrow> Inl e | Inr mac \<Rightarrow> Inr ucast_key)
           else if unat keyix \<ge> IEEE80211_WEP_NKID then Inl IOC_EINVAL
           else Inr (nw_key (unat keyix))) of
       Inl e \<Rightarrow> (e, s)
     | Inr r \<Rightarrow>
         (case ieee80211_crypto_delkey drv (get_key s r) (fst s) of (k, ic) \<Rightarrow> (IOC_OK, put_key r k (ic, snd s))))"

subsection \<open>The device over time\<close>

text \<open>
  A step is a key operation of the supplicant or of an ioctl, the removal of all global keys, or
  the processing of one frame in either direction.
\<close>

fun valid_ref :: "keyref \<Rightarrow> bool" where
  "valid_ref (nw_key i) \<longleftrightarrow> i < IEEE80211_WEP_NKID"
| "valid_ref ucast_key \<longleftrightarrow> True"

inductive crypto_step :: "key_driver \<Rightarrow> cipher_table \<Rightarrow> crypto_state \<Rightarrow> crypto_state \<Rightarrow> bool"
  for drv :: key_driver and ciphers :: cipher_table where
  step_set_key: "freertos_set_key drv mem ciphers mac p s = Some (ret, auth, s') \<Longrightarrow> crypto_step drv ciphers s s'"
| step_ioctl_setkey:
    "length (ik_keydata ik) = IEEE80211_KEYBUF_SIZE + IEEE80211_MICBUF_SIZE \<Longrightarrow>
     ieee80211_ioctl_setkey drv mem ciphers node ik s = Some (res, s') \<Longrightarrow> crypto_step drv ciphers s s'"
| step_ioctl_delkey: "ieee80211_ioctl_delkey drv node keyix mac s = (res, s') \<Longrightarrow> crypto_step drv ciphers s s'"
| step_delglobalkeys: "crypto_step drv ciphers (ic, uk) (ieee80211_crypto_delglobalkeys drv ic, uk)"
| step_encap: "ieee80211_crypto_encap mem1 mem2 mems stale s m = Some (res, s', m') \<Longrightarrow> crypto_step drv ciphers s s'"
| step_decap: "ieee80211_crypto_decap mem1 stale junk s m hdrlen = Some (res, s', m') \<Longrightarrow> crypto_step drv ciphers s s'"
| step_demic:
    "valid_ref r \<Longrightarrow> ieee80211_crypto_demic (get_key (ic, uk) r) ic m force = Some (ok, k', ic', m') \<Longrightarrow>
     crypto_step drv ciphers (ic, uk) (put_key r k' (ic', uk))"

inductive crypto_reach :: "key_driver \<Rightarrow> cipher_table \<Rightarrow> crypto_state \<Rightarrow> bool"
  for drv :: key_driver and ciphers :: cipher_table where
  reach_attach: "crypto_reach drv ciphers (fst (ieee80211_crypto_attach ic ciphers0), ieee80211_crypto_resetkey zero_key IEEE80211_KEYIX_NONE)"
| reach_step: "crypto_reach drv ciphers s \<Longrightarrow> crypto_step drv ciphers s s' \<Longrightarrow> crypto_reach drv ciphers s'"

subsection \<open>Contexts match their ciphers\<close>

fun ctx_matches :: "cipher \<Rightarrow> key_ctx \<Rightarrow> bool" where
  "ctx_matches cipher_none ctx_none = True"
| "ctx_matches cipher_wep (ctx_wep c) = True"
| "ctx_matches cipher_tkip (ctx_tkip c) = True"
| "ctx_matches cipher_ccmp (ctx_ccmp c) = (length (cc_aes c) = 60)"
| "ctx_matches _ _ = False"

definition key_typed :: "crypto_key \<Rightarrow> bool" where
  "key_typed k \<longleftrightarrow> wf_key k \<and> ctx_matches (wk_cipher k) (wk_private k)"

definition crypto_ok :: "crypto_state \<Rightarrow> bool" where
  "crypto_ok s \<longleftrightarrow> length (ic_nw_keys (fst s)) = IEEE80211_WEP_NKID \<and>
     (\<forall>k \<in> set (ic_nw_keys (fst s)). key_typed k) \<and> key_typed (snd s) \<and>
     (ic_def_txkey (fst s) = IEEE80211_KEYIX_NONE \<or> unat (ic_def_txkey (fst s)) < IEEE80211_WEP_NKID)"

lemma ctx_matchesE:
  assumes "ctx_matches cip ctx"
  obtains "cip = cipher_none" "ctx = ctx_none"
  | c where "cip = cipher_wep" "ctx = ctx_wep c"
  | c where "cip = cipher_tkip" "ctx = ctx_tkip c"
  | c where "cip = cipher_ccmp" "ctx = ctx_ccmp c" "length (cc_aes c) = 60"
  using assms by (cases cip; cases ctx) auto

lemma ic_attach_matches:
  "ic_attach mem cip ic = (Some c, ic') \<Longrightarrow> ctx_matches cip c \<and> ic' = ic"
  by (cases cip) (auto simp: ic_attach_def none_attach_def wep_attach_def tkip_attach_def ccmp_attach_def split: if_splits)

subsection \<open>What the ciphers leave alone\<close>

text \<open>A cipher changes the common part of the device only, and of a key only its counters.\<close>

lemma more_simps [simp]:
  "com.more (inc_stat st ic) = com.more ic" "com.more (rt_ieee80211msg e ic) = com.more ic"
  "com.more (ieee80211_notify_replay_failure wh k rsc ic) = com.more ic"
  "com.more (ieee80211_notify_michael_failure wh ix ic) = com.more ic"
  by (simp_all add: inc_stat_def rt_ieee80211msg_def ieee80211_notify_replay_failure_def
      ieee80211_notify_michael_failure_def Let_def)

lemma more_keys:
  assumes "com.more (ic' :: crypto_com) = com.more ic"
  shows "ic_nw_keys ic' = ic_nw_keys ic" "ic_def_txkey ic' = ic_def_txkey ic"
  using assms by (cases ic'; cases ic; simp)+

lemma inc_stat_keys [simp]:
  "ic_nw_keys (inc_stat st ic) = ic_nw_keys ic" "ic_def_txkey (inc_stat st ic) = ic_def_txkey ic"
  by (simp_all add: inc_stat_def)

lemma ic_attach_more: "ic_attach mem cip ic = (c, ic') \<Longrightarrow> com.more ic' = com.more ic"
  by (cases cip) (auto simp: ic_attach_def wep_attach_def tkip_attach_def ccmp_attach_def split: if_splits)

lemma wep_more:
  "wep_encap mems k c ic m keyid = (ok, c', ic', m') \<Longrightarrow> com.more ic' = com.more ic"
  "wep_decap k ic m hdrlen = (ok, ic', m') \<Longrightarrow> com.more ic' = com.more ic"
  by (auto simp: wep_encap_def wep_encrypt_def wep_decap_def wep_decrypt_def Let_def split: prod.splits if_splits)

lemma tkip_encrypt_frame:
  assumes "tkip_encrypt mems k c ic m hdrlen = (ok, k', c', ic', m')"
  shows "com.more ic' = com.more ic \<and> (\<exists>t. k' = k\<lparr>wk_keytsc := t\<rparr>)"
proof -
  have "com.more ic' = com.more ic \<and> k' = k\<lparr>wk_keytsc := wk_keytsc k'\<rparr>"
    using assms by (auto simp: tkip_encrypt_def Let_def split: prod.splits if_splits)
  then show ?thesis by blast
qed

lemma tkip_encap_frame:
  assumes "tkip_encap mems k c ic m keyid = (ok, k', c', ic', m')"
  shows "com.more ic' = com.more ic \<and> (\<exists>t. k' = k\<lparr>wk_keytsc := t\<rparr>)"
proof -
  have "com.more ic' = com.more ic \<and> k' = k\<lparr>wk_keytsc := wk_keytsc k'\<rparr>"
    using assms by (auto simp: tkip_encap_def Let_def split: if_splits dest!: tkip_encrypt_frame)
  then show ?thesis by blast
qed

lemma tkip_decap_more: "tkip_decap k c ic m hdrlen = (ok, c', ic', m') \<Longrightarrow> com.more ic' = com.more ic"
  by (auto simp: tkip_decap_def tkip_decrypt_def Let_def split: prod.splits if_splits)

lemma tkip_demic_frame:
  assumes "tkip_demic k c ic m force = Some (ok, k', ic', m')"
  shows "com.more ic' = com.more ic \<and> (\<exists>t. k' = k\<lparr>wk_keyrsc := t\<rparr>)"
proof -
  have "com.more ic' = com.more ic \<and> k' = k\<lparr>wk_keyrsc := wk_keyrsc k'\<rparr>"
    using assms by (auto simp: tkip_demic_def Let_def split: option.splits if_splits)
  then show ?thesis by blast
qed

lemma ccmp_crypt_more:
  "ccmp_encrypt mems stale k c ic m hdrlen = Some (ok, ic', m') \<Longrightarrow> com.more ic' = com.more ic"
  "ccmp_decrypt stale k c pn ic m hdrlen = Some (ok, ic', m') \<Longrightarrow> com.more ic' = com.more ic"
  by (auto simp: ccmp_encrypt_def ccmp_decrypt_def Let_def split: option.splits prod.splits if_splits)

lemma ccmp_encap_frame:
  assumes "ccmp_encap mems stale k c ic m keyid = Some (ok, k', ic', m')"
  shows "com.more ic' = com.more ic \<and> (\<exists>t. k' = k\<lparr>wk_keytsc := t\<rparr>)"
proof -
  have "com.more ic' = com.more ic \<and> k' = k\<lparr>wk_keytsc := wk_keytsc k'\<rparr>"
    using assms ccmp_crypt_more(1) by (auto simp: ccmp_encap_def Let_def split: if_splits)
  then show ?thesis by blast
qed

lemma ccmp_decap_frame:
  assumes "ccmp_decap stale k c ic m hdrlen = Some (ok, k', ic', m')"
  shows "com.more ic' = com.more ic \<and> (\<exists>t. k' = k\<lparr>wk_keyrsc := t\<rparr>)"
proof -
  have "com.more ic' = com.more ic \<and> k' = k\<lparr>wk_keyrsc := wk_keyrsc k'\<rparr>"
    using assms ccmp_crypt_more(2)
    by (auto simp: ccmp_decap_def Let_def split: if_splits option.splits prod.splits)
  then show ?thesis by blast
qed

lemma key_typed_upd [simp]:
  "key_typed (k\<lparr>wk_keytsc := t\<rparr>) = key_typed k" "key_typed (k\<lparr>wk_keyrsc := t\<rparr>) = key_typed k"
  by (simp_all add: key_typed_def wf_key_def)

lemma ic_encap_typed:
  assumes "key_typed k" "ic_encap mems stale k ic m keyid = Some (ok, k', ic', m')"
  shows "key_typed k'" "com.more ic' = com.more ic"
proof -
  have "ctx_matches (wk_cipher k) (wk_private k)" and wf: "wf_key k" using assms(1) by (simp_all add: key_typed_def)
  then have "key_typed k' \<and> com.more ic' = com.more ic"
    using assms
    by (cases rule: ctx_matchesE)
      (auto simp: ic_encap_def none_encap_def key_typed_def wf_key_def split: prod.splits
        dest!: wep_more(1) tkip_encap_frame ccmp_encap_frame)
  then show "key_typed k'" "com.more ic' = com.more ic" by simp_all
qed

lemma ic_decap_typed:
  assumes "key_typed k" "ic_decap stale k ic m hdrlen = Some (ok, k', ic', m')"
  shows "key_typed k'" "com.more ic' = com.more ic"
proof -
  have "ctx_matches (wk_cipher k) (wk_private k)" and wf: "wf_key k" using assms(1) by (simp_all add: key_typed_def)
  then have "key_typed k' \<and> com.more ic' = com.more ic"
    using assms
    by (cases rule: ctx_matchesE)
      (auto simp: ic_decap_def none_decap_def key_typed_def wf_key_def split: prod.splits
        dest!: wep_more(2) tkip_decap_more ccmp_decap_frame)
  then show "key_typed k'" "com.more ic' = com.more ic" by simp_all
qed

lemma ic_demic_typed:
  assumes "key_typed k" "ic_demic k ic m force = Some (ok, k', ic', m')"
  shows "key_typed k'" "com.more ic' = com.more ic"
proof -
  have "ctx_matches (wk_cipher k) (wk_private k)" using assms(1) by (simp add: key_typed_def)
  then have "key_typed k' \<and> com.more ic' = com.more ic"
    using assms
    by (cases rule: ctx_matchesE)
      (auto simp: ic_demic_def none_demic_def key_typed_def wf_key_def dest!: tkip_demic_frame)
  then show "key_typed k'" "com.more ic' = com.more ic" by simp_all
qed

subsection \<open>Every step keeps the contexts\<close>

lemma bound_typed:
  assumes "rebind \<Longrightarrow> ctx_matches cip c" "key_typed key"
  shows "key_typed ((if rebind then key\<lparr>wk_cipher := cip, wk_private := c\<rparr> else key)\<lparr>wk_flags := flags\<rparr>)"
  using assms unfolding key_typed_def wf_key_def by (cases rebind) simp_all

text \<open>One attempt, with the context \<open>c\<close> that was attached or kept.\<close>

lemma newkey_bind_fail:
  "(if rebind then ic_attach (mem n) cip ic else (Some (wk_private key), ic)) = (None, ic1) \<Longrightarrow>
    newkey_bind drv mem cip r n rebind flags oflags key ic =
      (False, key\<lparr>wk_flags := oflags\<rparr>, inc_stat is_crypto_attachfail ic1)"
  by (simp add: newkey_bind.simps [of drv mem cip r n rebind])

lemma newkey_bind_eq:
  assumes a: "(if rebind then ic_attach (mem n) cip ic else (Some (wk_private key), ic)) = (Some c, ic1)"
    and k: "key1 = (if rebind then key\<lparr>wk_cipher := cip, wk_private := c\<rparr> else key)\<lparr>wk_flags := flags\<rparr>"
  shows "newkey_bind drv mem cip r n rebind flags oflags key ic =
        (if wk_keyix key1 = IEEE80211_KEYIX_NONE
         then (case cs_key_alloc drv ic1 key1 r of
                 None \<Rightarrow>
                   if \<not> has_flag flags IEEE80211_KEY_SWCRYPT
                   then newkey_bind drv mem cip r (Suc n) True (sw_fallback cip flags) flags key1
                          (inc_stat is_crypto_swfallback ic1)
                   else (False, key1, inc_stat is_crypto_keyfail ic1)
               | Some (keyix, rxkeyix) \<Rightarrow> (True, key1\<lparr>wk_keyix := keyix, wk_rxkeyix := rxkeyix\<rparr>, ic1))
         else (True, key1, ic1))"
  unfolding newkey_bind.simps [of drv mem cip r n rebind] a k Let_def by simp

lemma newkey_bind_step:
  fixes key :: crypto_key
  assumes "newkey_bind drv mem cip r n rebind flags oflags key ic = (ok, key', ic')" "key_typed key"
    and rec: "\<And>key1 ic1. \<not> has_flag flags IEEE80211_KEY_SWCRYPT \<Longrightarrow> key_typed key1 \<Longrightarrow> com.more ic1 = com.more ic \<Longrightarrow>
      newkey_bind drv mem cip r (Suc n) True (sw_fallback cip flags) flags key1 ic1 = (ok, key', ic') \<Longrightarrow>
      key_typed key' \<and> com.more ic' = com.more ic"
  shows "key_typed key' \<and> com.more ic' = com.more ic"
proof -
  obtain ctx ic1 where a: "(if rebind then ic_attach (mem n) cip ic else (Some (wk_private key), ic)) = (ctx, ic1)"
    by (metis surj_pair)
  have m: "com.more ic1 = com.more ic" using a ic_attach_more by (metis prod.inject)
  show ?thesis
  proof (cases ctx)
    case None
    then show ?thesis
      using assms(1,2) m newkey_bind_fail [of rebind mem n cip ic key ic1] a by (auto simp: key_typed_def wf_key_def)
  next
    case (Some c)
    define key1 where "key1 = (if rebind then key\<lparr>wk_cipher := cip, wk_private := c\<rparr> else key)\<lparr>wk_flags := flags\<rparr>"
    have "ctx_matches cip c" if rebind using that a Some ic_attach_matches [of "mem n" cip ic c ic1] by simp
    then have t: "key_typed key1" unfolding key1_def using assms(2) by (rule bound_typed)
    then have t2: "\<And>x y. key_typed (key1\<lparr>wk_keyix := x, wk_rxkeyix := y\<rparr>)"
      by (simp add: key_typed_def wf_key_def)
    note e = newkey_bind_eq [of rebind mem n cip ic key c ic1, OF a [unfolded Some] key1_def, of drv r oflags]
    show ?thesis
    proof (cases "wk_keyix key1 = IEEE80211_KEYIX_NONE")
      case True
      show ?thesis
      proof (cases "cs_key_alloc drv ic1 key1 r")
        case None
        then show ?thesis
          using assms(1) True t m rec [of key1 "inc_stat is_crypto_swfallback ic1"] by (auto simp: e split: if_splits)
      next
        case (Some ix)
        then show ?thesis using assms(1) True t2 m by (auto simp: e split: prod.splits)
      qed
    next
      case False
      then show ?thesis using assms(1) t m by (simp add: e)
    qed
  qed
qed

lemma newkey_bind_typed:
  assumes "newkey_bind drv mem cip r n rebind flags oflags key ic = (ok, key', ic')" "key_typed key"
  shows "key_typed key' \<and> com.more ic' = com.more ic"
proof (rule newkey_bind_step [OF assms])
  fix key1 ic1
  assume t: "key_typed key1" and m: "com.more ic1 = com.more ic"
    and e: "newkey_bind drv mem cip r (Suc n) True (sw_fallback cip flags) flags key1 ic1 = (ok, key', ic')"
  show "key_typed key' \<and> com.more ic' = com.more ic"
    using newkey_bind_step [OF e t] m by simp
qed

lemma newkey_typed:
  assumes "ieee80211_crypto_newkey drv mem ciphers cipher flags r key ic = (ok, key', ic')" "key_typed key"
  shows "key_typed key'" "com.more ic' = com.more ic"
  using assms newkey_bind_typed
  by (auto simp: ieee80211_crypto_newkey_def Let_def split: if_splits option.splits)

lemma length_keysched16:
  "length rk = 60 \<Longrightarrow> length key = 16 \<Longrightarrow> length (snd (br_aes_ct_keysched rk key 16)) = 60"
  using length_keysched [of key rk] by (simp add: valid_key_def)

lemma setkey_typed:
  assumes "key_typed key"
  shows "\<exists>ok key' ic'. ieee80211_crypto_setkey drv mac key ic = Some (ok, key', ic') \<and> key_typed key' \<and> com.more ic' = com.more ic"
proof -
  have "ctx_matches (wk_cipher key) (wk_private key)" "wf_key key" using assms by (simp_all add: key_typed_def)
  then have "\<exists>ok key'. ic_setkey key = Some (ok, key') \<and> key_typed key'"
    using assms
  proof (cases rule: ctx_matchesE)
    case (3 c)
    have "ic_setkey key = Some (tkip_setkey key)" using 3 by (simp add: ic_setkey_def)
    moreover have "key_typed (snd (tkip_setkey key))" using assms by (simp add: tkip_setkey_def)
    ultimately show ?thesis by (metis prod.collapse)
  next
    case (4 c)
    have "length (cc_aes c') = 60" if "ccmp_setkey key c = Some (ok, c')" for ok c'
      using that 4(3) \<open>wf_key key\<close>
      by (auto simp: ccmp_setkey_def aes_setenckey128_def aesbear_setkey_def length_keysched16 wf_key_def wep_lens
          split: if_splits)
    moreover obtain ok c' where c': "ccmp_setkey key c = Some (ok, c')"
      by (cases "ccmp_setkey key c") (auto simp: ccmp_setkey_def aes_setenckey128_def aesbear_setkey_def split: if_splits)
    ultimately have "length (cc_aes c') = 60" by blast
    then have "ic_setkey key = Some (ok, key\<lparr>wk_private := ctx_ccmp c'\<rparr>)" "key_typed (key\<lparr>wk_private := ctx_ccmp c'\<rparr>)"
      using 4 \<open>wf_key key\<close> c' by (simp_all add: ic_setkey_def key_typed_def wf_key_def)
    then show ?thesis by blast
  qed (auto simp: ic_setkey_def key_typed_def wf_key_def tkip_setkey_def)
  then show ?thesis by (auto simp: ieee80211_crypto_setkey_def)
qed

lemma reset_typed [simp]: "key_typed (ieee80211_crypto_resetkey zero_key ix)"
  by (simp add: key_typed_def wf_key_def ieee80211_crypto_resetkey_def zero_key_def none_attach_def)

lemma get_key_typed: "crypto_ok s \<Longrightarrow> valid_ref r \<Longrightarrow> key_typed (get_key s r)"
  by (cases s; cases r) (auto simp: crypto_ok_def)

text \<open>The state after a key and the common part of the device have changed.\<close>

lemma put_key_ok:
  assumes "crypto_ok (ic, uk)" "key_typed k" "com.more ic' = com.more ic"
  shows "crypto_ok (put_key r k (ic', uk))"
    and "unat ix < IEEE80211_WEP_NKID \<Longrightarrow> crypto_ok (put_key r k (ic'\<lparr>ic_def_txkey := ix\<rparr>, uk))"
  using assms more_keys [OF assms(3)]
  by (cases r; auto simp: crypto_ok_def dest!: subsetD [OF set_update_subset_insert])+

lemma more_ok: "crypto_ok (ic, uk) \<Longrightarrow> com.more ic' = com.more ic \<Longrightarrow> crypto_ok (ic', uk)"
  using more_keys [of ic' ic] by (simp add: crypto_ok_def)

lemma delkey_more: "com.more (snd (ieee80211_crypto_delkey drv k ic)) = com.more ic"
  and delkey_typed: "key_typed (fst (ieee80211_crypto_delkey drv k ic))"
  by (simp_all add: ieee80211_crypto_delkey_def)

lemma delkey_ok:
  assumes "crypto_ok (ic, uk)" "ieee80211_crypto_delkey drv k ic = (k', ic')"
  shows "crypto_ok (put_key r k' (ic', uk))"
  using put_key_ok(1) [OF assms(1)] delkey_more [of drv k ic] delkey_typed [of drv k ic] assms(2) by simp

lemma delglobalkeys_ok: "crypto_ok (ic, uk) \<Longrightarrow> crypto_ok (ieee80211_crypto_delglobalkeys drv ic, uk)"
proof -
  have "crypto_ok (ic, uk) \<Longrightarrow> crypto_ok (fold (\<lambda>i ic. case ieee80211_crypto_delkey drv (ic_nw_keys ic ! i) ic of
      (k, ic') \<Rightarrow> ic'\<lparr>ic_nw_keys := (ic_nw_keys ic')[i := k]\<rparr>) js ic, uk)" for js
  proof (induction js arbitrary: ic)
    case (Cons i js)
    obtain k ic' where d: "ieee80211_crypto_delkey drv (ic_nw_keys ic ! i) ic = (k, ic')" by fastforce
    show ?case using Cons.IH [OF delkey_ok [OF Cons.prems d, of "nw_key i", simplified]] d by simp
  qed simp
  then show "crypto_ok (ic, uk) \<Longrightarrow> crypto_ok (ieee80211_crypto_delglobalkeys drv ic, uk)"
    by (simp add: ieee80211_crypto_delglobalkeys_def)
qed

lemma keyid_valid: "valid_ref (nw_key (unat (drop_bit 6 (keyid :: u8))))"
  using unsigned_less [of keyid, where 'a = nat] by (simp add: unsigned_drop_bit_eq drop_bit_eq_div unat_div IEEE80211_WEP_NKID_def)

lemma key_idx_less:
  "0 \<le> i \<Longrightarrow> i < int IEEE80211_WEP_NKID \<Longrightarrow> unat (of_int i :: u16) < IEEE80211_WEP_NKID"
  by (simp add: IEEE80211_WEP_NKID_def unsigned_of_int take_bit_int_eq_self nat_less_iff)

lemma encap_ok:
  assumes "crypto_ok s" "ieee80211_crypto_encap mem1 mem2 mems stale s m = Some (res, s', m')"
  shows "crypto_ok s'"
proof -
  obtain ic uk where s: "s = (ic, uk)" by fastforce
  define group where "group \<longleftrightarrow> IEEE80211_IS_MULTICAST (i_addr1 (mtod m)) \<or> wk_cipher uk = cipher_none"
  define r where "r = (if group then nw_key (unat (ic_def_txkey ic)) else ucast_key)"
  note d = assms(2) [unfolded ieee80211_crypto_encap_def Let_def s fst_conv snd_conv, folded group_def r_def]
  show ?thesis
  proof (cases "group \<and> ic_def_txkey ic = IEEE80211_KEYIX_NONE")
    case True
    then show ?thesis using d assms(1) by (auto simp: s intro: more_ok)
  next
    case no: False
    then have "valid_ref r" using assms(1) by (auto simp: r_def s crypto_ok_def)
    then have t: "key_typed (get_key (ic, uk) r)" using assms(1) by (auto simp: s intro: get_key_typed)
    show ?thesis
      using d no assms(1)
      by (auto simp: s split: if_splits option.splits prod.splits intro: put_key_ok(1) dest: ic_encap_typed [OF t])
  qed
qed

lemma decap_ok:
  assumes "crypto_ok s" "ieee80211_crypto_decap mem stale junk s m hdrlen = Some (res, s', m')"
  shows "crypto_ok s'"
proof -
  obtain ic uk where s: "s = (ic, uk)" by fastforce
  define keyid where "keyid = (case m_copydata m (hdrlen + IEEE80211_WEP_IVLEN) 1 of b # _ \<Rightarrow> b | [] \<Rightarrow> junk)"
  define r where "r = (if IEEE80211_IS_MULTICAST (i_addr1 (mtod m)) \<or> wk_cipher uk = cipher_none
      then nw_key (unat (drop_bit 6 keyid)) else ucast_key)"
  note d = assms(2) [unfolded ieee80211_crypto_decap_def Let_def s fst_conv snd_conv, folded keyid_def, folded r_def]
  have "valid_ref r" using keyid_valid by (simp add: r_def)
  then have t: "key_typed (get_key (ic, uk) r)" using assms(1) by (auto simp: s intro: get_key_typed)
  show ?thesis
    using d assms(1)
    by (auto simp: s split: if_splits option.splits prod.splits intro: put_key_ok(1) more_ok dest: ic_decap_typed [OF t])
qed

lemma demic_ok:
  assumes "crypto_ok (ic, uk)" "valid_ref r"
    "ieee80211_crypto_demic (get_key (ic, uk) r) ic m force = Some (ok, k', ic', m')"
  shows "crypto_ok (put_key r k' (ic', uk))"
  using assms(3) ic_demic_typed [OF get_key_typed [OF assms(1,2)]] get_key_typed [OF assms(1,2)]
  by (auto simp: ieee80211_crypto_demic_def split: if_splits intro!: put_key_ok(1) [OF assms(1)])

text \<open>The end of both key installations: the new key is filled in and set.\<close>

lemma fill_typed:
  assumes "key_typed k" "length key = 32" "n \<le> 16"
  shows "key_typed (k\<lparr>wk_keylen := n, wk_keyrsc := rsc, wk_keytsc := tsc, wk_key := key\<rparr>)"
  using assms by (simp add: key_typed_def wf_key_def wep_lens)

lemma set_key_ok:
  assumes "crypto_ok s" "freertos_set_key drv mem ciphers mac p s = Some (ret, auth, s')"
  shows "crypto_ok s'"
proof (cases "kp_key_idx p < 0 \<or> kp_key_idx p \<ge> int IEEE80211_WEP_NKID \<or>
    (kp_alg p \<noteq> WPA_ALG_NONE \<and> (kp_alg p \<noteq> WPA_ALG_CCMP \<or> kp_key p = None \<or> length (the (kp_key p)) \<noteq> 16))")
  case True
  then show ?thesis using assms by (simp add: freertos_set_key_def)
next
  case idx: False
  obtain ic uk where s: "s = (ic, uk)" by fastforce
  define group where "group = (case kp_addr p of None \<Rightarrow> True | Some a \<Rightarrow> has_flag (a ! 0) 0x01)"
  define r where "r = (if group then nw_key (nat (kp_key_idx p)) else ucast_key)"
  have "valid_ref r" using idx by (auto simp: r_def nat_less_iff)
  then have t: "key_typed (get_key (ic, uk) r)" using assms(1) by (auto simp: s intro: get_key_typed)
  have i: "unat (of_int (kp_key_idx p) :: u16) < IEEE80211_WEP_NKID" using idx by (intro key_idx_less) auto
  note d = assms(2) [unfolded freertos_set_key_def if_not_P [OF idx] Let_def s fst_conv snd_conv, folded group_def, folded r_def]
  show ?thesis
  proof (cases "kp_alg p = WPA_ALG_NONE")
    case True
    then show ?thesis using d delkey_ok assms(1) by (auto simp: s split: prod.splits)
  next
    case alg: False
    obtain ok k1 ic1 where n: "ieee80211_crypto_newkey drv mem ciphers IEEE80211_CIPHER_AES_CCM
        (IEEE80211_KEY_XMIT OR IEEE80211_KEY_RECV OR (if group then IEEE80211_KEY_GROUP else 0)) r (get_key (ic, uk) r) ic
        = (ok, k1, ic1)" by (metis surj_pair)
    note nt = newkey_typed [OF n t]
    have "key_typed (k1\<lparr>wk_keylen := 16, wk_keyrsc := seq_pn (kp_seq p), wk_keytsc := 0,
        wk_key := the (kp_key p) @ replicate 16 0\<rparr>)"
      using idx alg by (intro fill_typed [OF nt(1)]) auto
    from setkey_typed [OF this]
    obtain ok2 k3 ic2 where k: "ieee80211_crypto_setkey drv (if group then etherbroadcastaddr else mac)
        (k1\<lparr>wk_keylen := 16, wk_keyrsc := seq_pn (kp_seq p), wk_keytsc := 0, wk_key := the (kp_key p) @ replicate 16 0\<rparr>) ic1
        = Some (ok2, k3, ic2)" "key_typed k3" "com.more ic2 = com.more ic1" by blast
    have m: "com.more ic2 = com.more ic" using k(3) nt(2) by simp
    note put = put_key_ok [OF assms(1) [unfolded s]]
    have "crypto_ok (put_key r k3 (if group \<and> kp_set_tx p then ic2\<lparr>ic_def_txkey := of_int (kp_key_idx p)\<rparr> else ic2, uk))"
      using put(1) [OF k(2) m, of r] put(2) [OF k(2) m i, of r] by simp
    moreover have "crypto_ok (put_key r k1 (ic1, uk))" using put(1) [OF nt] .
    ultimately show ?thesis
      using d alg by (simp only: n k(1) prod.case option.case if_False) (auto split: if_splits)
  qed
qed

lemma ioctl_setkey_ok:
  assumes "crypto_ok s" "length (ik_keydata ik) = IEEE80211_KEYBUF_SIZE + IEEE80211_MICBUF_SIZE"
    "ieee80211_ioctl_setkey drv mem ciphers node ik s = Some (res, s')"
  shows "crypto_ok s'"
proof (cases "unat (ik_keylen ik) > IEEE80211_KEYBUF_SIZE + IEEE80211_MICBUF_SIZE")
  case True
  then show ?thesis using assms by (simp add: ieee80211_ioctl_setkey_def)
next
  case len: False
  obtain ic uk where s: "s = (ic, uk)" by fastforce
  define sel where "sel = (if ik_keyix ik = IEEE80211_KEYIX_NONE
      then (if ik_flags ik \<noteq> ucast (IEEE80211_KEY_XMIT OR IEEE80211_KEY_RECV) then Inl IOC_EINVAL
            else case node (ik_macaddr ik) of Inl e \<Rightarrow> Inl e | Inr mac \<Rightarrow> Inr (ucast_key, mac))
      else if unat (ik_keyix ik) \<ge> IEEE80211_WEP_NKID then Inl IOC_EINVAL
      else Inr (nw_key (unat (ik_keyix ik)), ik_macaddr ik))"
  note d = assms(3) [unfolded ieee80211_ioctl_setkey_def if_not_P [OF len] Let_def s fst_conv snd_conv, folded sel_def]
  show ?thesis
  proof (cases sel)
    case (Inl e)
    then show ?thesis using d assms(1) by (simp add: s)
  next
    case (Inr rm)
    obtain r mac where rm: "rm = (r, mac)" by fastforce
    have r: "valid_ref r" "r = ucast_key \<Longrightarrow> \<not> has_flag (ik_flags ik) IEEE80211_KEY_DEFAULT"
      "r \<noteq> ucast_key \<Longrightarrow> unat (ik_keyix ik) < IEEE80211_WEP_NKID"
      using Inr by (auto simp: sel_def rm has_flag_def IEEE80211_KEY_DEFAULT_def key_flag_defs split: if_splits sum.splits)
    have t: "key_typed (get_key (ic, uk) r)" using assms(1) r(1) by (auto simp: s intro: get_key_typed)
    obtain ok k1 ic1 where n: "ieee80211_crypto_newkey drv mem ciphers (unat (ik_type ik)) (ucast (ik_flags ik)) r
        (get_key (ic, uk) r) ic = (ok, k1, ic1)" by (metis surj_pair)
    note nt = newkey_typed [OF n t]
    let ?k2 = "k1\<lparr>wk_keylen := min (unat (ik_keylen ik)) IEEE80211_KEYBUF_SIZE, wk_keyrsc := ik_keyrsc ik, wk_keytsc := 0,
        wk_key := put_at 0 (take (unat (ik_keylen ik)) (ik_keydata ik))
          (replicate (IEEE80211_KEYBUF_SIZE + IEEE80211_MICBUF_SIZE) 0)\<rparr>"
    have "key_typed ?k2"
      using len assms(2) by (intro fill_typed [OF nt(1)]) (simp_all add: wep_lens)
    from setkey_typed [OF this] obtain ok2 k3 ic2 where k: "ieee80211_crypto_setkey drv mac ?k2 ic1 = Some (ok2, k3, ic2)"
      "key_typed k3" "com.more ic2 = com.more ic1" by blast
    have m: "com.more ic2 = com.more ic" using k(3) nt(2) by simp
    note put = put_key_ok [OF assms(1) [unfolded s]]
    have "crypto_ok (put_key r k3 (if has_flag (ik_flags ik) IEEE80211_KEY_DEFAULT then ic2\<lparr>ic_def_txkey := ik_keyix ik\<rparr> else ic2, uk))"
      using put(1) [OF k(2) m, of r] put(2) [OF k(2) m, of _ r] r(2,3) by (cases "r = ucast_key") simp_all
    moreover have "crypto_ok (put_key r k1 (ic1, uk))" "crypto_ok (put_key r k3 (ic2, uk))"
      using put(1) [OF nt] put(1) [OF k(2) m] by simp_all
    ultimately show ?thesis
      using d by (simp only: Inr rm n k(1) prod.case option.case sum.case if_False) (auto split: if_splits)
  qed
qed

lemma ioctl_delkey_ok:
  assumes "crypto_ok s" "ieee80211_ioctl_delkey drv node keyix mac s = (res, s')"
  shows "crypto_ok s'"
proof -
  obtain ic uk where s: "s = (ic, uk)" by fastforce
  show ?thesis
    using assms delkey_ok [of ic uk drv] delkey_ok [of ic uk drv _ _ _ ucast_key]
    by (auto simp: s ieee80211_ioctl_delkey_def split: sum.splits prod.splits if_splits)
qed

lemma attach_ok:
  "crypto_ok (fst (ieee80211_crypto_attach ic ciphers), ieee80211_crypto_resetkey zero_key IEEE80211_KEYIX_NONE)"
  by (simp add: crypto_ok_def ieee80211_crypto_attach_def com.defs crypto_com.defs)

lemma crypto_step_ok: "crypto_step drv ciphers s s' \<Longrightarrow> crypto_ok s \<Longrightarrow> crypto_ok s'"
  by (induction rule: crypto_step.induct)
    (auto intro: set_key_ok ioctl_setkey_ok ioctl_delkey_ok delglobalkeys_ok encap_ok decap_ok demic_ok)

lemma crypto_reach_ok: "crypto_reach drv ciphers s \<Longrightarrow> crypto_ok s"
  by (induction rule: crypto_reach.induct) (simp_all add: attach_ok crypto_step_ok)

end
