(* ===== verification/Crypto_Frames.thy ===== *)
theory Crypto_Frames
  imports Crypto
begin

text \<open>
  What the crypto support promises for frames: the privacy header is opened behind the 802.11
  header, no frame makes a cipher crash, a new key falls back to software when the driver has no
  room, and a frame encapsulated under a key of the supplicant is restored at the other end.
\<close>

subsection \<open>Room for the privacy header\<close>

abbreviation good_mem :: "bytes option \<Rightarrow> bool" where
  "good_mem mem \<equiv> (\<forall>cl. mem = Some cl \<longrightarrow> length cl = MCLBYTES + MH_ALIGN)"

lemma m_prepend_packet:
  assumes "wf_packet m" "m_prepend mem m (int n) = Some m'" "good_mem mem"
  obtains g where "chain_bytes m' = g @ chain_bytes m" "length g = n" "wf_packet m'"
proof -
  have wf: "wf_chain m" using assms(1) by auto
  obtain g where g: "chain_bytes m' = g @ chain_bytes m" "length g = n" "wf_chain m'"
      "m' \<noteq> []" "is_pkthdr (hd m') = is_pkthdr (hd m)"
      "is_pkthdr (hd m) \<longrightarrow> ph_len (m_pkthdr (hd m')) = ph_len (m_pkthdr (hd m)) + n"
    using m_prepend_spec [OF wf assms(2)] assms(3) by auto
  have "chain_len m' = n + chain_len m" using arg_cong [OF g(1), of length] g(2,3) wf by simp
  then have "wf_packet m'" using assms(1) g by (simp add: wf_packet_def)
  then show thesis using that g(1,2) by blast
qed

lemma pullup_front:
  assumes "wf_packet m" "(if front_len m < n then m_pullup mem m (int n) else Some m) = Some m'" "good_mem mem"
  shows "wf_packet m'" "chain_bytes m' = chain_bytes m" "n \<le> front_len m'"
  using assms m_pullup_spec [OF wf_packetD(1) [OF assms(1)], of mem "int n" m'] m_pullup_packet [OF assms(1), of mem "int n" m']
  by (auto split: if_splits)

lemma open_header_spec:
  assumes "wf_packet m" "hdrlen \<le> length (chain_bytes m)" "good_mem mem1" "good_mem mem2"
    and "open_header mem1 mem2 m hdrlen header = Some m'"
  obtains gap where "wf_packet m'" "hdrlen + header \<le> front_len m'" "length gap = header"
    "chain_bytes m' = take hdrlen (chain_bytes m) @ gap @ drop hdrlen (chain_bytes m)"
proof -
  obtain m1 where m1: "m_prepend mem1 m (int header) = Some m1"
    using assms(5) by (auto simp: open_header_def split: option.splits)
  obtain m2 where m2: "(if front_len m1 < hdrlen + header then m_pullup mem2 m1 (int (hdrlen + header)) else Some m1) = Some m2"
    and m': "m' = m_poke m2 0 (take hdrlen (drop header (mtod m2)))"
    using assms(5) by (auto simp: open_header_def m1 simp del: of_nat_add)
  obtain g where g: "chain_bytes m1 = g @ chain_bytes m" "length g = header" "wf_packet m1"
    by (rule m_prepend_packet [OF assms(1) m1 assms(3)])
  note p = pullup_front [OF g(3) m2 assms(4)]
  have "take hdrlen (drop header (mtod m2)) = drop header (take (hdrlen + header) (mtod m2))" by (simp add: drop_take)
  also have "\<dots> = take hdrlen (chain_bytes m)" using p g by (simp add: take_mtod drop_take)
  finally have t: "take hdrlen (drop header (mtod m2)) = take hdrlen (chain_bytes m)" .
  have l: "0 + length (take hdrlen (chain_bytes m)) \<le> front_len m2" using p(3) by simp
  note pk = m_poke_chain [OF p(1) l]
  define gap where "gap = take header (drop hdrlen (g @ chain_bytes m))"
  have "drop header (drop hdrlen (g @ chain_bytes m)) = drop (header + hdrlen) (g @ chain_bytes m)" by (simp only: drop_drop)
  also have "\<dots> = drop hdrlen (chain_bytes m)" using g(2) by simp
  finally have gd: "drop hdrlen (g @ chain_bytes m) = gap @ drop hdrlen (chain_bytes m)"
    using append_take_drop_id [of header "drop hdrlen (g @ chain_bytes m)"] by (simp add: gap_def)
  have "chain_bytes m' = take hdrlen (chain_bytes m) @ gap @ drop hdrlen (chain_bytes m)"
    using pk(1) assms(2) gd by (simp add: m' t p(2) g(1) put_at_def min_absorb2)
  moreover have "length gap = header" using g(2) assms(2) by (simp add: gap_def)
  moreover have "wf_packet m'" "hdrlen + header \<le> front_len m'" using pk p(3) by (simp_all add: m' t)
  ultimately show thesis using that by blast
qed

lemma open_header_hdr:
  assumes "wf_packet m" "24 \<le> hdrlen" "hdrlen \<le> front_len m" "wf_packet m'" "hdrlen \<le> front_len m'"
    and "take hdrlen (chain_bytes m') = take hdrlen (chain_bytes m)"
  shows "ieee80211_hdrspace fl (mtod m') = ieee80211_hdrspace fl (mtod m)" "i_addr1 (mtod m') = i_addr1 (mtod m)"
proof -
  have t: "take hdrlen (mtod m') = take hdrlen (mtod m)" using assms by (simp add: take_mtod)
  have "mtod m' ! i = mtod m ! i" if "i < hdrlen" for i using arg_cong [OF t, of "\<lambda>l. l ! i"] that by simp
  then show "ieee80211_hdrspace fl (mtod m') = ieee80211_hdrspace fl (mtod m)"
    using assms(2) by (intro hdrspace_cong) simp_all
  have "i_addr1 (mtod m') = i_addr1 (take hdrlen (mtod m'))" "i_addr1 (mtod m) = i_addr1 (take hdrlen (mtod m))"
    using assms(2) by (simp_all add: i_addr1_def drop_take)
  then show "i_addr1 (mtod m') = i_addr1 (mtod m)" by (simp add: t)
qed

subsection \<open>Frames never crash\<close>

lemma ccmp_decrypt_total:
  assumes "wf_packet m" "ieee80211_hdrsize (mtod m) \<le> hdrlen" "hdrlen + 8 \<le> front_len m"
    and "hdrlen + 16 \<le> pkt_len m" "pkt_len m < 2 ^ 16"
  shows "ccmp_decrypt stale k ctx pn ic m hdrlen \<noteq> None"
proof -
  define n where "n = pkt_len m - hdrlen - 16"
  define tag where "tag = m_copydata m (pkt_len m - 8) 8"
  have len: "length (chain_bytes m) = pkt_len m" "chain_len m = pkt_len m"
    using assms(1) wf_packetD(1) [OF assms(1)] by (simp_all add: pkt_len_bytes)
  have h24: "24 \<le> length (chain_bytes m)" using hdrsize_bounds(1) [of "mtod m"] assms(2,4) len by simp
  note hdr = ccmp_mtod [OF assms(1,2)] and lens = ccmp_lengths [OF h24]
  have C: "ccmp_init_blocks stale (cc_aes ctx) (mtod m) pn n =
      aes_ccm_init 10 (cc_aes ctx) 2 8 (ccmp_nonce (chain_bytes m) pn) (ccmp_ad (chain_bytes m)) n stale"
    using assms(3) hdr by (simp add: ccmp_init_blocks_def wep_lens)
  have c: "hdrlen + 8 < chain_len m" "hdrlen + 8 + n \<le> chain_len m" "n < 2 ^ 16" "(8::nat) \<le> 16"
    using assms(4,5) len by (simp_all add: n_def)
  have "aes_ccm_dec_mbuf (aes_ccm_init 10 (cc_aes ctx) 2 8 (ccmp_nonce (chain_bytes m) pn) (ccmp_ad (chain_bytes m)) n stale)
      m (hdrlen + 8) n tag \<noteq> None"
    using ccm_dec_chain [OF wf_packetD(1) [OF assms(1)] c(1-3) lens(1) c(4) lens(2) refl refl, of 10 "cc_aes ctx" pn stale tag]
    by (elim exE conjE) (simp only: option.distinct not_False_eq_True)
  moreover have "uint_sub (pkt_len m) (hdrlen + 8 + ic_trailer cipher_ccmp) = n" "hdrlen + ic_header cipher_ccmp = hdrlen + 8"
    "m_copydata m (uint_sub (pkt_len m) (ic_trailer cipher_ccmp)) (ic_trailer cipher_ccmp) = tag"
    using assms(4) by (simp_all add: n_def tag_def wep_lens)
  ultimately show ?thesis unfolding ccmp_decrypt_def Let_def by (auto simp: C split: if_splits)
qed

lemma ccmp_encrypt_total:
  assumes "wf_packet m" "ieee80211_hdrsize (mtod m) \<le> hdrlen" "hdrlen + 8 \<le> front_len m"
    and "hdrlen + 8 < pkt_len m" "pkt_len m < 2 ^ 16"
  shows "ccmp_encrypt mems stale k ctx ic m hdrlen \<noteq> None"
proof -
  define n where "n = pkt_len m - (hdrlen + 8)"
  have len: "length (chain_bytes m) = pkt_len m" "chain_len m = pkt_len m"
    using assms(1) wf_packetD(1) [OF assms(1)] by (simp_all add: pkt_len_bytes)
  have h24: "24 \<le> length (chain_bytes m)" using hdrsize_bounds(1) [of "mtod m"] assms(2,4) len by simp
  note hdr = ccmp_mtod [OF assms(1,2)] and lens = ccmp_lengths [OF h24]
  have C: "ccmp_init_blocks stale (cc_aes ctx) (mtod m) (wk_keytsc k) n =
      aes_ccm_init 10 (cc_aes ctx) 2 8 (ccmp_nonce (chain_bytes m) (wk_keytsc k)) (ccmp_ad (chain_bytes m)) n stale"
    using assms(3) hdr by (simp add: ccmp_init_blocks_def wep_lens)
  have c: "hdrlen + 8 < chain_len m" "hdrlen + 8 + n \<le> chain_len m" "n < 2 ^ 16" "(8::nat) \<le> 16"
    using assms(4,5) len by (simp_all add: n_def)
  have "aes_ccm_enc_mbuf (aes_ccm_init 10 (cc_aes ctx) 2 8 (ccmp_nonce (chain_bytes m) (wk_keytsc k)) (ccmp_ad (chain_bytes m)) n stale)
      m (hdrlen + 8) n \<noteq> None"
    using ccm_enc_chain [OF wf_packetD(1) [OF assms(1)] c(1-3) lens(1) c(4) lens(2) refl, of 10 "cc_aes ctx" "wk_keytsc k" stale]
    by (elim exE conjE) (simp only: option.distinct not_False_eq_True)
  moreover have "uint_sub (pkt_len m) (hdrlen + 8) = n" "hdrlen + ic_header cipher_ccmp = hdrlen + 8"
    using assms(4) by (simp_all add: n_def wep_lens)
  ultimately show ?thesis unfolding ccmp_encrypt_def Let_def by (auto simp: C split: prod.splits)
qed

lemma ic_decap_total:
  assumes "key_typed k" "wf_packet m" "ieee80211_hdrsize (mtod m) \<le> hdrlen" "pkt_len m < 2 ^ 16"
    and "hdrlen + ic_header (wk_cipher k) \<le> front_len m"
    and "hdrlen + ic_header (wk_cipher k) + ic_trailer (wk_cipher k) \<le> pkt_len m"
  shows "ic_decap stale k ic m hdrlen \<noteq> None"
proof -
  have "ctx_matches (wk_cipher k) (wk_private k)" using assms(1) by (simp add: key_typed_def)
  then show ?thesis
  proof (cases rule: ctx_matchesE)
    case (4 c)
    have "ccmp_decrypt stale k c pn ic m hdrlen \<noteq> None" for pn
      using assms(2-) 4(1) by (intro ccmp_decrypt_total) (simp_all add: wep_lens)
    moreover have "\<exists>pn. ccmp_decrypt stale k c pn ic m hdrlen = None" if "ccmp_decap stale k c ic m hdrlen = None"
      using that by (auto simp: ccmp_decap_def Let_def split: option.splits if_splits)
    ultimately have "ccmp_decap stale k c ic m hdrlen \<noteq> None" by blast
    then show ?thesis using 4 by (simp add: ic_decap_def)
  qed (auto simp: ic_decap_def none_decap_def split: prod.splits)
qed

lemma ic_encap_total:
  assumes "key_typed k" "wf_packet m" "hdrlen = ieee80211_hdrspace (ic_flags ic) (mtod m)" "pkt_len m < 2 ^ 16"
    and "hdrlen + ic_header (wk_cipher k) \<le> front_len m" "hdrlen + ic_header (wk_cipher k) < pkt_len m"
  shows "ic_encap mems stale k ic m keyid \<noteq> None"
proof -
  have "ctx_matches (wk_cipher k) (wk_private k)" using assms(1) by (simp add: key_typed_def)
  then show ?thesis
  proof (cases rule: ctx_matchesE)
    case (4 c)
    have h24: "24 \<le> hdrlen" using hdrspace_bounds(1) assms(3) by simp
    have "ccmp_encrypt mems stale k' c ic (m_poke m hdrlen iv) hdrlen \<noteq> None" if "length iv = 8" for k' :: crypto_key and iv
    proof (rule ccmp_encrypt_total)
      have "hdrlen + length iv \<le> front_len m" using that assms(5) 4(1) by (simp add: wep_lens)
      note pk = m_poke_chain [OF assms(2) this] and hd = poke_header(1) [OF assms(2) this h24 assms(3)]
      show "wf_packet (m_poke m hdrlen iv)" "hdrlen + 8 \<le> front_len (m_poke m hdrlen iv)"
        "hdrlen + 8 < pkt_len (m_poke m hdrlen iv)" "pkt_len (m_poke m hdrlen iv) < 2 ^ 16"
        using pk assms(4-6) 4(1) by (simp_all add: wep_lens)
      show "ieee80211_hdrsize (mtod (m_poke m hdrlen iv)) \<le> hdrlen" using hd hdrsize_le_hdrspace by metis
    qed
    then show ?thesis using 4 assms(3) by (auto simp: ic_encap_def ccmp_encap_def Let_def)
  qed (auto simp: ic_encap_def none_encap_def split: prod.splits)
qed

lemma crypto_decap_total:
  assumes "crypto_ok s" "wf_packet m" "hdrlen = ieee80211_hdrspace (ic_flags (fst s)) (mtod m)"
    and "hdrlen \<le> front_len m" "pkt_len m < 2 ^ 16" "good_mem mem"
  shows "ieee80211_crypto_decap mem stale junk s m hdrlen \<noteq> None"
proof -
  obtain ic uk where s: "s = (ic, uk)" by fastforce
  define keyid where "keyid = (case m_copydata m (hdrlen + IEEE80211_WEP_IVLEN) 1 of b # _ \<Rightarrow> b | [] \<Rightarrow> junk)"
  define r where "r = (if IEEE80211_IS_MULTICAST (i_addr1 (mtod m)) \<or> wk_cipher uk = cipher_none
      then nw_key (unat (drop_bit 6 keyid)) else ucast_key)"
  define k where "k = get_key (ic, uk) r"
  have "valid_ref r" using keyid_valid by (simp add: r_def)
  then have t: "key_typed k" using assms(1) unfolding k_def s by (rule get_key_typed [rotated])
  have h24: "24 \<le> hdrlen" using hdrspace_bounds(1) assms(3) by simp
  have dec: "ic_decap stale k ic m1 hdrlen \<noteq> None"
    if p: "(if front_len m < hdrlen + ic_header (wk_cipher k) then m_pullup mem m (int (hdrlen + ic_header (wk_cipher k))) else Some m) = Some m1"
      and l: "hdrlen + ic_header (wk_cipher k) + ic_trailer (wk_cipher k) \<le> pkt_len m1" for m1
  proof (rule ic_decap_total [OF t])
    note f = pullup_front [OF assms(2) p assms(6)]
    show "wf_packet m1" "hdrlen + ic_header (wk_cipher k) \<le> front_len m1"
      "hdrlen + ic_header (wk_cipher k) + ic_trailer (wk_cipher k) \<le> pkt_len m1" using f l by simp_all
    show "pkt_len m1 < 2 ^ 16" using assms(2,5) f(1,2) by (simp add: pkt_len_bytes)
    have "ieee80211_hdrspace (ic_flags ic) (mtod m1) = hdrlen"
      using open_header_hdr(1) [OF assms(2) h24 assms(4) f(1)] f(2,3) assms(3) by (simp add: s)
    then show "ieee80211_hdrsize (mtod m1) \<le> hdrlen" using hdrsize_le_hdrspace by metis
  qed
  let ?p = "if front_len m < hdrlen + ic_header (wk_cipher k) then m_pullup mem m (int (hdrlen + ic_header (wk_cipher k))) else Some m"
  show ?thesis
  proof (cases ?p)
    case None
    then show ?thesis
      unfolding ieee80211_crypto_decap_def Let_def s fst_conv snd_conv keyid_def [symmetric] r_def [symmetric] k_def [symmetric] None
      by simp
  next
    case (Some m1)
    show ?thesis
      unfolding ieee80211_crypto_decap_def Let_def s fst_conv snd_conv keyid_def [symmetric] r_def [symmetric] k_def [symmetric] Some
      using dec [OF Some] by (auto simp: not_less)
  qed
qed

lemma crypto_encap_total:
  assumes "crypto_ok s" "wf_packet m" "hdrlen = ieee80211_hdrspace (ic_flags (fst s)) (mtod m)"
    and "hdrlen \<le> front_len m" "hdrlen < pkt_len m" "pkt_len m + 8 < 2 ^ 16" "good_mem mem1" "good_mem mem2"
  shows "ieee80211_crypto_encap mem1 mem2 mems stale s m \<noteq> None"
proof -
  obtain ic uk where s: "s = (ic, uk)" by fastforce
  define group where "group \<longleftrightarrow> IEEE80211_IS_MULTICAST (i_addr1 (mtod m)) \<or> wk_cipher uk = cipher_none"
  define r where "r = (if group then nw_key (unat (ic_def_txkey ic)) else ucast_key)"
  define k where "k = get_key (ic, uk) r"
  show ?thesis
  proof (cases "group \<and> ic_def_txkey ic = IEEE80211_KEYIX_NONE")
    case True
    then show ?thesis
      unfolding ieee80211_crypto_encap_def Let_def s fst_conv snd_conv group_def [symmetric] by simp
  next
    case no: False
    then have "valid_ref r" and idx: "\<not> (group \<and> unat (ic_def_txkey ic) \<ge> length (ic_nw_keys ic))"
      using assms(1) by (auto simp: r_def s crypto_ok_def)
    then have t: "key_typed k" using assms(1) unfolding k_def s by (intro get_key_typed)
    have len: "length (chain_bytes m) = pkt_len m" using assms(2) by (simp add: pkt_len_bytes)
    have h24: "24 \<le> hdrlen" using hdrspace_bounds(1) assms(3) by simp
    define keyid where "keyid = (if group then ucast (ic_def_txkey ic) else 0 :: u8)"
    have enc: "\<exists>x. ic_encap mems stale k ic m1 (push_bit 6 keyid) = Some x"
      if o: "open_header mem1 mem2 m hdrlen (ic_header (wk_cipher k)) = Some m1" for m1
    proof -
      have le: "hdrlen \<le> length (chain_bytes m)" using assms(5) len by simp
      obtain gap where g: "wf_packet m1" "hdrlen + ic_header (wk_cipher k) \<le> front_len m1" "length gap = ic_header (wk_cipher k)"
        "chain_bytes m1 = take hdrlen (chain_bytes m) @ gap @ drop hdrlen (chain_bytes m)"
        by (rule open_header_spec [OF assms(2) le assms(7,8) o])
      have pl: "pkt_len m1 = pkt_len m + ic_header (wk_cipher k)"
        using g(3) len le by (simp add: pkt_len_bytes [OF g(1)] g(4))
      have "hdrlen = ieee80211_hdrspace (ic_flags ic) (mtod m1)"
        using open_header_hdr(1) [OF assms(2) h24 assms(4) g(1)] g(2,4) le assms(3) by (simp add: s)
      then have "ic_encap mems stale k ic m1 (push_bit 6 keyid) \<noteq> None"
        using header_le(1) [of "wk_cipher k"] pl assms(5,6) g(2) by (intro ic_encap_total [OF t g(1)]) simp_all
      then show ?thesis by blast
    qed
    show ?thesis
      unfolding ieee80211_crypto_encap_def Let_def s fst_conv snd_conv group_def [symmetric] keyid_def [symmetric]
        r_def [symmetric] k_def [symmetric] if_not_P [OF no] if_not_P [OF idx] assms(3) [unfolded s fst_conv, symmetric]
      by (cases "open_header mem1 mem2 m hdrlen (ic_header (wk_cipher k))") (auto dest!: enc)
  qed
qed

subsection \<open>New keys\<close>

lemma attach_mem: "fst mem \<Longrightarrow> \<exists>c. ic_attach mem cip ic = (Some c, ic)"
  by (cases cip) (auto simp: ic_attach_def wep_attach_def tkip_attach_def ccmp_attach_def)

text \<open>
  An attempt when memory is available, the key has no slot yet and the driver's answer depends on
  the flags of the key only.
\<close>

lemma newkey_bind_attempt:
  assumes mem: "\<And>n. fst (mem n)" and ix: "wk_keyix key = IEEE80211_KEYIX_NONE"
    and alloc: "\<And>ic k. cs_key_alloc drv ic k r = slot (wk_flags k)" and keep: "\<not> rebind \<Longrightarrow> wk_cipher key = cip"
  obtains key1 ic1 where "wk_cipher key1 = cip" "wk_flags key1 = flags" "wk_keyix key1 = IEEE80211_KEYIX_NONE" "wk_key key1 = wk_key key"
    "newkey_bind drv mem cip r n rebind flags oflags key ic =
      (case slot flags of
         None \<Rightarrow>
           if \<not> has_flag flags IEEE80211_KEY_SWCRYPT
           then newkey_bind drv mem cip r (Suc n) True (sw_fallback cip flags) flags key1 (inc_stat is_crypto_swfallback ic1)
           else (False, key1, inc_stat is_crypto_keyfail ic1)
       | Some (keyix, rxkeyix) \<Rightarrow> (True, key1\<lparr>wk_keyix := keyix, wk_rxkeyix := rxkeyix\<rparr>, ic1))"
proof -
  obtain c ic1 where a: "(if rebind then ic_attach (mem n) cip ic else (Some (wk_private key), ic)) = (Some c, ic1)"
    using attach_mem [OF mem, of n cip ic] by (cases rebind) auto
  define key1 where "key1 = (if rebind then key\<lparr>wk_cipher := cip, wk_private := c\<rparr> else key)\<lparr>wk_flags := flags\<rparr>"
  note e = newkey_bind_eq [of rebind mem n cip ic key c ic1, OF a key1_def, of drv r oflags]
  have k: "wk_cipher key1 = cip" "wk_flags key1 = flags" "wk_keyix key1 = IEEE80211_KEYIX_NONE" "wk_key key1 = wk_key key"
    using keep ix by (simp_all add: key1_def)
  show thesis
    by (rule that [OF k, of ic1]) (simp only: e k alloc simp_thms if_True)
qed

lemma newkey_flags_sw:
  "has_flag (newkey_flags ic cipher flags) IEEE80211_KEY_SWCRYPT \<longleftrightarrow> \<not> has_flag (ic_caps ic) (push_bit cipher 1)"
proof -
  have "\<not> has_flag (flags AND IEEE80211_KEY_COMMON) IEEE80211_KEY_SWCRYPT"
    by (simp add: has_flag_def key_flag_defs and.assoc)
  moreover have "has_flag (set_flag x IEEE80211_KEY_SWMIC) IEEE80211_KEY_SWCRYPT = has_flag x IEEE80211_KEY_SWCRYPT" for x
    by (rule has_flag_set_disjoint) (simp add: key_flag_defs)
  ultimately show ?thesis by (simp add: newkey_flags_def Let_def key_flag_defs)
qed

lemma newkey_bad:
  "cipher \<ge> IEEE80211_CIPHER_MAX \<Longrightarrow> ieee80211_crypto_newkey drv mem ciphers cipher flags r key ic =
     (False, key, inc_stat is_crypto_badcipher ic)"
  "cipher < IEEE80211_CIPHER_MAX \<Longrightarrow> ciphers ! cipher = None \<Longrightarrow>
     ieee80211_crypto_newkey drv mem ciphers cipher flags r key ic = (False, key, inc_stat is_crypto_nocipher ic)"
  by (simp_all add: ieee80211_crypto_newkey_def ieee80211_load_module_def)

lemma newkey_good:
  "cipher < IEEE80211_CIPHER_MAX \<Longrightarrow> ciphers ! cipher = Some cip \<Longrightarrow> f = newkey_flags ic cipher flags \<Longrightarrow>
     ieee80211_crypto_newkey drv mem ciphers cipher flags r key ic =
       newkey_bind drv mem cip r 0 (wk_cipher key \<noteq> cip \<or> wk_flags key \<noteq> f) f (wk_flags key) key ic"
  by (simp add: ieee80211_crypto_newkey_def Let_def)

text \<open>A software key that was created is bound to its cipher.\<close>

lemma newkey_bind_sw:
  assumes "newkey_bind drv mem cip r n rebind flags oflags key ic = (True, key', ic')"
    and "has_flag flags IEEE80211_KEY_SWCRYPT" "\<not> rebind \<Longrightarrow> wk_cipher key = cip"
  shows "wk_cipher key' = cip" "swcrypt key'" "ic_flags ic' = ic_flags ic"
proof -
  obtain ctx ic1 where a: "(if rebind then ic_attach (mem n) cip ic else (Some (wk_private key), ic)) = (ctx, ic1)"
    by (metis surj_pair)
  obtain c where c: "ctx = Some c"
    using a assms(1) newkey_bind_fail [of rebind mem n cip ic key ic1] by (cases ctx) auto
  define key1 where "key1 = (if rebind then key\<lparr>wk_cipher := cip, wk_private := c\<rparr> else key)\<lparr>wk_flags := flags\<rparr>"
  note e = newkey_bind_eq [of rebind mem n cip ic key c ic1, OF a [unfolded c] key1_def, of drv r oflags]
  have "ic1 = ic" using a c ic_attach_matches [of "mem n" cip ic c ic1] by (auto split: if_splits)
  moreover have "wk_cipher key1 = cip" "swcrypt key1" using assms(2,3) by (simp_all add: key1_def swcrypt_def)
  ultimately have "wk_cipher key' = cip \<and> swcrypt key' \<and> ic_flags ic' = ic_flags ic"
    using assms(1,2) unfolding e by (auto simp: swcrypt_def split: if_splits option.splits)
  then show "wk_cipher key' = cip" "swcrypt key'" "ic_flags ic' = ic_flags ic" by simp_all
qed

text \<open>The state after the supplicant installed a pairwise key in software.\<close>

lemma set_key_pairwise:
  assumes ok: "crypto_ok s" and set: "freertos_set_key drv mem ciphers mac p s = Some (0, True, s')"
    and tab: "ciphers ! IEEE80211_CIPHER_AES_CCM = Some cipher_ccmp"
    and sw: "\<not> has_flag (ic_caps (fst s)) (push_bit IEEE80211_CIPHER_AES_CCM 1)"
  obtains c where "wk_cipher (snd s') = cipher_ccmp" "wk_private (snd s') = ctx_ccmp c" "ccmp_keyed (snd s') c"
    "swcrypt (snd s')" "wk_key (snd s') = the (kp_key p) @ replicate 16 0" "wk_keytsc (snd s') = 0"
    "wk_keyrsc (snd s') = seq_pn (kp_seq p)" "ic_flags (fst s') = ic_flags (fst s)"
proof -
  obtain ic uk where s: "s = (ic, uk)" by fastforce
  have idx: "\<not> (kp_key_idx p < 0 \<or> kp_key_idx p \<ge> int IEEE80211_WEP_NKID \<or>
    (kp_alg p \<noteq> WPA_ALG_NONE \<and> (kp_alg p \<noteq> WPA_ALG_CCMP \<or> kp_key p = None \<or> length (the (kp_key p)) \<noteq> 16)))"
    (is "\<not> ?bad")
  proof
    assume ?bad
    then have "freertos_set_key drv mem ciphers mac p s = Some (- 1, False, s)" by (simp only: freertos_set_key_def if_True)
    with set show False by simp
  qed
  define group where "group = (case kp_addr p of None \<Rightarrow> True | Some a \<Rightarrow> has_flag (a ! 0) 0x01)"
  note d = set [unfolded freertos_set_key_def if_not_P [OF idx] Let_def s fst_conv snd_conv, folded group_def]
  have alg: "kp_alg p \<noteq> WPA_ALG_NONE" using d by (auto split: prod.splits)
  obtain b k1 ic1 where n: "ieee80211_crypto_newkey drv mem ciphers IEEE80211_CIPHER_AES_CCM
      (IEEE80211_KEY_XMIT OR IEEE80211_KEY_RECV OR (if group then IEEE80211_KEY_GROUP else 0))
      (if group then nw_key (nat (kp_key_idx p)) else ucast_key)
      (get_key (ic, uk) (if group then nw_key (nat (kp_key_idx p)) else ucast_key)) ic = (b, k1, ic1)" by (metis surj_pair)
  define k2 where "k2 = k1\<lparr>wk_keylen := 16, wk_keyrsc := seq_pn (kp_seq p), wk_keytsc := 0,
      wk_key := the (kp_key p) @ replicate 16 0\<rparr>"
  note d2 = d [unfolded n prod.case, folded k2_def]
  have b: "b" "\<not> group"
    using d2 alg by (auto split: if_splits option.splits prod.splits)
  then obtain k3 ic2 where k3: "ieee80211_crypto_setkey drv mac k2 ic1 = Some (True, k3, ic2)" and s': "s' = (ic2, k3)"
    using d2 alg by (auto split: if_splits option.splits prod.splits)
  have lt: "IEEE80211_CIPHER_AES_CCM < IEEE80211_CIPHER_MAX" by (simp add: cipher_index_defs)
  have nb: "newkey_bind drv mem cipher_ccmp ucast_key 0
      (wk_cipher uk \<noteq> cipher_ccmp \<or> wk_flags uk \<noteq> newkey_flags ic IEEE80211_CIPHER_AES_CCM (IEEE80211_KEY_XMIT OR IEEE80211_KEY_RECV OR 0))
      (newkey_flags ic IEEE80211_CIPHER_AES_CCM (IEEE80211_KEY_XMIT OR IEEE80211_KEY_RECV OR 0)) (wk_flags uk) uk ic = (True, k1, ic1)"
    using n b by (simp add: newkey_good [OF lt tab refl])
  have f: "has_flag (newkey_flags ic IEEE80211_CIPHER_AES_CCM (IEEE80211_KEY_XMIT OR IEEE80211_KEY_RECV OR 0)) IEEE80211_KEY_SWCRYPT"
    using sw by (simp add: newkey_flags_sw s)
  note bound = newkey_bind_sw [OF nb f]
  have "key_typed uk" using ok by (simp add: s crypto_ok_def)
  then have "key_typed k1" using newkey_bind_typed [OF nb] by simp
  then have k2: "key_typed k2" "swcrypt k2" "wk_cipher k2 = cipher_ccmp"
    using idx alg bound fill_typed [of k1 "the (kp_key p) @ replicate 16 0" 16] by (auto simp: k2_def swcrypt_def)
  then obtain c where c: "wk_private k2 = ctx_ccmp c" "length (cc_aes c) = 60"
    by (cases "wk_private k2") (auto simp: key_typed_def)
  obtain c' where c': "ccmp_setkey k2 c = Some (True, c')" "k3 = k2\<lparr>wk_private := ctx_ccmp c'\<rparr>" "ic2 = ic1"
    using k3 k2(3) c by (auto simp: ieee80211_crypto_setkey_def ic_setkey_def split: if_splits option.splits)
  have "ccmp_keyed k2 c'" using k2 c(2) c'(1) by (intro ccmp_setkey_keyed [of k2 c]) (simp_all add: key_typed_def)
  then have "ccmp_keyed k3 c'" by (simp add: c'(2) ccmp_keyed_def)
  then show thesis
    using that [of c'] k2 bound(3) by (simp add: s' s c'(2,3) swcrypt_def k2_def)
qed

subsection \<open>From one end to the other\<close>

lemma open_header_some:
  assumes "wf_packet m" "hdrlen \<le> length (chain_bytes m)" "hdrlen + header \<le> 2048"
    and "length cl1 = MCLBYTES + MH_ALIGN" "length cl2 = MCLBYTES + MH_ALIGN"
  shows "\<exists>m'. open_header (Some cl1) (Some cl2) m hdrlen header = Some m'"
proof -
  obtain a rest where m: "m = a # rest" using wf_packetD(2) [OF assms(1)] by (cases m) auto
  have "\<exists>m1. m_prepend (Some cl1) m (int header) = Some m1"
    using assms(3) by (simp add: m_prepend_def m m_get_impl_def MCLBYTES_def MH_ALIGN_def Let_def split: prod.split)
  then obtain m1 where m1: "m_prepend (Some cl1) m (int header) = Some m1" by blast
  obtain g where g: "chain_bytes m1 = g @ chain_bytes m" "length g = header" "wf_packet m1"
    by (rule m_prepend_packet [OF assms(1) m1]) (use assms(4) in simp_all)
  obtain b rest' where b: "m1 = b # rest'" using wf_packetD(2) [OF g(3)] by (cases m1) auto
  have "hdrlen + header \<le> chain_len m1"
    using arg_cong [OF g(1), of length] g(2) assms(2) wf_packetD(1) [OF g(3)] by simp
  then have "\<exists>m2. m_pullup (Some cl2) m1 (int (hdrlen + header)) = Some m2"
    using assms(3) by (auto simp: m_pullup_def b m_get_impl_def MCLBYTES_def MH_ALIGN_def split: prod.split)
  then show ?thesis by (auto simp: open_header_def m1 simp del: of_nat_add)
qed

lemma crypto_encap_ccmp:
  assumes "wf_packet m" "hdrlen = ieee80211_hdrspace (ic_flags ic) (mtod m)" "hdrlen \<le> front_len m" "hdrlen < pkt_len m"
    and "\<not> IEEE80211_IS_MULTICAST (i_addr1 (mtod m))" "wk_cipher uk = cipher_ccmp" "wk_private uk = ctx_ccmp c"
    and "length cl1 = MCLBYTES + MH_ALIGN" "length cl2 = MCLBYTES + MH_ALIGN"
  obtains m1 gap where "wf_packet m1" "hdrlen = ieee80211_hdrspace (ic_flags ic) (mtod m1)" "hdrlen + 8 \<le> front_len m1"
    "length gap = 8" "chain_bytes m1 = take hdrlen (chain_bytes m) @ gap @ drop hdrlen (chain_bytes m)"
    "ieee80211_crypto_encap (Some cl1) (Some cl2) mems stale (ic, uk) m =
       (case ccmp_encap mems stale uk c ic m1 0 of
          None \<Rightarrow> None | Some (ok, k', ic', m2) \<Rightarrow> Some (if ok then Some ucast_key else None, (ic', k'), Some m2))"
proof -
  have len: "length (chain_bytes m) = pkt_len m" using assms(1) by (simp add: pkt_len_bytes)
  have u: "(IEEE80211_IS_MULTICAST (i_addr1 (mtod m)) \<or> wk_cipher uk = cipher_none) = False" using assms(5,6) by simp
  have le: "hdrlen \<le> length (chain_bytes m)" and h24: "24 \<le> hdrlen" and h: "hdrlen + ic_header cipher_ccmp \<le> 2048"
    using assms(4) len hdrspace_bounds [of "ic_flags ic" "mtod m"] assms(2) by (simp_all add: wep_lens)
  obtain m1 where o: "open_header (Some cl1) (Some cl2) m hdrlen (ic_header cipher_ccmp) = Some m1"
    using open_header_some [OF assms(1) le h assms(8,9)] by blast
  obtain gap where gp: "wf_packet m1" "hdrlen + ic_header cipher_ccmp \<le> front_len m1" "length gap = ic_header cipher_ccmp"
    "chain_bytes m1 = take hdrlen (chain_bytes m) @ gap @ drop hdrlen (chain_bytes m)"
    by (rule open_header_spec [OF assms(1) le _ _ o]) (use assms(8,9) in simp_all)
  have hd: "hdrlen = ieee80211_hdrspace (ic_flags ic) (mtod m1)"
    using open_header_hdr(1) [OF assms(1) h24 assms(3) gp(1)] gp(2,4) le assms(2) by simp
  have e: "ieee80211_crypto_encap (Some cl1) (Some cl2) mems stale (ic, uk) m =
       (case ccmp_encap mems stale uk c ic m1 0 of
          None \<Rightarrow> None | Some (ok, k', ic', m2) \<Rightarrow> Some (if ok then Some ucast_key else None, (ic', k'), Some m2))"
    unfolding ieee80211_crypto_encap_def Let_def fst_conv snd_conv u if_False simp_thms get_key.simps
    unfolding assms(6) assms(2) [symmetric] o option.case put_key.simps
    by (simp add: ic_encap_def assms(6,7))
  show thesis
    by (rule that [OF gp(1) hd _ _ gp(4) e]) (use gp(2,3) in \<open>simp_all add: wep_lens\<close>)
qed

lemma crypto_decap_ccmp:
  assumes "wf_packet m" "24 \<le> hdrlen" "hdrlen + 16 \<le> pkt_len m" "hdrlen \<le> front_len m" "hdrlen + 8 \<le> 2048"
    and "\<not> IEEE80211_IS_MULTICAST (i_addr1 (mtod m))" "wk_cipher uk = cipher_ccmp" "wk_private uk = ctx_ccmp c"
    and "length cl = MCLBYTES + MH_ALIGN"
  obtains m1 where "wf_packet m1" "chain_bytes m1 = chain_bytes m" "hdrlen + 8 \<le> front_len m1"
    "ieee80211_crypto_decap (Some cl) stale junk (ic, uk) m hdrlen =
       (case ccmp_decap stale uk c ic m1 hdrlen of
          None \<Rightarrow> None | Some (ok, k', ic', m2) \<Rightarrow> Some (if ok then Some ucast_key else None, (ic', k'), Some m2))"
proof -
  let ?p = "if front_len m < hdrlen + 8 then m_pullup (Some cl) m (int (hdrlen + 8)) else Some m"
  obtain a rest where m: "m = a # rest" using wf_packetD(2) [OF assms(1)] by (cases m) auto
  have cl: "chain_len m = pkt_len m" using assms(1) wf_packetD(1) [OF assms(1)] by (simp add: wf_packet_def pkt_len_def)
  have "\<exists>m1. ?p = Some m1"
    using assms(3,5) cl by (auto simp: m_pullup_def m m_get_impl_def MCLBYTES_def MH_ALIGN_def split: prod.split)
  then obtain m1 where p: "?p = Some m1" by blast
  have "good_mem (Some cl)" using assms(9) by simp
  note f = pullup_front [OF assms(1) p this]
  have pl: "pkt_len m1 = pkt_len m" using f(1,2) assms(1) by (simp add: pkt_len_bytes)
  have min: "\<not> pkt_len m < IEEE80211_WEP_MINLEN"
    using assms(2,3) by (simp add: IEEE80211_WEP_MINLEN_def IEEE80211_WEP_HDRLEN_def sizeof_frame_def wep_lens)
  have h: "hdrlen + ic_header cipher_ccmp = hdrlen + 8" "\<not> pkt_len m1 < hdrlen + 8 + ic_trailer cipher_ccmp"
    using assms(3) pl by (simp_all add: wep_lens)
  have u: "(IEEE80211_IS_MULTICAST (i_addr1 (mtod m)) \<or> wk_cipher uk = cipher_none) = False" using assms(6,7) by simp
  show thesis
  proof (rule that [OF f])
    show "ieee80211_crypto_decap (Some cl) stale junk (ic, uk) m hdrlen =
       (case ccmp_decap stale uk c ic m1 hdrlen of
          None \<Rightarrow> None | Some (ok, k', ic', m2) \<Rightarrow> Some (if ok then Some ucast_key else None, (ic', k'), Some m2))"
      unfolding ieee80211_crypto_decap_def Let_def fst_conv snd_conv if_not_P [OF min] u if_False get_key.simps
      unfolding assms(7) h(1) p option.case if_not_P [OF h(2)] put_key.simps
      by (simp add: ic_decap_def assms(7,8))
  qed
qed

lemma ccmp_encap_shape:
  assumes "wf_packet ms" "hdrlen = ieee80211_hdrspace (ic_flags ic) (mtod ms)" "hdrlen + 8 \<le> front_len ms"
    and "hdrlen + 8 < pkt_len ms" "pkt_len ms < 2 ^ 16" "swcrypt k" "ccmp_keyed k ctx" "length cl = MCLBYTES + MH_ALIGN"
  obtains ic' ms1 where "ccmp_encap [Some cl] stale k ctx ic ms keyid = Some (True, k\<lparr>wk_keytsc := wk_keytsc k + 1\<rparr>, ic', ms1)"
    "take hdrlen (chain_bytes ms1) = take hdrlen (chain_bytes ms)" "length (chain_bytes ms1) = length (chain_bytes ms) + 8"
proof -
  let ?E = "ccmp_cipher k" and ?B = "chain_bytes ms" and ?pn = "wk_keytsc k + 1"
  let ?n = "ccmp_nonce ?B ?pn" and ?p = "drop (hdrlen + 8) ?B"
  obtain ms1 where e: "ccmp_encap [Some cl] stale k ctx ic ms keyid = Some (True, k\<lparr>wk_keytsc := ?pn\<rparr>, inc_stat is_crypto_ccmp ic, ms1)"
    and b: "chain_bytes ms1 = take hdrlen ?B @ pn_header ?pn keyid @ rfc_encrypt ?E ?n ?p @ rfc_tag ?E 8 ?n (ccmp_ad ?B) ?p"
    by (rule ccmp_encap_sw [OF assms refl refl refl refl])
  have len: "length ?B = pkt_len ms" "hdrlen + 8 < length ?B" using assms(1,4) by (simp_all add: pkt_len_bytes)
  have "24 \<le> length ?B" using hdrspace_bounds(1) [of "ic_flags ic" "mtod ms"] assms(2) len(2) by simp
  then have "length ?n = 13" using ccmp_lengths(1) by simp
  note l = ccmp_rfc_lengths [OF assms(7) this]
  show thesis using that [OF e] b len l(1,3) by simp
qed

subsection \<open>Properties\<close>


definition ex_ciphers :: cipher_table where
  "ex_ciphers = ieee80211_crypto_register cipher_ccmp (snd (ieee80211_crypto_attach ex_com (replicate 7 None)))"

definition ex_state :: crypto_state where
  "ex_state = (fst (ieee80211_crypto_attach ex_com (replicate 7 None)), ieee80211_crypto_resetkey zero_key IEEE80211_KEYIX_NONE)"

lemma ex_state_reach: "crypto_reach null_driver ex_ciphers ex_state"
  unfolding ex_state_def by (rule reach_attach)



lemma ex_state_hdr: "24 = ieee80211_hdrspace (ic_flags (fst ex_state)) (mtod (packet_of (8 # replicate 27 0 @ bs)))"
  using ex_hdrspace(2) by (simp add: ex_state_def ieee80211_crypto_attach_def com.defs ex_com_def)



text \<open>A driver without room for hardware keys, on a device with hardware support for CCMP.\<close>

definition ex_slot :: "u16 \<Rightarrow> (u16 \<times> u16) option" where
  "ex_slot flags = (if has_flag flags IEEE80211_KEY_SWCRYPT then Some (3, IEEE80211_KEYIX_NONE) else None)"

definition full_driver :: key_driver where
  "full_driver = null_driver\<lparr>cs_key_alloc := \<lambda>ic k r. ex_slot (wk_flags k)\<rparr>"

lemma ex_ciphers_ccmp: "ex_ciphers ! 3 = Some cipher_ccmp"
  by (simp add: ex_ciphers_def ieee80211_crypto_attach_def ieee80211_crypto_register_def cipher_index_defs)


text \<open>
  C1.  From one end to the other: when the supplicant has installed the same pairwise key on two
  devices that encrypt in software, every unicast frame with a payload is sent, and however its bytes
  arrive in buffers with a contiguous 802.11 header, the receiver accepts it under its unicast key
  and gets back exactly the frame that was given to the sender; both counters move to one.
\<close>

theorem pairwise_key_end_to_end:
  assumes A: "crypto_reach drvA ciphersA sA0" "freertos_set_key drvA memA ciphersA macA pA sA0 = Some (0, True, sA)"
      "ciphersA ! IEEE80211_CIPHER_AES_CCM = Some cipher_ccmp" "\<not> has_flag (ic_caps (fst sA0)) (push_bit IEEE80211_CIPHER_AES_CCM 1)"
    and B: "crypto_reach drvB ciphersB sB0" "freertos_set_key drvB memB ciphersB macB pB sB0 = Some (0, True, sB)"
      "ciphersB ! IEEE80211_CIPHER_AES_CCM = Some cipher_ccmp" "\<not> has_flag (ic_caps (fst sB0)) (push_bit IEEE80211_CIPHER_AES_CCM 1)"
    and key: "kp_key pB = kp_key pA" "seq_pn (kp_seq pB) = 0"
    and m: "wf_packet m" "hdrlen = ieee80211_hdrspace (ic_flags (fst sA)) (mtod m)" "hdrlen \<le> front_len m" "hdrlen < pkt_len m"
      "pkt_len m + 16 < 2 ^ 16" "\<not> IEEE80211_IS_MULTICAST (i_addr1 (mtod m))"
    and cl: "length cl1 = MCLBYTES + MH_ALIGN" "length cl2 = MCLBYTES + MH_ALIGN" "length cl3 = MCLBYTES + MH_ALIGN"
      "length cl4 = MCLBYTES + MH_ALIGN"
  shows "\<exists>sA' m1. ieee80211_crypto_encap (Some cl1) (Some cl2) [Some cl3] staleA sA m = Some (Some ucast_key, sA', Some m1) \<and>
    wk_keytsc (snd sA') = 1 \<and>
    (\<forall>m2. wf_packet m2 \<and> chain_bytes m2 = chain_bytes m1 \<and> hdrlen \<le> front_len m2 \<longrightarrow>
      (\<exists>sB' m3. ieee80211_crypto_decap (Some cl4) staleB junk sB m2 hdrlen = Some (Some ucast_key, sB', Some m3) \<and>
        wf_packet m3 \<and> chain_bytes m3 = chain_bytes m \<and> wk_keyrsc (snd sB') = 1))"
proof -
  obtain icA kA icB kB where s: "sA = (icA, kA)" "sB = (icB, kB)" by fastforce
  obtain a where a: "wk_cipher kA = cipher_ccmp" "wk_private kA = ctx_ccmp a" "ccmp_keyed kA a" "swcrypt kA"
    "wk_key kA = the (kp_key pA) @ replicate 16 0" "wk_keytsc kA = 0"
    by (rule set_key_pairwise [OF crypto_reach_ok [OF A(1)] A(2-4)]) (simp add: s)
  obtain b where b: "wk_cipher kB = cipher_ccmp" "wk_private kB = ctx_ccmp b" "ccmp_keyed kB b" "swcrypt kB"
    "wk_key kB = wk_key kA" "wk_keyrsc kB = 0"
    by (rule set_key_pairwise [OF crypto_reach_ok [OF B(1)] B(2-4)]) (simp add: s a(5) key)
  have hd: "hdrlen = ieee80211_hdrspace (ic_flags icA) (mtod m)" using m(2) by (simp add: s)
  obtain m0 gap where m0: "wf_packet m0" "hdrlen = ieee80211_hdrspace (ic_flags icA) (mtod m0)" "hdrlen + 8 \<le> front_len m0"
    "length gap = 8" "chain_bytes m0 = take hdrlen (chain_bytes m) @ gap @ drop hdrlen (chain_bytes m)"
    and enc: "ieee80211_crypto_encap (Some cl1) (Some cl2) [Some cl3] staleA (icA, kA) m =
       (case ccmp_encap [Some cl3] staleA kA a icA m0 0 of
          None \<Rightarrow> None | Some (ok, k', ic', m2) \<Rightarrow> Some (if ok then Some ucast_key else None, (ic', k'), Some m2))"
    by (rule crypto_encap_ccmp [OF m(1) hd m(3,4,6) a(1,2) cl(1,2)])
  have len: "length (chain_bytes m) = pkt_len m" using m(1) by (simp add: pkt_len_bytes)
  have pl: "pkt_len m0 = pkt_len m + 8" using m0(4) len m(4) by (simp add: pkt_len_bytes [OF m0(1)] m0(5))
  have sz: "hdrlen + 8 < pkt_len m0" "pkt_len m0 < 2 ^ 16" "pkt_len m0 + 8 < 2 ^ 16" using m(4,5) pl by simp_all
  obtain ic' m1 where e: "ccmp_encap [Some cl3] staleA kA a icA m0 0 = Some (True, kA\<lparr>wk_keytsc := wk_keytsc kA + 1\<rparr>, ic', m1)"
    "take hdrlen (chain_bytes m1) = take hdrlen (chain_bytes m0)" "length (chain_bytes m1) = length (chain_bytes m0) + 8"
    by (rule ccmp_encap_shape [OF m0(1-3) sz(1,2) a(4,3) cl(3)])
  have h24: "24 \<le> hdrlen" "hdrlen + 8 \<le> 2048" using hdrspace_bounds [of "ic_flags icA" "mtod m"] hd by simp_all
  have tk: "take hdrlen (chain_bytes m1) = take hdrlen (chain_bytes m)" using e(2) m0(5) len m(4) by simp
  have strip: "stripped cipher_ccmp hdrlen (chain_bytes m0) = chain_bytes m"
    using m0(4,5) len m(4) by (simp add: stripped_def wep_lens)
  have tsc: "take_bit 48 (wk_keytsc kA + 1) = 1" "wk_keyrsc kB < take_bit 48 (wk_keytsc kA + 1)" using a(6) b(6) by simp_all
  have rcv: "\<exists>sB' m3. ieee80211_crypto_decap (Some cl4) staleB junk (icB, kB) m2 hdrlen = Some (Some ucast_key, sB', Some m3) \<and>
      wf_packet m3 \<and> chain_bytes m3 = chain_bytes m \<and> wk_keyrsc (snd sB') = 1"
    if m2: "wf_packet m2" "chain_bytes m2 = chain_bytes m1" "hdrlen \<le> front_len m2" for m2
  proof -
    have l2: "hdrlen + 16 \<le> pkt_len m2"
      using m2(2) e(3) pl sz(1) m(4) by (simp add: pkt_len_bytes [OF m2(1)] pkt_len_bytes [OF m0(1), symmetric])
    have u2: "\<not> IEEE80211_IS_MULTICAST (i_addr1 (mtod m2))"
      using open_header_hdr(2) [OF m(1) h24(1) m(3) m2(1,3)] m2(2) tk m(6) by simp
    obtain m2' where m2': "wf_packet m2'" "chain_bytes m2' = chain_bytes m2" "hdrlen + 8 \<le> front_len m2'"
      and dec: "ieee80211_crypto_decap (Some cl4) staleB junk (icB, kB) m2 hdrlen =
       (case ccmp_decap staleB kB b icB m2' hdrlen of
          None \<Rightarrow> None | Some (ok, k', ic', m2) \<Rightarrow> Some (if ok then Some ucast_key else None, (ic', k'), Some m2))"
      by (rule crypto_decap_ccmp [OF m2(1) h24(1) l2 m2(3) h24(2) u2 b(1,2) cl(4)])
    have eq: "chain_bytes m2' = chain_bytes m1" using m2'(2) m2(2) by simp
    show ?thesis
      using ccmp_roundtrip [OF m0(1-3) sz(1,3) a(4,3) cl(3) e(1) m2'(1) eq m2'(3) b(4,3,5) tsc(2), of staleB icB]
      by (auto simp: dec tsc strip a(6))
  qed
  show ?thesis using rcv a(6) by (auto simp: s enc e(1))
qed

definition ex_params :: set_key_params where
  "ex_params = \<lparr>kp_alg = WPA_ALG_CCMP, kp_addr = Some (replicate 6 2), kp_key_idx = 0, kp_set_tx = True, kp_seq = [],
     kp_key = Some (replicate 16 7)\<rparr>"

lemma ex_newkey:
  "\<exists>k ic. ieee80211_crypto_newkey null_driver (\<lambda>n. (True, 0)) ex_ciphers IEEE80211_CIPHER_AES_CCM
      (IEEE80211_KEY_XMIT OR IEEE80211_KEY_RECV OR 0) ucast_key (snd ex_state) (fst ex_state) = (True, k, ic) \<and>
    wk_cipher k = cipher_ccmp \<and> (\<exists>c. wk_private k = ctx_ccmp c) \<and> wk_keyix k = 0 \<and> ic_flags ic = 0"
proof -
  let ?f = "newkey_flags (fst ex_state) IEEE80211_CIPHER_AES_CCM (IEEE80211_KEY_XMIT OR IEEE80211_KEY_RECV OR 0)"
  have c: "IEEE80211_CIPHER_AES_CCM < IEEE80211_CIPHER_MAX" "ex_ciphers ! IEEE80211_CIPHER_AES_CCM = Some cipher_ccmp"
    using ex_ciphers_ccmp by (simp_all add: cipher_index_defs)
  have i: "wk_cipher (snd ex_state) = cipher_none" "wk_keyix (snd ex_state) = IEEE80211_KEYIX_NONE" "ic_flags (fst ex_state) = 0"
    "ic_caps (fst ex_state) = 0"
    by (simp_all add: ex_state_def ieee80211_crypto_resetkey_def ieee80211_crypto_attach_def com.defs ex_com_def)
  have g: "\<not> has_flag ?f IEEE80211_KEY_GROUP"
    by (simp add: newkey_flags_def i(4) has_flag_def set_flag_def key_flag_defs cipher_index_defs IEEE80211_C_TKIPMIC_def)
  have a: "(if True then ic_attach ((\<lambda>n. (True, 0)) 0) cipher_ccmp (fst ex_state) else (Some (wk_private (snd ex_state)), fst ex_state))
      = (Some (ctx_ccmp \<lparr>cc_aes = replicate 60 0\<rparr>), fst ex_state)"
    by (simp add: ic_attach_def ccmp_attach_def)
  show ?thesis
    unfolding newkey_good [OF c refl]
    using newkey_bind_eq [of True "\<lambda>n. (True, 0)" 0 cipher_ccmp "fst ex_state" "snd ex_state", OF a refl, where flags = ?f
        and drv = null_driver and r = ucast_key] i g
    by (simp add: null_driver_def null_key_alloc_def)
qed

lemma ex_set_key:
  obtains s where "freertos_set_key null_driver (\<lambda>n. (True, 0)) ex_ciphers (replicate 6 2) ex_params ex_state = Some (0, True, s)"
    "ic_flags (fst s) = 0"
proof -
  obtain k ic c where n: "ieee80211_crypto_newkey null_driver (\<lambda>n. (True, 0)) ex_ciphers IEEE80211_CIPHER_AES_CCM
      (IEEE80211_KEY_XMIT OR IEEE80211_KEY_RECV OR 0) ucast_key (snd ex_state) (fst ex_state) = (True, k, ic)"
    "wk_cipher k = cipher_ccmp" "wk_private k = ctx_ccmp c" "wk_keyix k = 0" "ic_flags ic = 0"
    using ex_newkey by blast
  have e: "ex_state = (fst ex_state, snd ex_state)" by simp
  have g: "get_key ex_state ucast_key = snd ex_state" by (subst e) (simp only: get_key.simps)
  let ?k = "k\<lparr>wk_keylen := 16, wk_keyrsc := seq_pn [], wk_keytsc := 0, wk_key := replicate 16 7 @ replicate 16 0\<rparr>"
  have "\<exists>k'. ieee80211_crypto_setkey null_driver (replicate 6 2) ?k ic = Some (True, k', ic)"
    using n by (auto simp: ieee80211_crypto_setkey_def ic_setkey_def ccmp_setkey_def aes_setenckey128_def aesbear_setkey_def
        null_driver_def null_key_set_def IEEE80211_KEYIX_NONE_def)
  then obtain k' where k': "ieee80211_crypto_setkey null_driver (replicate 6 2) ?k ic = Some (True, k', ic)" by blast
  show thesis
    using that [of "(ic, k')"] n(1,5) k'
    by (simp add: freertos_set_key_def ex_params_def Let_def g has_flag_def IEEE80211_WEP_NKID_def)
qed

theorem pairwise_key_end_to_end_witness:
  "\<exists>s s' m1. freertos_set_key null_driver (\<lambda>n. (True, 0)) ex_ciphers (replicate 6 2) ex_params ex_state = Some (0, True, s) \<and>
    ieee80211_crypto_encap (Some (replicate 4352 0)) (Some (replicate 4352 0)) [Some (replicate 4352 0)] [] s
      (packet_of (8 # replicate 27 0 @ [1, 2, 3])) = Some (Some ucast_key, s', Some m1) \<and> wk_keytsc (snd s') = 1"
proof -
  let ?m = "packet_of (8 # replicate 27 0 @ [1, 2, 3])" and ?cl = "replicate 4352 (0 :: u8)"
  obtain s where s: "freertos_set_key null_driver (\<lambda>n. (True, 0)) ex_ciphers (replicate 6 2) ex_params ex_state = Some (0, True, s)"
    "ic_flags (fst s) = 0" by (rule ex_set_key)
  have t: "ex_ciphers ! IEEE80211_CIPHER_AES_CCM = Some cipher_ccmp" using ex_ciphers_ccmp by (simp add: cipher_index_defs)
  have w: "\<not> has_flag (ic_caps (fst ex_state)) (push_bit IEEE80211_CIPHER_AES_CCM 1)"
    by (simp add: ex_state_def ieee80211_crypto_attach_def com.defs ex_com_def has_flag_def)
  have h: "24 = ieee80211_hdrspace (ic_flags (fst s)) (mtod ?m)" using ex_hdrspace(2) [of "[1, 2, 3]"] s(2) by (simp add: ex_com_def)
  have u: "\<not> IEEE80211_IS_MULTICAST (i_addr1 (mtod ?m))"
    by (simp add: IEEE80211_IS_MULTICAST_def i_addr1_def mtod_def packet_of_def nth_append has_flag_def)
  have c: "length ?cl = MCLBYTES + MH_ALIGN" by (simp add: MCLBYTES_def MH_ALIGN_def)
  have q: "seq_pn (kp_seq ex_params) = 0" by (simp add: ex_params_def seq_pn_def)
  have f: "wf_packet ?m" "24 \<le> front_len ?m" "24 < pkt_len ?m" "pkt_len ?m + 16 < 2 ^ 16" by (simp_all add: pkt_len_bytes)
  show ?thesis
    using pairwise_key_end_to_end [OF ex_state_reach s(1) t w ex_state_reach s(1) t w refl q f(1) h f(2-4) u c c c c, of "[]" "[]" 0] s(1)
    by blast
qed

end
