(* ===== verification/Elements.thy ===== *)
theory Elements
  imports Com Rates "HOL-Library.Monad_Syntax"
begin

text \<open>
  The security and WME information elements: their construction in
  \<open>net80211/ieee80211_output.c\<close>, their evaluation in \<open>ieee80211_input.c\<close> and the WME
  parameters of \<open>ieee80211_proto.c\<close>.  A pointer into a frame is the list of the bytes from
  there to the end of the buffer; a read behind the end is a crash, \<open>None\<close>.  The routines that
  write elements return the bytes they write.

  The parameter \<open>ub\<close> of the parsers is the value of the C expression \<open>1 << 32\<close>, which the
  language leaves undefined and the code evaluates for an unknown cipher selector.
\<close>

subsection \<open>Reading memory\<close>

definition rd :: "bytes \<Rightarrow> nat \<Rightarrow> u8 option" where
  "rd p i = (if i < length p then Some (p ! i) else None)"

definition LE_READ_2 :: "bytes \<Rightarrow> u16 option" where
  "LE_READ_2 p = do { a \<leftarrow> rd p 0; b \<leftarrow> rd p 1; Some (ucast a OR push_bit 8 (ucast b)) }"

definition LE_READ_4 :: "bytes \<Rightarrow> u32 option" where
  "LE_READ_4 p = do { a \<leftarrow> rd p 0; b \<leftarrow> rd p 1; c \<leftarrow> rd p 2; d \<leftarrow> rd p 3;
     Some (ucast a OR push_bit 8 (ucast b) OR push_bit 16 (ucast c) OR push_bit 24 (ucast d)) }"

text \<open>The macro \<open>ADDSHORT\<close>.\<close>

definition ADDSHORT :: "u16 \<Rightarrow> bytes" where
  "ADDSHORT v = [ucast v, ucast (drop_bit 8 v)]"

lemma rd_simps [simp]: "i < length p \<Longrightarrow> rd p i = Some (p ! i)" "length p \<le> i \<Longrightarrow> rd p i = None"
  by (simp_all add: rd_def)

lemma LE_READ_some: "2 \<le> length p \<Longrightarrow> \<exists>v. LE_READ_2 p = Some v" "4 \<le> length p \<Longrightarrow> \<exists>v. LE_READ_4 p = Some v"
  by (auto simp: LE_READ_2_def LE_READ_4_def rd_def)

lemma LE_READ_ADDSHORT [simp]:
  "LE_READ_2 (ADDSHORT v @ p) = Some v" "LE_READ_2 (ucast v # ucast (drop_bit 8 v) # p) = Some v"
  by (auto simp: LE_READ_2_def ADDSHORT_def intro!: bit_word_eqI) (auto simp: bit_simps)

lemma length_ADDSHORT [simp]: "length (ADDSHORT v) = 2"
  by (simp add: ADDSHORT_def)

subsection \<open>Constants\<close>

definition IEEE80211_ELEMID_SSID :: u8 where "IEEE80211_ELEMID_SSID = 0"
definition IEEE80211_ELEMID_ERP :: u8 where "IEEE80211_ELEMID_ERP = 42"
definition IEEE80211_ELEMID_RSN :: u8 where "IEEE80211_ELEMID_RSN = 48"
definition IEEE80211_ELEMID_VENDOR :: u8 where "IEEE80211_ELEMID_VENDOR = 221"
definition WPA_OUI :: u32 where "WPA_OUI = 0xf25000"
definition WPA_OUI_TYPE :: u8 where "WPA_OUI_TYPE = 1"
definition WPA_VERSION :: u16 where "WPA_VERSION = 1"
definition RSN_OUI :: u32 where "RSN_OUI = 0xac0f00"
definition RSN_VERSION :: u16 where "RSN_VERSION = 1"
definition RSN_CAP_PREAUTH :: u16 where "RSN_CAP_PREAUTH = 1"
definition WME_OUI :: u32 where "WME_OUI = 0xf25000"
definition WME_OUI_TYPE :: u8 where "WME_OUI_TYPE = 2"
definition WME_INFO_OUI_SUBTYPE :: u8 where "WME_INFO_OUI_SUBTYPE = 0"
definition WME_PARAM_OUI_SUBTYPE :: u8 where "WME_PARAM_OUI_SUBTYPE = 1"
definition WME_VERSION :: u8 where "WME_VERSION = 1"
definition CSE_NULL :: u8 where "CSE_NULL = 0"
definition CSE_WEP40 :: u8 where "CSE_WEP40 = 1"
definition CSE_TKIP :: u8 where "CSE_TKIP = 2"
definition CSE_WRAP :: u8 where "CSE_WRAP = 3"
definition CSE_CCMP :: u8 where "CSE_CCMP = 4"
definition CSE_WEP104 :: u8 where "CSE_WEP104 = 5"
definition ASE_NONE :: u8 where "ASE_NONE = 0"
definition ASE_8021X_UNSPEC :: u8 where "ASE_8021X_UNSPEC = 1"
definition ASE_8021X_PSK :: u8 where "ASE_8021X_PSK = 2"
definition IEEE80211_REASON_IE_INVALID :: u8 where "IEEE80211_REASON_IE_INVALID = 13"
definition IEEE80211_CIPHER_AES_OCB :: nat where "IEEE80211_CIPHER_AES_OCB = 2"
definition IEEE80211_CIPHER_CKIP :: nat where "IEEE80211_CIPHER_CKIP = 5"
definition IEEE80211_F_WPA1 :: u32 where "IEEE80211_F_WPA1 = 0x00800000"
definition IEEE80211_F_WPA2 :: u32 where "IEEE80211_F_WPA2 = 0x01000000"
definition IEEE80211_F_USEPROT :: u32 where "IEEE80211_F_USEPROT = 0x00100000"
definition IEEE80211_F_USEBARKER :: u32 where "IEEE80211_F_USEBARKER = 0x00200000"

lemmas oui_defs = WPA_OUI_def WPA_OUI_TYPE_def RSN_OUI_def WME_OUI_def WME_OUI_TYPE_def
  WME_INFO_OUI_SUBTYPE_def WME_PARAM_OUI_SUBTYPE_def
lemmas suite_defs = CSE_NULL_def CSE_WEP40_def CSE_TKIP_def CSE_WRAP_def CSE_CCMP_def
  CSE_WEP104_def ASE_NONE_def ASE_8021X_UNSPEC_def ASE_8021X_PSK_def
lemmas elemid_defs = IEEE80211_ELEMID_SSID_def IEEE80211_ELEMID_ERP_def IEEE80211_ELEMID_RSN_def
  IEEE80211_ELEMID_VENDOR_def IEEE80211_ELEMID_RATES_def IEEE80211_ELEMID_XRATES_def

record ieee80211_rsnparms =
  rsn_mcastcipher :: u8
  rsn_mcastkeylen :: u8
  rsn_ucastcipherset :: u8
  rsn_ucastcipher :: u8
  rsn_ucastkeylen :: u8
  rsn_keymgmtset :: u8
  rsn_keymgmt :: u8
  rsn_caps :: u16

text \<open>The parameters \<open>ieee80211_node_lateattach\<close> gives the BSS node.\<close>

definition IEEE80211_C_AES :: u32 where "IEEE80211_C_AES = 0x00000004"
definition IEEE80211_C_CKIP :: u32 where "IEEE80211_C_CKIP = 0x00000020"

definition lateattach_rsn :: "u32 \<Rightarrow> ieee80211_rsnparms \<Rightarrow> ieee80211_rsnparms" where
  "lateattach_rsn caps rsn =
     (let s = rsn_ucastcipherset rsn OR push_bit IEEE80211_CIPHER_WEP 1
            OR push_bit IEEE80211_CIPHER_TKIP 1 OR push_bit IEEE80211_CIPHER_AES_CCM 1;
          s = (if has_flag caps IEEE80211_C_AES then s OR push_bit IEEE80211_CIPHER_AES_OCB 1 else s);
          s = (if has_flag caps IEEE80211_C_CKIP then s OR push_bit IEEE80211_CIPHER_CKIP 1 else s)
      in rsn\<lparr>rsn_ucastcipherset := s, rsn_ucastcipher := of_nat IEEE80211_CIPHER_WEP, rsn_ucastkeylen := 13,
             rsn_mcastcipher := of_nat IEEE80211_CIPHER_TKIP, rsn_mcastkeylen := 16,
             rsn_keymgmtset := ASE_8021X_UNSPEC OR ASE_8021X_PSK, rsn_keymgmt := ASE_8021X_PSK\<rparr>)"

subsection \<open>Parsing the WPA and RSN elements\<close>

definition WPA_SEL :: "u8 \<Rightarrow> u32" where "WPA_SEL x = push_bit 24 (ucast x) OR WPA_OUI"
definition RSN_SEL :: "u8 \<Rightarrow> u32" where "RSN_SEL x = push_bit 24 (ucast x) OR RSN_OUI"

text \<open>A cipher number and the key length, which the code stores through a pointer.\<close>

definition wpa_cipher :: "bytes \<Rightarrow> u8 \<Rightarrow> (nat \<times> u8) option" where
  "wpa_cipher sel keylen = do {
     w \<leftarrow> LE_READ_4 sel;
     Some (if w = WPA_SEL CSE_NULL then (IEEE80211_CIPHER_NONE, keylen)
       else if w = WPA_SEL CSE_WEP40 then (IEEE80211_CIPHER_WEP, 40 div 8)
       else if w = WPA_SEL CSE_WEP104 then (IEEE80211_CIPHER_WEP, 104 div 8)
       else if w = WPA_SEL CSE_TKIP then (IEEE80211_CIPHER_TKIP, keylen)
       else if w = WPA_SEL CSE_CCMP then (IEEE80211_CIPHER_AES_CCM, keylen)
       else (32, keylen)) }"

definition wpa_keymgmt :: "bytes \<Rightarrow> u8 option" where
  "wpa_keymgmt sel = do {
     w \<leftarrow> LE_READ_4 sel;
     Some (if w = WPA_SEL ASE_8021X_UNSPEC then ASE_8021X_UNSPEC
       else if w = WPA_SEL ASE_8021X_PSK then ASE_8021X_PSK
       else if w = WPA_SEL ASE_NONE then ASE_NONE
       else 0) }"

definition rsn_cipher :: "bytes \<Rightarrow> u8 \<Rightarrow> (nat \<times> u8) option" where
  "rsn_cipher sel keylen = do {
     w \<leftarrow> LE_READ_4 sel;
     Some (if w = RSN_SEL CSE_NULL then (IEEE80211_CIPHER_NONE, keylen)
       else if w = RSN_SEL CSE_WEP40 then (IEEE80211_CIPHER_WEP, 40 div 8)
       else if w = RSN_SEL CSE_WEP104 then (IEEE80211_CIPHER_WEP, 104 div 8)
       else if w = RSN_SEL CSE_TKIP then (IEEE80211_CIPHER_TKIP, keylen)
       else if w = RSN_SEL CSE_CCMP then (IEEE80211_CIPHER_AES_CCM, keylen)
       else if w = RSN_SEL CSE_WRAP then (IEEE80211_CIPHER_AES_OCB, keylen)
       else (32, keylen)) }"

definition rsn_keymgmt_of :: "bytes \<Rightarrow> u8 option" where
  "rsn_keymgmt_of sel = do {
     w \<leftarrow> LE_READ_4 sel;
     Some (if w = RSN_SEL ASE_8021X_UNSPEC then ASE_8021X_UNSPEC
       else if w = RSN_SEL ASE_8021X_PSK then ASE_8021X_PSK
       else if w = RSN_SEL ASE_NONE then ASE_NONE
       else 0) }"

definition shl1 :: "u32 \<Rightarrow> nat \<Rightarrow> u32" where
  "shl1 ub c = (if c < 32 then push_bit c 1 else ub)"

text \<open>The loops over the two selector lists: pointer, remaining length, key length, set.\<close>

primrec cipher_loop :: "(bytes \<Rightarrow> u8 \<Rightarrow> (nat \<times> u8) option) \<Rightarrow> u32 \<Rightarrow>
    nat \<Rightarrow> bytes \<Rightarrow> u8 \<Rightarrow> u8 \<Rightarrow> u32 \<Rightarrow> (bytes \<times> u8 \<times> u8 \<times> u32) option" where
  "cipher_loop cipher ub 0 frm len keylen w = Some (frm, len, keylen, w)"
| "cipher_loop cipher ub (Suc n) frm len keylen w = do {
     (c, keylen) \<leftarrow> cipher frm keylen;
     cipher_loop cipher ub n (drop 4 frm) (len - 4) keylen (w OR shl1 ub c) }"

primrec keymgmt_loop :: "(bytes \<Rightarrow> u8 option) \<Rightarrow>
    nat \<Rightarrow> bytes \<Rightarrow> u8 \<Rightarrow> u32 \<Rightarrow> (bytes \<times> u8 \<times> u32) option" where
  "keymgmt_loop keymgmt 0 frm len w = Some (frm, len, w)"
| "keymgmt_loop keymgmt (Suc n) frm len w = do {
     a \<leftarrow> keymgmt frm;
     keymgmt_loop keymgmt n (drop 4 frm) (len - 4) (w OR ucast a) }"

text \<open>
  From the multicast cipher on the two parsers are the same text up to the selector functions.
  The result is the reason code and the parameters, which are changed even on an error.
\<close>

definition parse_keymgmt ::
  "(bytes \<Rightarrow> u8 option) \<Rightarrow> bytes \<Rightarrow> u8 \<Rightarrow> ieee80211_rsnparms \<Rightarrow> (u8 \<times> ieee80211_rsnparms) option" where
  "parse_keymgmt keymgmt frm len rsn = do {
     n \<leftarrow> LE_READ_2 frm;
     let frm = drop 2 frm; len = len - 2 in
     if unat len < unat n * 4 then Some (IEEE80211_REASON_IE_INVALID, rsn)
     else do {
       (frm, len, w) \<leftarrow> keymgmt_loop keymgmt (unat n) frm len 0;
       let w = w AND ucast (rsn_keymgmtset rsn) in
       if w = 0 then Some (IEEE80211_REASON_IE_INVALID, rsn)
       else
         let rsn = rsn\<lparr>rsn_keymgmt := if has_flag w (ucast ASE_8021X_UNSPEC) then ASE_8021X_UNSPEC else ASE_8021X_PSK\<rparr> in
         if len > 2 then do { caps \<leftarrow> LE_READ_2 frm; Some (0, rsn\<lparr>rsn_caps := caps\<rparr>) }
         else Some (0, rsn) } }"

definition parse_suites :: "(bytes \<Rightarrow> u8 \<Rightarrow> (nat \<times> u8) option) \<Rightarrow> (bytes \<Rightarrow> u8 option) \<Rightarrow> u32 \<Rightarrow>
    bytes \<Rightarrow> u8 \<Rightarrow> ieee80211_rsnparms \<Rightarrow> (u8 \<times> ieee80211_rsnparms) option" where
  "parse_suites cipher keymgmt ub frm len rsn = do {
     (c, kl) \<leftarrow> cipher frm (rsn_mcastkeylen rsn);
     let rsn = rsn\<lparr>rsn_mcastkeylen := kl\<rparr> in
     if c \<noteq> unat (rsn_mcastcipher rsn) then Some (IEEE80211_REASON_IE_INVALID, rsn)
     else do {
       n \<leftarrow> LE_READ_2 (drop 4 frm);
       let frm = drop 2 (drop 4 frm); len = len - 4 - 2 in
       if unat len < unat n * 4 + 2 then Some (IEEE80211_REASON_IE_INVALID, rsn)
       else do {
         (frm, len, kl, w) \<leftarrow> cipher_loop cipher ub (unat n) frm len (rsn_ucastkeylen rsn) 0;
         let rsn = rsn\<lparr>rsn_ucastkeylen := kl\<rparr>; w = w AND ucast (rsn_ucastcipherset rsn) in
         if w = 0 then Some (IEEE80211_REASON_IE_INVALID, rsn)
         else parse_keymgmt keymgmt frm len
           (rsn\<lparr>rsn_ucastcipher :=
              if has_flag w (push_bit IEEE80211_CIPHER_TKIP 1) then of_nat IEEE80211_CIPHER_TKIP
              else of_nat IEEE80211_CIPHER_AES_CCM\<rparr>) } } }"

definition ieee80211_parse_wpa :: "u32 \<Rightarrow> 'a com_scheme \<Rightarrow> bytes \<Rightarrow> ieee80211_rsnparms \<Rightarrow>
    (u8 \<times> ieee80211_rsnparms) option" where
  "ieee80211_parse_wpa ub ic frm rsn = do {
     len \<leftarrow> rd frm 1;
     if \<not> has_flag (ic_flags ic) IEEE80211_F_WPA1 then Some (IEEE80211_REASON_IE_INVALID, rsn)
     else if len < 14 then Some (IEEE80211_REASON_IE_INVALID, rsn)
     else do {
       w \<leftarrow> LE_READ_2 (drop 4 (drop 2 frm));
       if w \<noteq> WPA_VERSION then Some (IEEE80211_REASON_IE_INVALID, rsn)
       else parse_suites wpa_cipher wpa_keymgmt ub (drop 2 (drop 4 (drop 2 frm))) (len - 4 - 2) rsn } }"

definition ieee80211_parse_rsn :: "u32 \<Rightarrow> 'a com_scheme \<Rightarrow> bytes \<Rightarrow> ieee80211_rsnparms \<Rightarrow>
    (u8 \<times> ieee80211_rsnparms) option" where
  "ieee80211_parse_rsn ub ic frm rsn = do {
     len \<leftarrow> rd frm 1;
     if \<not> has_flag (ic_flags ic) IEEE80211_F_WPA2 then Some (IEEE80211_REASON_IE_INVALID, rsn)
     else if len < 10 then Some (IEEE80211_REASON_IE_INVALID, rsn)
     else do {
       w \<leftarrow> LE_READ_2 (drop 2 frm);
       if w \<noteq> RSN_VERSION then Some (IEEE80211_REASON_IE_INVALID, rsn)
       else parse_suites rsn_cipher rsn_keymgmt_of ub (drop 2 (drop 2 frm)) (len - 2) rsn } }"

subsection \<open>Building the WPA and RSN elements\<close>

definition WPA_OUI_BYTES :: bytes where "WPA_OUI_BYTES = [0x00, 0x50, 0xf2]"
definition RSN_OUI_BYTES :: bytes where "RSN_OUI_BYTES = [0x00, 0x0f, 0xac]"

definition wpa_cipher_suite :: "bytes list" where
  "wpa_cipher_suite = [WPA_OUI_BYTES @ [CSE_WEP40], WPA_OUI_BYTES @ [CSE_TKIP], [0, 0, 0, 0],
     WPA_OUI_BYTES @ [CSE_CCMP], [0, 0, 0, 0], WPA_OUI_BYTES @ [CSE_NULL]]"

definition rsn_cipher_suite :: "bytes list" where
  "rsn_cipher_suite = [RSN_OUI_BYTES @ [CSE_WEP40], RSN_OUI_BYTES @ [CSE_TKIP], RSN_OUI_BYTES @ [CSE_WRAP],
     RSN_OUI_BYTES @ [CSE_CCMP], [0, 0, 0, 0], RSN_OUI_BYTES @ [CSE_NULL]]"

text \<open>A selector count, bumped for every selector that is added, and the selectors.\<close>

definition selector_list :: "(bool \<times> bytes) list \<Rightarrow> bytes" where
  "selector_list sels = (let s = map snd (filter fst sels) in [of_nat (length s), 0] @ concat s)"

text \<open>
  The multicast cipher and the two selector lists, the same text in both routines;
  \<open>None\<close> when the multicast cipher is no index of the table.
\<close>

definition setup_suites :: "bytes \<Rightarrow> bytes list \<Rightarrow> ieee80211_rsnparms \<Rightarrow> bytes option" where
  "setup_suites oui cipher_suite rsn = do {
     mc \<leftarrow> (if unat (rsn_mcastcipher rsn) = IEEE80211_CIPHER_WEP \<and> rsn_mcastkeylen rsn \<ge> 13
           then Some (oui @ [CSE_WEP104])
           else if unat (rsn_mcastcipher rsn) < length cipher_suite
           then Some (cipher_suite ! unat (rsn_mcastcipher rsn)) else None);
     Some (mc
       @ selector_list
           [(has_flag (rsn_ucastcipherset rsn) (push_bit IEEE80211_CIPHER_AES_CCM 1), cipher_suite ! IEEE80211_CIPHER_AES_CCM),
            (has_flag (rsn_ucastcipherset rsn) (push_bit IEEE80211_CIPHER_TKIP 1), cipher_suite ! IEEE80211_CIPHER_TKIP)]
       @ selector_list
           [(has_flag (rsn_keymgmtset rsn) ASE_8021X_UNSPEC, oui @ [ASE_8021X_UNSPEC]),
            (has_flag (rsn_keymgmtset rsn) ASE_8021X_PSK, oui @ [ASE_8021X_PSK])]) }"

definition ieee80211_setup_wpa_ie :: "ieee80211_rsnparms \<Rightarrow> bytes option" where
  "ieee80211_setup_wpa_ie rsn = do {
     suites \<leftarrow> setup_suites WPA_OUI_BYTES wpa_cipher_suite rsn;
     let body = WPA_OUI_BYTES @ [WPA_OUI_TYPE] @ ADDSHORT WPA_VERSION @ suites
           @ (if rsn_caps rsn \<noteq> 0 \<and> rsn_caps rsn \<noteq> RSN_CAP_PREAUTH then ADDSHORT (rsn_caps rsn) else []) in
     Some (IEEE80211_ELEMID_VENDOR # of_nat (length body) # body) }"

definition ieee80211_setup_rsn_ie :: "ieee80211_rsnparms \<Rightarrow> bytes option" where
  "ieee80211_setup_rsn_ie rsn = do {
     suites \<leftarrow> setup_suites RSN_OUI_BYTES rsn_cipher_suite rsn;
     let body = ADDSHORT RSN_VERSION @ suites @ ADDSHORT (rsn_caps rsn) in
     Some (IEEE80211_ELEMID_RSN # of_nat (length body) # body) }"

definition ieee80211_add_wpa :: "'a com_scheme \<Rightarrow> ieee80211_rsnparms \<Rightarrow> bytes option" where
  "ieee80211_add_wpa ic rsn = do {
     r \<leftarrow> (if has_flag (ic_flags ic) IEEE80211_F_WPA2 then ieee80211_setup_rsn_ie rsn else Some []);
     w \<leftarrow> (if has_flag (ic_flags ic) IEEE80211_F_WPA1 then ieee80211_setup_wpa_ie rsn else Some []);
     Some (r @ w) }"

definition ieee80211_add_ssid :: "bytes \<Rightarrow> nat \<Rightarrow> bytes" where
  "ieee80211_add_ssid ssid len = IEEE80211_ELEMID_SSID # of_nat len # take len ssid"

definition IEEE80211_ERP_NON_ERP_PRESENT :: u8 where "IEEE80211_ERP_NON_ERP_PRESENT = 0x01"
definition IEEE80211_ERP_USE_PROTECTION :: u8 where "IEEE80211_ERP_USE_PROTECTION = 0x02"
definition IEEE80211_ERP_LONG_PREAMBLE :: u8 where "IEEE80211_ERP_LONG_PREAMBLE = 0x04"

definition ieee80211_add_erp :: "nat \<Rightarrow> 'a com_scheme \<Rightarrow> bytes" where
  "ieee80211_add_erp nonerpsta ic =
     (let erp = 0;
          erp = (if nonerpsta \<noteq> 0 then erp OR IEEE80211_ERP_NON_ERP_PRESENT else erp);
          erp = (if has_flag (ic_flags ic) IEEE80211_F_USEPROT then erp OR IEEE80211_ERP_USE_PROTECTION else erp);
          erp = (if has_flag (ic_flags ic) IEEE80211_F_USEBARKER then erp OR IEEE80211_ERP_LONG_PREAMBLE else erp)
      in [IEEE80211_ELEMID_ERP, 1, erp])"

text \<open>\<open>ieee80211_saveie\<close>: the buffer of the node, a new one unless its length fits; \<open>mem\<close> is the outcome of the allocation.\<close>

definition ieee80211_saveie :: "bool \<Rightarrow> bytes option \<Rightarrow> bytes \<Rightarrow> bytes option" where
  "ieee80211_saveie mem iep ie =
     (let ielen = unat (ie ! 1) + 2;
          buf = (case iep of
             None \<Rightarrow> (if mem then Some (replicate ielen 0) else None)
           | Some old \<Rightarrow> if old ! 1 \<noteq> ie ! 1 then (if mem then Some (replicate ielen 0) else None) else Some old)
      in map_option (put_at 0 (take ielen ie)) buf)"

subsection \<open>The selector lists of both elements\<close>

lemma has_flag_push_bit: "has_flag (x :: 'a::len word) (push_bit n 1) \<longleftrightarrow> bit x n"
  by (simp add: has_flag_def push_bit_of_1 and_exp_eq_0_iff_not_bit)

lemma and_ucast_zero:
  "(push_bit a 1 OR push_bit b 1 :: u32) AND ucast (s :: u8) = 0 \<longleftrightarrow> \<not> (bit s a \<or> bit s b)"
  "(push_bit a 1 :: u32) AND ucast (s :: u8) = 0 \<longleftrightarrow> \<not> bit s a"
  by (auto simp: push_bit_of_1 bit.conj_disj_distrib2 or_eq_0_iff and.commute [of "2 ^ _"]
      and_exp_eq_0_iff_not_bit bit_simps dest: bit_imp_le_length)

lemma unat_of_nat_small: "x < 2 ^ LENGTH('a) \<Longrightarrow> unat (of_nat x :: 'a::len word) = x"
  by (simp add: unat_of_nat take_bit_nat_eq_self)

lemma unat_sub_of_nat:
  assumes "4 * n \<le> unat (len :: u8)"
  shows "unat (len - of_nat (4 * n)) = unat len - 4 * n"
proof -
  have "unat len < 256" using unsigned_less [of len] by simp
  then have "unat (of_nat (4 * n) :: u8) = 4 * n"
    using assms by (intro unat_of_nat_small) simp
  then show ?thesis using assms by (subst unat_sub) (simp_all add: word_le_nat_alt)
qed

text \<open>
  What the two kinds of selectors promise each other: the functions that read a selector give
  back the cipher or algorithm whose selector the table holds, and read no more than its bytes.
\<close>

locale selectors =
  fixes cipher :: "bytes \<Rightarrow> u8 \<Rightarrow> (nat \<times> u8) option" and keymgmt :: "bytes \<Rightarrow> u8 option"
    and oui :: bytes and suite :: "bytes list"
  assumes cipher_suite: "cipher (suite ! 3 @ p) kl = Some (3, kl)" "cipher (suite ! 1 @ p) kl = Some (1, kl)"
    and cipher_wep: "cipher (suite ! 0 @ p) kl = Some (0, 5)" "cipher (oui @ CSE_WEP104 # p) kl = Some (0, 13)"
    and keymgmt_suite: "keymgmt (oui @ ASE_8021X_UNSPEC # p) = Some 1" "keymgmt (oui @ ASE_8021X_PSK # p) = Some 2"
    and suite_length: "length suite = 6" "length oui = 3" "i < 6 \<Longrightarrow> length (suite ! i) = 4"
    and cipher_total: "4 \<le> length p \<Longrightarrow> cipher p kl \<noteq> None"
    and keymgmt_total: "4 \<le> length p \<Longrightarrow> keymgmt p \<noteq> None"
begin

text \<open>Within the length of the element the parser reads no byte behind it.\<close>

lemma cipher_loop_safe:
  assumes "4 * n \<le> unat len" "unat len \<le> length frm"
  shows "\<exists>kl' w'. cipher_loop cipher ub n frm len kl w = Some (drop (4 * n) frm, len - of_nat (4 * n), kl', w')"
  using assms
proof (induction n arbitrary: frm len kl w)
  case (Suc n)
  have 4: "unat (len - 4) = unat len - 4"
    using Suc.prems(1) by (simp add: unat_sub word_le_nat_alt)
  obtain c kl' where c: "cipher frm kl = Some (c, kl')"
    using cipher_total [of frm kl] Suc.prems by fastforce
  have "4 * n \<le> unat (len - 4)" "unat (len - 4) \<le> length (drop 4 frm)"
    using Suc.prems 4 by auto
  from Suc.IH [OF this] obtain k2 w2 where
    "cipher_loop cipher ub n (drop 4 frm) (len - 4) kl' (w OR shl1 ub c)
       = Some (drop (4 * n) (drop 4 frm), len - 4 - of_nat (4 * n), k2, w2)" by blast
  then show ?case using c by (simp add: algebra_simps)
qed simp

lemma keymgmt_loop_safe:
  assumes "4 * n \<le> unat len" "unat len \<le> length frm"
  shows "\<exists>w'. keymgmt_loop keymgmt n frm len w = Some (drop (4 * n) frm, len - of_nat (4 * n), w')"
  using assms
proof (induction n arbitrary: frm len w)
  case (Suc n)
  have 4: "unat (len - 4) = unat len - 4"
    using Suc.prems(1) by (simp add: unat_sub word_le_nat_alt)
  obtain a where a: "keymgmt frm = Some a"
    using keymgmt_total [of frm] Suc.prems by fastforce
  have "4 * n \<le> unat (len - 4)" "unat (len - 4) \<le> length (drop 4 frm)"
    using Suc.prems 4 by auto
  from Suc.IH [OF this] a show ?case by (fastforce simp: algebra_simps)
qed simp

lemma parse_keymgmt_safe:
  assumes "2 \<le> unat len" "unat len \<le> length frm"
  shows "parse_keymgmt keymgmt frm len rsn \<noteq> None"
proof -
  obtain n where n: "LE_READ_2 frm = Some n"
    using LE_READ_some(1) [of frm] assms by auto
  have len: "unat (len - 2) = unat len - 2"
    using assms by (simp add: unat_sub word_le_nat_alt)
  show ?thesis
  proof (cases "unat (len - 2) < unat n * 4")
    case True
    then show ?thesis by (simp add: parse_keymgmt_def n Let_def)
  next
    case False
    then have le: "4 * unat n \<le> unat (len - 2)" by simp
    then obtain w where w: "keymgmt_loop keymgmt (unat n) (drop 2 frm) (len - 2) 0
        = Some (drop (4 * unat n) (drop 2 frm), len - 2 - of_nat (4 * unat n), w)"
      using keymgmt_loop_safe [of "unat n" "len - 2" "drop 2 frm" 0] assms len by force
    have "2 < len - 2 - of_nat (4 * unat n) \<Longrightarrow> 2 \<le> length (drop (4 * unat n) (drop 2 frm))"
      using assms len unat_sub_of_nat [OF le] by (simp add: word_less_nat_alt)
    then show ?thesis
      using False LE_READ_some(1) [of "drop (4 * unat n) (drop 2 frm)"]
      by (auto simp: parse_keymgmt_def n w Let_def)
  qed
qed

lemma parse_suites_safe:
  assumes "8 \<le> unat len" "unat len \<le> length frm"
  shows "parse_suites cipher keymgmt ub frm len rsn \<noteq> None"
proof -
  obtain c kl where c: "cipher frm (rsn_mcastkeylen rsn) = Some (c, kl)"
    using cipher_total [of frm "rsn_mcastkeylen rsn"] assms by fastforce
  obtain n where n: "LE_READ_2 (drop 4 frm) = Some n"
    using LE_READ_some(1) [of "drop 4 frm"] assms by (auto simp: le_diff_conv2)
  have len: "unat (len - 4 - 2) = unat len - 6"
    using assms by (simp add: unat_sub word_le_nat_alt)
  show ?thesis
  proof (cases "unat (len - 4 - 2) < unat n * 4 + 2")
    case True
    then show ?thesis by (simp add: parse_suites_def c n Let_def)
  next
    case False
    then have le: "4 * unat n \<le> unat (len - 4 - 2)" by simp
    then obtain k2 w where w: "cipher_loop cipher ub (unat n) (drop 2 (drop 4 frm)) (len - 4 - 2) (rsn_ucastkeylen rsn) 0
        = Some (drop (4 * unat n) (drop 2 (drop 4 frm)), len - 4 - 2 - of_nat (4 * unat n), k2, w)"
      using cipher_loop_safe [of "unat n" "len - 4 - 2" "drop 2 (drop 4 frm)" ub "rsn_ucastkeylen rsn" 0] assms len
      by force
    have "2 \<le> unat (len - 4 - 2 - of_nat (4 * unat n))"
      "unat (len - 4 - 2 - of_nat (4 * unat n)) \<le> length (drop (4 * unat n) (drop 2 (drop 4 frm)))"
      using assms len False unat_sub_of_nat [OF le] by auto
    from parse_keymgmt_safe [OF this] False show ?thesis
      using w by (simp add: parse_suites_def c n Let_def)
  qed
qed

end

text \<open>
  What two parties agree on: the group cipher has to be the same and one pairwise cipher and one
  key management algorithm have to be configured on both sides; TKIP and 802.1X go first.
\<close>

definition both :: "(ieee80211_rsnparms \<Rightarrow> u8) \<Rightarrow> nat \<Rightarrow> ieee80211_rsnparms \<Rightarrow> ieee80211_rsnparms \<Rightarrow> bool" where
  "both f i s r \<longleftrightarrow> bit (f s) i \<and> bit (f r) i"

definition compatible :: "ieee80211_rsnparms \<Rightarrow> ieee80211_rsnparms \<Rightarrow> bool" where
  "compatible s r \<longleftrightarrow> rsn_mcastcipher s = rsn_mcastcipher r \<and>
     (both rsn_ucastcipherset IEEE80211_CIPHER_TKIP s r \<or> both rsn_ucastcipherset IEEE80211_CIPHER_AES_CCM s r) \<and>
     (both rsn_keymgmtset 0 s r \<or> both rsn_keymgmtset 1 s r)"

definition negotiated :: "ieee80211_rsnparms \<Rightarrow> ieee80211_rsnparms \<Rightarrow> ieee80211_rsnparms" where
  "negotiated s r =
     r\<lparr>rsn_mcastkeylen := if unat (rsn_mcastcipher s) = IEEE80211_CIPHER_WEP
         then (if rsn_mcastkeylen s \<ge> 13 then 13 else 5) else rsn_mcastkeylen r,
       rsn_ucastcipher := if both rsn_ucastcipherset IEEE80211_CIPHER_TKIP s r
         then of_nat IEEE80211_CIPHER_TKIP else of_nat IEEE80211_CIPHER_AES_CCM,
       rsn_keymgmt := if both rsn_keymgmtset 0 s r then ASE_8021X_UNSPEC else ASE_8021X_PSK\<rparr>"

lemma has_flag_bits:
  "has_flag (x :: 'a::len word) 1 \<longleftrightarrow> bit x 0" "has_flag x 2 \<longleftrightarrow> bit x 1" "has_flag x 8 \<longleftrightarrow> bit x 3"
  using and_exp_eq_0_iff_not_bit [of x 0] and_exp_eq_0_iff_not_bit [of x 1] and_exp_eq_0_iff_not_bit [of x 3]
  by (simp_all only: has_flag_def) simp_all

lemma and_ucast_bits:
  "(1 :: u32) AND ucast (s :: u8) = 0 \<longleftrightarrow> \<not> bit s 0" "(2 :: u32) AND ucast s = 0 \<longleftrightarrow> \<not> bit s 1"
  "(3 :: u32) AND ucast s = 0 \<longleftrightarrow> \<not> (bit s 0 \<or> bit s 1)"
  "(8 :: u32) AND ucast s = 0 \<longleftrightarrow> \<not> bit s 3" "(10 :: u32) AND ucast s = 0 \<longleftrightarrow> \<not> (bit s 3 \<or> bit s 1)"
  subgoal using and_ucast_zero(2) [of 0 s] by simp
  subgoal using and_ucast_zero(2) [of 1 s] by simp
  subgoal using and_ucast_zero(1) [of 0 1 s] by simp
  subgoal using and_ucast_zero(2) [of 3 s] by simp
  subgoal using and_ucast_zero(1) [of 3 1 s] by simp
  done

lemma bit_and_ucast:
  "bit ((1 :: u32) AND ucast (s :: u8)) 0 \<longleftrightarrow> bit s 0" "\<not> bit ((2 :: u32) AND ucast s) 0"
  "bit ((3 :: u32) AND ucast s) 0 \<longleftrightarrow> bit s 0"
  "\<not> bit ((8 :: u32) AND ucast s) 1" "bit ((2 :: u32) AND ucast s) 1 \<longleftrightarrow> bit s 1"
  "bit ((10 :: u32) AND ucast s) 1 \<longleftrightarrow> bit s 1"
  by (simp_all add: bit_and_iff bit_ucast_iff)

lemmas negotiation_simps = has_flag_bits and_ucast_bits bit_and_ucast cipher_index_defs
  ASE_8021X_UNSPEC_def ASE_8021X_PSK_def selector_list_def

context selectors
begin

lemma drop_selector: "drop 4 (oui @ a # p) = p" "i < 6 \<Longrightarrow> drop 4 (suite ! i @ p) = p"
  by (simp_all add: suite_length)

lemma keymgmt_loop_list:
  "keymgmt_loop keymgmt (length (filter id [b0, b1]))
     (concat (map snd (filter fst [(b0, oui @ [ASE_8021X_UNSPEC]), (b1, oui @ [ASE_8021X_PSK])])) @ p) len 0
   = Some (p, len - of_nat (4 * length (filter id [b0, b1])), (if b0 then 1 else 0) OR (if b1 then 2 else 0))"
  by (cases b0; cases b1) (simp_all add: keymgmt_suite suite_length)

lemma parse_keymgmt_list:
  assumes "k \<le> 2" "sl = selector_list [(b0, oui @ [ASE_8021X_UNSPEC]), (b1, oui @ [ASE_8021X_PSK])]"
  shows "parse_keymgmt keymgmt (sl @ p) (of_nat (length sl + k)) rsn =
    Some (if b0 \<and> bit (rsn_keymgmtset rsn) 0 \<or> b1 \<and> bit (rsn_keymgmtset rsn) 1
      then (0, rsn\<lparr>rsn_keymgmt := if b0 \<and> bit (rsn_keymgmtset rsn) 0 then ASE_8021X_UNSPEC else ASE_8021X_PSK\<rparr>)
      else (IEEE80211_REASON_IE_INVALID, rsn))"
proof -
  define n where "n = length (filter id [b0, b1])"
  have n: "n \<le> 2" by (simp add: n_def)
  define w :: u32 where "w = (if b0 then 1 else 0) OR (if b1 then 2 else 0)"
  have rd: "LE_READ_2 (sl @ p) = Some (of_nat n)" and len: "length sl = 2 + 4 * n"
    by (cases b0; cases b1; simp add: assms(2) selector_list_def LE_READ_2_def n_def suite_length)+
  have "drop 2 (sl @ p) =
     concat (map snd (filter fst [(b0, oui @ [ASE_8021X_UNSPEC]), (b1, oui @ [ASE_8021X_PSK])])) @ p"
    by (simp add: assms(2) selector_list_def)
  then have loop: "keymgmt_loop keymgmt n (drop 2 (sl @ p)) (of_nat (4 * n + k)) 0 = Some (p, of_nat k, w)"
    unfolding n_def w_def using keymgmt_loop_list [of b0 b1 p "of_nat (4 * n + k)"] by (simp add: n_def)
  have un: "unat (of_nat n :: u16) = n" "unat (of_nat (4 * n + k) :: u8) = 4 * n + k"
    using n assms(1) by (auto intro!: unat_of_nat_small simp del: of_nat_add)
  have k: "\<not> (2 :: u8) < of_nat k"
    using assms(1) by (simp add: word_less_nat_alt unat_of_nat take_bit_eq_mod)
  have "(of_nat (length sl + k) :: u8) - 2 = of_nat (4 * n + k)" by (simp add: len)
  then have "parse_keymgmt keymgmt (sl @ p) (of_nat (length sl + k)) rsn =
    (let w = w AND ucast (rsn_keymgmtset rsn) in
     Some (if w = 0 then (IEEE80211_REASON_IE_INVALID, rsn)
       else (0, rsn\<lparr>rsn_keymgmt := if has_flag w (ucast ASE_8021X_UNSPEC) then ASE_8021X_UNSPEC else ASE_8021X_PSK\<rparr>)))"
    using k loop un by (simp add: parse_keymgmt_def rd Let_def del: of_nat_add)
  then show ?thesis
    by (cases b0; cases b1) (simp_all add: w_def has_flag_bits and_ucast_bits bit_and_ucast
      ASE_8021X_UNSPEC_def ASE_8021X_PSK_def)
qed

lemma cipher_loop_list:
  "cipher_loop cipher ub (length (filter id [b3, b1]))
     (concat (map snd (filter fst [(b3, suite ! 3), (b1, suite ! 1)])) @ p) len kl 0
   = Some (p, len - of_nat (4 * length (filter id [b3, b1])), kl, (if b3 then 8 else 0) OR (if b1 then 2 else 0))"
  by (cases b3; cases b1) (simp_all add: cipher_suite [unfolded One_nat_def] suite_length shl1_def)

lemma setup_suites_layout:
  assumes "setup_suites oui suite s = Some b" "unat (rsn_mcastcipher s) \<in> {0, 1, 3}"
    and "b3 = bit (rsn_ucastcipherset s) 3" "b1 = bit (rsn_ucastcipherset s) 1"
  obtains mc where "b = mc @ of_nat (length (filter id [b3, b1])) # 0
      # concat (map snd (filter fst [(b3, suite ! 3), (b1, suite ! 1)]))
      @ selector_list [(bit (rsn_keymgmtset s) 0, oui @ [ASE_8021X_UNSPEC]),
          (bit (rsn_keymgmtset s) 1, oui @ [ASE_8021X_PSK])]" "length mc = 4"
    "\<And>q kl. cipher (mc @ q) kl = Some (unat (rsn_mcastcipher s),
        if unat (rsn_mcastcipher s) = 0 then (if rsn_mcastkeylen s \<ge> 13 then 13 else 5) else kl)"
proof -
  define mc where "mc = (if unat (rsn_mcastcipher s) = 0 \<and> rsn_mcastkeylen s \<ge> 13
    then oui @ [CSE_WEP104] else suite ! unat (rsn_mcastcipher s))"
  have "b = mc @ selector_list [(b3, suite ! 3), (b1, suite ! 1)]
      @ selector_list [(bit (rsn_keymgmtset s) 0, oui @ [ASE_8021X_UNSPEC]),
          (bit (rsn_keymgmtset s) 1, oui @ [ASE_8021X_PSK])]"
    using assms by (auto simp: setup_suites_def mc_def has_flag_push_bit has_flag_bits suite_length
        cipher_index_defs ASE_8021X_UNSPEC_def ASE_8021X_PSK_def split: if_splits)
  moreover have "selector_list [(b3, suite ! 3), (b1, suite ! 1)] = of_nat (length (filter id [b3, b1])) # 0
      # concat (map snd (filter fst [(b3, suite ! 3), (b1, suite ! 1)]))"
    by (cases b3; cases b1) (simp_all add: selector_list_def)
  ultimately show thesis
    using assms(2) by (intro that [of mc]) (auto simp: mc_def suite_length cipher_wep cipher_suite [unfolded One_nat_def])
qed

lemma parse_ciphers:
  fixes b3 b1 :: bool and r :: ieee80211_rsnparms
  defines "n \<equiv> length (filter id [b3, b1])"
    and "cs \<equiv> concat (map snd (filter fst [(b3, suite ! 3), (b1, suite ! 1)]))"
    and "w \<equiv> ((if b3 then 8 else 0) OR (if b1 then 2 else 0)) AND ucast (rsn_ucastcipherset r) :: u32"
  assumes "k \<le> 2" and b: "b = mc @ of_nat n # 0 # cs @ sl" and sl: "2 \<le> length sl" "length sl \<le> 10"
    and mc: "length mc = 4" "\<And>q. cipher (mc @ q) (rsn_mcastkeylen r) = Some (c, kl)"
  shows "parse_suites cipher keymgmt ub (b @ p) (of_nat (length b + k)) r =
    (if c \<noteq> unat (rsn_mcastcipher r) \<or> w = 0 then Some (IEEE80211_REASON_IE_INVALID, r\<lparr>rsn_mcastkeylen := kl\<rparr>)
     else parse_keymgmt keymgmt (sl @ p) (of_nat (length sl + k))
       (r\<lparr>rsn_mcastkeylen := kl, rsn_ucastcipher := if has_flag w 2 then 1 else 3\<rparr>))"
proof -
  have "n \<le> 2" by (simp add: n_def)
  then have n: "n = 0 \<or> n = 1 \<or> n = 2" by linarith
  have len: "length b = 6 + (4 * n + length sl)"
    using mc(1) by (cases b3; cases b1) (simp_all add: b n_def cs_def suite_length)
  have rd: "LE_READ_2 (drop 4 (b @ p)) = Some (of_nat n)" and drop: "drop 2 (drop 4 (b @ p)) = cs @ sl @ p"
    using mc(1) n by (auto simp: b LE_READ_2_def)
  have c: "cipher (b @ p) (rsn_mcastkeylen r) = Some (c, kl)"
    by (simp add: b mc(2))
  have len2: "(of_nat (length b + k) :: u8) - 4 - 2 = of_nat (4 * n + (length sl + k))"
    by (simp add: len)
  have un: "unat (of_nat n :: u16) = n" "unat (of_nat (4 * n + (length sl + k)) :: u8) = 4 * n + (length sl + k)"
    using n sl assms(4) by (auto intro!: unat_of_nat_small simp del: of_nat_add)
  have loop: "cipher_loop cipher ub n (cs @ sl @ p) (of_nat (4 * n + (length sl + k))) (rsn_ucastkeylen r) 0
      = Some (sl @ p, of_nat (length sl + k), rsn_ucastkeylen r, (if b3 then 8 else 0) OR (if b1 then 2 else 0))"
    using cipher_loop_list [of ub b3 b1 "sl @ p" "of_nat (4 * n + (length sl + k))" "rsn_ucastkeylen r"]
    by (simp add: cs_def n_def)
  have lt: "\<not> 4 * n + (length sl + k) < n * 4 + 2" using sl by simp
  show ?thesis
    unfolding parse_suites_def c drop rd
    using loop un lt by (simp add: len2 Let_def w_def cipher_index_defs del: of_nat_add)
qed

lemma parse_suites_list:
  assumes "k \<le> 2" "setup_suites oui suite s = Some b" "unat (rsn_mcastcipher s) \<in> {0, 1, 3}"
  shows "\<exists>r'. parse_suites cipher keymgmt ub (b @ p) (of_nat (length b + k)) r =
    Some (if compatible s r then (0, negotiated s r) else (IEEE80211_REASON_IE_INVALID, r'))"
proof -
  define b3 b1 where "b3 = bit (rsn_ucastcipherset s) 3" and "b1 = bit (rsn_ucastcipherset s) 1"
  define a0 a1 where "a0 = bit (rsn_keymgmtset s) 0" and "a1 = bit (rsn_keymgmtset s) 1"
  define sl where "sl = selector_list [(a0, oui @ [ASE_8021X_UNSPEC]), (a1, oui @ [ASE_8021X_PSK])]"
  define kl where "kl = (if unat (rsn_mcastcipher s) = 0 then (if rsn_mcastkeylen s \<ge> 13 then 13 else 5)
    else rsn_mcastkeylen r)"
  obtain mc where b: "b = mc @ of_nat (length (filter id [b3, b1])) # 0
      # concat (map snd (filter fst [(b3, suite ! 3), (b1, suite ! 1)])) @ sl" and mc: "length mc = 4"
    "\<And>q. cipher (mc @ q) (rsn_mcastkeylen r) = Some (unat (rsn_mcastcipher s), kl)"
    using setup_suites_layout [OF assms(2,3) b3_def b1_def]
    unfolding sl_def a0_def a1_def kl_def by metis
  have sl: "2 \<le> length sl" "length sl \<le> 10"
    by (auto simp: sl_def selector_list_def suite_length)
  have w: "((if b3 then 8 else 0) OR (if b1 then 2 else 0) :: u32) AND ucast (rsn_ucastcipherset r) = 0 \<longleftrightarrow>
      \<not> (b3 \<and> bit (rsn_ucastcipherset r) 3 \<or> b1 \<and> bit (rsn_ucastcipherset r) 1)"
    "has_flag (((if b3 then 8 else 0) OR (if b1 then 2 else 0) :: u32) AND ucast (rsn_ucastcipherset r)) 2
      \<longleftrightarrow> b1 \<and> bit (rsn_ucastcipherset r) 1"
    subgoal by (cases b3; cases b1) (simp_all add: and_ucast_bits)
    subgoal by (cases b3; cases b1) (simp_all add: bit_and_ucast [unfolded One_nat_def] has_flag_bits)
    done
  note eq = parse_ciphers [OF assms(1) b sl mc, unfolded w
      parse_keymgmt_list [OF assms(1) sl_def] word_unat_eq_iff [symmetric], of ub p]
  have both: "compatible s r \<longleftrightarrow> rsn_mcastcipher s = rsn_mcastcipher r \<and>
      (b3 \<and> bit (rsn_ucastcipherset r) 3 \<or> b1 \<and> bit (rsn_ucastcipherset r) 1) \<and>
      (a0 \<and> bit (rsn_keymgmtset r) 0 \<or> a1 \<and> bit (rsn_keymgmtset r) 1)"
    by (auto simp: compatible_def both_def cipher_index_defs b3_def b1_def a0_def a1_def)
  have res: "negotiated s r = r\<lparr>rsn_mcastkeylen := kl,
      rsn_ucastcipher := if b1 \<and> bit (rsn_ucastcipherset r) 1 then 1 else 3,
      rsn_keymgmt := if a0 \<and> bit (rsn_keymgmtset r) 0 then ASE_8021X_UNSPEC else ASE_8021X_PSK\<rparr>"
    by (simp add: negotiated_def both_def cipher_index_defs kl_def b1_def a0_def)
  show ?thesis
    unfolding eq both res by (cases "rsn_mcastcipher s = rsn_mcastcipher r") auto
qed

lemma length_setup_suites:
  assumes "setup_suites oui suite s = Some b"
  shows "8 \<le> length b" "length b \<le> 24"
  using assms by (auto simp: setup_suites_def selector_list_def suite_length cipher_index_defs split: if_splits)

lemma setup_suites_some: "unat (rsn_mcastcipher s) \<in> {0, 1, 3} \<Longrightarrow> \<exists>b. setup_suites oui suite s = Some b"
  by (auto simp: setup_suites_def suite_length cipher_index_defs)

end

lemmas selector_defs = WPA_SEL_def RSN_SEL_def oui_defs suite_defs WPA_OUI_BYTES_def RSN_OUI_BYTES_def
  wpa_cipher_suite_def rsn_cipher_suite_def cipher_index_defs IEEE80211_CIPHER_AES_OCB_def

lemma lt_6_cases: "(i :: nat) < 6 \<Longrightarrow> i = 0 \<or> i = 1 \<or> i = 2 \<or> i = 3 \<or> i = 4 \<or> i = 5"
  by linarith

lemma selector_total:
  assumes "4 \<le> length p"
  shows "wpa_cipher p kl \<noteq> None" "wpa_keymgmt p \<noteq> None" "rsn_cipher p kl \<noteq> None" "rsn_keymgmt_of p \<noteq> None"
  using LE_READ_some(2) [OF assms]
  by (auto simp: wpa_cipher_def wpa_keymgmt_def rsn_cipher_def rsn_keymgmt_of_def)

lemma suite_lengths: "i < 6 \<Longrightarrow> length (wpa_cipher_suite ! i) = 4" "i < 6 \<Longrightarrow> length (rsn_cipher_suite ! i) = 4"
  by (auto dest!: lt_6_cases simp: wpa_cipher_suite_def rsn_cipher_suite_def WPA_OUI_BYTES_def RSN_OUI_BYTES_def)

interpretation wpa_sel: selectors wpa_cipher wpa_keymgmt WPA_OUI_BYTES wpa_cipher_suite
  by (unfold_locales; (rule selector_total suite_lengths, assumption)?;
      simp add: wpa_cipher_def wpa_keymgmt_def LE_READ_4_def selector_defs)

interpretation rsn_sel: selectors rsn_cipher rsn_keymgmt_of RSN_OUI_BYTES rsn_cipher_suite
  by (unfold_locales; (rule selector_total suite_lengths, assumption)?;
      simp add: rsn_cipher_def rsn_keymgmt_of_def LE_READ_4_def selector_defs)

subsection \<open>Results on the security elements\<close>

lemma parse_security_safe:
  assumes "2 \<le> length frm" "unat (frm ! 1) + 2 \<le> length frm"
  shows "ieee80211_parse_wpa ub ic frm rsn \<noteq> None" "ieee80211_parse_rsn ub ic frm rsn \<noteq> None"
proof -
  define x where "x = frm ! 1"
  have x: "14 \<le> x \<Longrightarrow> 14 \<le> unat x" "10 \<le> x \<Longrightarrow> 10 \<le> unat x"
    by (simp_all add: word_le_nat_alt)
  have sub: "14 \<le> unat x \<Longrightarrow> unat (x - 4 - 2) = unat x - 6" "10 \<le> unat x \<Longrightarrow> unat (x - 2) = unat x - 2"
    by (simp_all add: unat_sub word_le_nat_alt)
  have len: "unat x + 2 \<le> length frm" using assms(2) by (simp add: x_def)
  have "14 \<le> unat x \<Longrightarrow> parse_suites wpa_cipher wpa_keymgmt ub (drop 2 (drop 4 (drop 2 frm))) (x - 4 - 2) rsn \<noteq> None"
    using len sub(1) by (intro wpa_sel.parse_suites_safe) simp_all
  moreover have "10 \<le> unat x \<Longrightarrow> parse_suites rsn_cipher rsn_keymgmt_of ub (drop 2 (drop 2 frm)) (x - 2) rsn \<noteq> None"
    using len sub(2) by (intro rsn_sel.parse_suites_safe) simp_all
  moreover have "14 \<le> unat x \<Longrightarrow> \<exists>v. LE_READ_2 (drop 4 (drop 2 frm)) = Some v"
    "10 \<le> unat x \<Longrightarrow> \<exists>v. LE_READ_2 (drop 2 frm) = Some v"
    using len by (intro LE_READ_some; simp)+
  moreover have "rd frm 1 = Some x" using assms(1) by (simp add: x_def)
  ultimately show "ieee80211_parse_wpa ub ic frm rsn \<noteq> None" "ieee80211_parse_rsn ub ic frm rsn \<noteq> None"
    using x by (auto simp: ieee80211_parse_wpa_def ieee80211_parse_rsn_def not_less)
qed

lemma mcast_nums: "{IEEE80211_CIPHER_WEP, IEEE80211_CIPHER_TKIP, IEEE80211_CIPHER_AES_CCM} = {0, 1, 3}"
  by (simp add: cipher_index_defs)

lemma rsn_negotiation:
  assumes "unat (rsn_mcastcipher s) \<in> {0, 1, 3}" "has_flag (ic_flags ic) IEEE80211_F_WPA2"
  shows "\<exists>ie r'. ieee80211_setup_rsn_ie s = Some ie \<and> ieee80211_parse_rsn ub ic (ie @ p) r =
    Some (if compatible s r then (0, negotiated s r) else (IEEE80211_REASON_IE_INVALID, r'))"
proof -
  obtain b where b: "setup_suites RSN_OUI_BYTES rsn_cipher_suite s = Some b"
    using rsn_sel.setup_suites_some [OF assms(1)] by blast
  note len = rsn_sel.length_setup_suites [OF b]
  have "\<not> (of_nat (length b + 4) :: u8) < 10"
    using len by (simp add: word_less_nat_alt unat_of_nat_small del: of_nat_add)
  moreover define ie where "ie = IEEE80211_ELEMID_RSN # of_nat (length b + 4) # ADDSHORT RSN_VERSION @ b
    @ ADDSHORT (rsn_caps s)"
  ultimately have "ieee80211_parse_rsn ub ic (ie @ p) r =
      parse_suites rsn_cipher rsn_keymgmt_of ub (b @ ADDSHORT (rsn_caps s) @ p) (of_nat (length b + 2)) r"
    using assms(2) by (simp add: ieee80211_parse_rsn_def add.commute)
  moreover have "ieee80211_setup_rsn_ie s = Some ie"
    by (simp add: ieee80211_setup_rsn_ie_def b ie_def add.commute)
  ultimately show ?thesis
    using rsn_sel.parse_suites_list [OF order.refl b assms(1), of ub "ADDSHORT (rsn_caps s) @ p" r] by metis
qed

lemma wpa_negotiation:
  assumes "unat (rsn_mcastcipher s) \<in> {0, 1, 3}" "has_flag (ic_flags ic) IEEE80211_F_WPA1"
  shows "\<exists>ie r'. ieee80211_setup_wpa_ie s = Some ie \<and> ieee80211_parse_wpa ub ic (ie @ p) r =
    Some (if compatible s r then (0, negotiated s r) else (IEEE80211_REASON_IE_INVALID, r'))"
proof -
  obtain b where b: "setup_suites WPA_OUI_BYTES wpa_cipher_suite s = Some b"
    using wpa_sel.setup_suites_some [OF assms(1)] by blast
  note len = wpa_sel.length_setup_suites [OF b]
  define caps where "caps = (if rsn_caps s \<noteq> 0 \<and> rsn_caps s \<noteq> RSN_CAP_PREAUTH then ADDSHORT (rsn_caps s) else [])"
  have k: "length caps \<le> 2" by (simp add: caps_def)
  have "\<not> (of_nat (length b + length caps + 6) :: u8) < 14"
    using len k by (simp add: word_less_nat_alt unat_of_nat_small del: of_nat_add)
  moreover define ie where "ie = IEEE80211_ELEMID_VENDOR # of_nat (length b + length caps + 6) # WPA_OUI_BYTES
    @ WPA_OUI_TYPE # ADDSHORT WPA_VERSION @ b @ caps"
  ultimately have "ieee80211_parse_wpa ub ic (ie @ p) r =
      parse_suites wpa_cipher wpa_keymgmt ub (b @ caps @ p) (of_nat (length b + length caps)) r"
    using assms(2) by (simp add: ieee80211_parse_wpa_def WPA_OUI_BYTES_def add.commute)
  moreover have "ieee80211_setup_wpa_ie s = Some ie"
    using wpa_sel.suite_length(2) by (simp add: ieee80211_setup_wpa_ie_def b ie_def algebra_simps flip: caps_def)
  ultimately show ?thesis
    using wpa_sel.parse_suites_list [OF k b assms(1), of ub "caps @ p" r] by metis
qed

text \<open>
  C8. Security negotiation.  The WPA or RSN element a party builds from its configuration, however the
  frame continues behind it, is accepted by a party that has the protocol enabled exactly when
  both use the same group cipher and share a pairwise cipher (TKIP or CCMP) and a key management
  algorithm; the receiver then selects TKIP if both have it and else CCMP, 802.1X if both have it
  and else the pre-shared key, and takes the WEP key length of the group cipher over.  The
  capabilities of the sender are not taken over.  Otherwise the result is the reason code for an
  invalid element.
\<close>

theorem security_negotiation:
  assumes "unat (rsn_mcastcipher s) \<in> {IEEE80211_CIPHER_WEP, IEEE80211_CIPHER_TKIP, IEEE80211_CIPHER_AES_CCM}"
  shows "(has_flag (ic_flags ic) IEEE80211_F_WPA2 \<longrightarrow>
      (\<exists>ie r'. ieee80211_setup_rsn_ie s = Some ie \<and> ieee80211_parse_rsn ub ic (ie @ p) r =
        Some (if compatible s r then (0, negotiated s r) else (IEEE80211_REASON_IE_INVALID, r')))) \<and>
    (has_flag (ic_flags ic) IEEE80211_F_WPA1 \<longrightarrow>
      (\<exists>ie r'. ieee80211_setup_wpa_ie s = Some ie \<and> ieee80211_parse_wpa ub ic (ie @ p) r =
        Some (if compatible s r then (0, negotiated s r) else (IEEE80211_REASON_IE_INVALID, r'))))"
  using assms rsn_negotiation wpa_negotiation unfolding mcast_nums by blast

definition ex_rsn :: ieee80211_rsnparms where
  "ex_rsn = lateattach_rsn 0 \<lparr>rsn_mcastcipher = 0, rsn_mcastkeylen = 0, rsn_ucastcipherset = 0, rsn_ucastcipher = 0,
     rsn_ucastkeylen = 0, rsn_keymgmtset = 0, rsn_keymgmt = 0, rsn_caps = 0\<rparr>"

theorem security_negotiation_witness:
  "\<exists>ie. ieee80211_setup_rsn_ie (ex_rsn\<lparr>rsn_ucastcipherset := 8, rsn_caps := 5\<rparr>) = Some ie \<and>
     ieee80211_parse_rsn 1 (ex_com\<lparr>ic_flags := IEEE80211_F_WPA2\<rparr>) (ie @ [0, 0]) ex_rsn =
       Some (0, ex_rsn\<lparr>rsn_ucastcipher := 3, rsn_keymgmt := 1\<rparr>)"
  using security_negotiation [of "ex_rsn\<lparr>rsn_ucastcipherset := 8, rsn_caps := 5\<rparr>" "ex_com\<lparr>ic_flags := IEEE80211_F_WPA2\<rparr>"
      1 "[0, 0]" ex_rsn]
  by (simp add: ex_rsn_def lateattach_rsn_def cipher_index_defs has_flag_def IEEE80211_F_WPA2_def compatible_def
      negotiated_def both_def suite_defs IEEE80211_C_AES_def IEEE80211_C_CKIP_def)

text \<open>
  An element that offers WEP alone as pairwise cipher passes with the default parameters, whose
  set has WEP in it, and the station is put on CCMP, which it did not offer.
\<close>

lemma unoffered_cipher_selected:
  "ieee80211_parse_rsn ub (ex_com\<lparr>ic_flags := IEEE80211_F_WPA2\<rparr>)
     ([48, 20, 1, 0, 0, 0x0f, 0xac, 2, 1, 0, 0, 0x0f, 0xac, 1, 1, 0, 0, 0x0f, 0xac, 2, 0, 0] @ p) ex_rsn
   = Some (0, ex_rsn\<lparr>rsn_ucastkeylen := 5, rsn_ucastcipher := of_nat IEEE80211_CIPHER_AES_CCM\<rparr>)"
  by (simp add: ieee80211_parse_rsn_def parse_suites_def parse_keymgmt_def rsn_cipher_def rsn_keymgmt_of_def
      LE_READ_2_def LE_READ_4_def RSN_SEL_def oui_defs suite_defs cipher_index_defs ex_rsn_def lateattach_rsn_def
      has_flag_def IEEE80211_F_WPA2_def IEEE80211_C_AES_def IEEE80211_C_CKIP_def shl1_def RSN_VERSION_def)

end
