(* ===== verification/Wme.thy ===== *)
theory Wme
  imports Elements
begin

text \<open>
  The WME (802.11e) channel access parameters: their defaults and updates
  (\<open>net80211/ieee80211_proto.c\<close>), their configuration (\<open>ieee80211_ioctl.c\<close>), the element that
  announces them in beacons (\<open>ieee80211_output.c\<close>) and its evaluation by a station
  (\<open>ieee80211_input.c\<close>).  The driver's \<open>wme_update\<close> hook only reads these parameters and is
  left out.
\<close>

subsection \<open>State\<close>

datatype ieee80211_opmode =
  IEEE80211_M_STA | IEEE80211_M_IBSS | IEEE80211_M_AHDEMO | IEEE80211_M_HOSTAP | IEEE80211_M_MONITOR

datatype ieee80211_phymode =
    IEEE80211_MODE_AUTO | IEEE80211_MODE_11A | IEEE80211_MODE_11B | IEEE80211_MODE_11G
  | IEEE80211_MODE_FH | IEEE80211_MODE_TURBO_A | IEEE80211_MODE_TURBO_G

record wmeParams =
  wmep_acm :: u8
  wmep_aifsn :: u8
  wmep_logcwmin :: u8
  wmep_logcwmax :: u8
  wmep_txopLimit :: u8
  wmep_noackPolicy :: u8

record chanAccParams =
  cap_info :: u8
  cap_wmeParams :: "wmeParams list"

record ieee80211_wme_state =
  wme_flags :: u32
  wme_hipri_traffic :: u32
  wme_hipri_switch_thresh :: u32
  wme_hipri_switch_hysteresis :: u32
  wme_wmeChanParams :: chanAccParams
  wme_wmeBssChanParams :: chanAccParams
  wme_chanParams :: chanAccParams
  wme_bssChanParams :: chanAccParams

text \<open>The fields of the BSS node that the parameters depend on.\<close>

record wme_bss =
  bss_flags :: u16
  bss_intval :: u16

record wme_com = com +
  ic_opmode :: ieee80211_opmode
  ic_curmode :: ieee80211_phymode
  ic_sta_assoc :: u16
  ic_bss :: "wme_bss option"
  ic_wme :: ieee80211_wme_state

definition WME_NUM_AC :: nat where "WME_NUM_AC = 4"
definition WME_AC_BE :: nat where "WME_AC_BE = 0"
definition WME_AC_BK :: nat where "WME_AC_BK = 1"
definition WME_AC_VI :: nat where "WME_AC_VI = 2"
definition WME_AC_VO :: nat where "WME_AC_VO = 3"
definition WME_QOSINFO_COUNT :: u8 where "WME_QOSINFO_COUNT = 0x0f"
definition WME_F_AGGRMODE :: u32 where "WME_F_AGGRMODE = 1"
definition IEEE80211_C_WME :: u32 where "IEEE80211_C_WME = 0x04000000"
definition IEEE80211_C_BURST :: u32 where "IEEE80211_C_BURST = 0x02000000"
definition IEEE80211_F_WME :: u32 where "IEEE80211_F_WME = 0x00002000"
definition IEEE80211_F_WMEUPDATE :: u32 where "IEEE80211_F_WMEUPDATE = 0x20000000"
definition IEEE80211_NODE_QOS :: u16 where "IEEE80211_NODE_QOS = 0x0002"
definition HIGH_PRI_SWITCH_THRESH :: nat where "HIGH_PRI_SWITCH_THRESH = 10"

lemmas ac_defs = WME_NUM_AC_def WME_AC_BE_def WME_AC_BK_def WME_AC_VI_def WME_AC_VO_def

text \<open>Every parameter set has the four access categories.\<close>

definition wf_wme :: "ieee80211_wme_state \<Rightarrow> bool" where
  "wf_wme w \<longleftrightarrow> length (cap_wmeParams (wme_wmeChanParams w)) = WME_NUM_AC \<and>
     length (cap_wmeParams (wme_wmeBssChanParams w)) = WME_NUM_AC \<and>
     length (cap_wmeParams (wme_chanParams w)) = WME_NUM_AC \<and>
     length (cap_wmeParams (wme_bssChanParams w)) = WME_NUM_AC \<and>
     cap_info (wme_bssChanParams w) AND WME_QOSINFO_COUNT = cap_info (wme_bssChanParams w)"

subsection \<open>Tables of the specification\<close>

record phyParamType =
  ph_aifsn :: u8
  ph_logcwmin :: u8
  ph_logcwmax :: u8
  ph_txopLimit :: u16
  ph_acm :: u8

text \<open>The modes fall in three groups in every table: 11b and frequency hopping, turbo, the others.\<close>

primrec by_mode :: "'a \<Rightarrow> 'a \<Rightarrow> 'a \<Rightarrow> ieee80211_phymode \<Rightarrow> 'a" where
  "by_mode ofdm cck turbo IEEE80211_MODE_AUTO = ofdm"
| "by_mode ofdm cck turbo IEEE80211_MODE_11A = ofdm"
| "by_mode ofdm cck turbo IEEE80211_MODE_11B = cck"
| "by_mode ofdm cck turbo IEEE80211_MODE_11G = ofdm"
| "by_mode ofdm cck turbo IEEE80211_MODE_FH = cck"
| "by_mode ofdm cck turbo IEEE80211_MODE_TURBO_A = turbo"
| "by_mode ofdm cck turbo IEEE80211_MODE_TURBO_G = turbo"

definition ph :: "u8 \<Rightarrow> u8 \<Rightarrow> u8 \<Rightarrow> u16 \<Rightarrow> u8 \<Rightarrow> phyParamType" where
  "ph a mi ma t c = \<lparr>ph_aifsn = a, ph_logcwmin = mi, ph_logcwmax = ma, ph_txopLimit = t, ph_acm = c\<rparr>"

definition phyParamForAC_BE :: "ieee80211_phymode \<Rightarrow> phyParamType" where
  "phyParamForAC_BE = by_mode (ph 3 4 6 0 0) (ph 3 5 7 0 0) (ph 2 3 5 0 0)"
definition phyParamForAC_BK :: "ieee80211_phymode \<Rightarrow> phyParamType" where
  "phyParamForAC_BK = by_mode (ph 7 4 10 0 0) (ph 7 5 10 0 0) (ph 7 3 10 0 0)"
definition phyParamForAC_VI :: "ieee80211_phymode \<Rightarrow> phyParamType" where
  "phyParamForAC_VI = by_mode (ph 1 3 4 94 0) (ph 1 4 5 188 0) (ph 1 2 3 94 0)"
definition phyParamForAC_VO :: "ieee80211_phymode \<Rightarrow> phyParamType" where
  "phyParamForAC_VO = by_mode (ph 1 2 3 47 0) (ph 1 3 4 102 0) (ph 1 2 2 47 0)"
definition bssPhyParamForAC_BE :: "ieee80211_phymode \<Rightarrow> phyParamType" where
  "bssPhyParamForAC_BE = by_mode (ph 3 4 10 0 0) (ph 3 5 10 0 0) (ph 2 3 10 0 0)"
definition bssPhyParamForAC_VI :: "ieee80211_phymode \<Rightarrow> phyParamType" where
  "bssPhyParamForAC_VI = by_mode (ph 2 3 4 94 0) (ph 2 4 5 188 0) (ph 2 2 3 94 0)"
definition bssPhyParamForAC_VO :: "ieee80211_phymode \<Rightarrow> phyParamType" where
  "bssPhyParamForAC_VO = by_mode (ph 2 2 3 47 0) (ph 2 3 4 102 0) (ph 1 2 2 47 0)"
definition aggr_phyParam :: "ieee80211_phymode \<Rightarrow> phyParamType" where
  "aggr_phyParam = by_mode (ph 2 4 10 64 0) (ph 2 5 10 64 0) (ph 1 3 10 64 0)"
definition aggr_logCwMin :: "ieee80211_phymode \<Rightarrow> u8" where
  "aggr_logCwMin = by_mode 3 4 3"

subsection \<open>Updating the parameters\<close>

definition upd_ac :: "nat \<Rightarrow> (wmeParams \<Rightarrow> wmeParams) \<Rightarrow> chanAccParams \<Rightarrow> chanAccParams" where
  "upd_ac i f c = c\<lparr>cap_wmeParams := (cap_wmeParams c)[i := f (cap_wmeParams c ! i)]\<rparr>"

text \<open>The copy of the four fields (the ACM bit is not one of them) to a set, for every category.\<close>

definition copy_access :: "wmeParams \<Rightarrow> wmeParams \<Rightarrow> wmeParams" where
  "copy_access src d = d\<lparr>wmep_aifsn := wmep_aifsn src, wmep_logcwmin := wmep_logcwmin src,
     wmep_logcwmax := wmep_logcwmax src, wmep_txopLimit := wmep_txopLimit src\<rparr>"

definition copy_set :: "chanAccParams \<Rightarrow> chanAccParams \<Rightarrow> chanAccParams" where
  "copy_set src d = fold (\<lambda>i. upd_ac i (copy_access (cap_wmeParams src ! i))) [0..<WME_NUM_AC] d"

definition set_best_effort :: "'a wme_com_scheme \<Rightarrow> wmeParams \<Rightarrow> wmeParams" where
  "set_best_effort ic p =
     (let ph = aggr_phyParam (ic_curmode ic)
      in p\<lparr>wmep_aifsn := ph_aifsn ph, wmep_logcwmin := ph_logcwmin ph, wmep_logcwmax := ph_logcwmax ph,
           wmep_txopLimit := if has_flag (ic_caps ic) IEEE80211_C_BURST then ucast (ph_txopLimit ph) else 0\<rparr>)"

text \<open>\<open>ieee80211_wme_updateparams_locked\<close>; \<open>None\<close> when it needs the BSS node and there is none.\<close>

definition ieee80211_wme_updateparams_locked :: "wme_com \<Rightarrow> wme_com option" where
  "ieee80211_wme_updateparams_locked ic = do {
     let wme = ic_wme ic;
         hostap = (ic_opmode ic = IEEE80211_M_HOSTAP);
         aggr = has_flag (wme_flags wme) WME_F_AGGRMODE;
         chanp = copy_set (wme_wmeChanParams wme) (wme_chanParams wme);
         bssp = copy_set (wme_wmeBssChanParams wme) (wme_bssChanParams wme) in do {
     noqos \<leftarrow> (if hostap then Some (\<not> aggr)
              else map_option (\<lambda>ni. \<not> has_flag (bss_flags ni) IEEE80211_NODE_QOS) (ic_bss ic));
     let be = (noqos \<or> \<not> has_flag (ic_flags ic) IEEE80211_F_WME);
         chanp = (if be then upd_ac WME_AC_BE (set_best_effort ic) chanp else chanp);
         bssp = (if be then upd_ac WME_AC_BE (set_best_effort ic) bssp else bssp);
         few = (hostap \<and> ic_sta_assoc ic < 2 \<and> \<not> aggr);
         cw = (\<lambda>p. p\<lparr>wmep_logcwmin := aggr_logCwMin (ic_curmode ic)\<rparr>);
         chanp = (if few then upd_ac WME_AC_BE cw chanp else chanp);
         bssp = (if few then upd_ac WME_AC_BE cw bssp else bssp);
         bssp = (if hostap then bssp\<lparr>cap_info := (cap_info bssp + 1) AND WME_QOSINFO_COUNT\<rparr> else bssp);
         flags = (if hostap then set_flag (ic_flags ic) IEEE80211_F_WMEUPDATE else ic_flags ic) in
     Some (ic\<lparr>ic_flags := flags, ic_wme := wme\<lparr>wme_chanParams := chanp, wme_bssChanParams := bssp\<rparr>\<rparr>) } }"

definition ieee80211_wme_updateparams :: "wme_com \<Rightarrow> wme_com option" where
  "ieee80211_wme_updateparams ic =
     (if has_flag (ic_caps ic) IEEE80211_C_WME then ieee80211_wme_updateparams_locked ic else Some ic)"

text \<open>The defaults of a category: of the station's own queues in an access point, and of the BSS.\<close>

definition phy_param :: "nat \<Rightarrow> ieee80211_phymode \<Rightarrow> phyParamType \<times> phyParamType" where
  "phy_param i mode =
     (if i = WME_AC_BK then (phyParamForAC_BK mode, phyParamForAC_BK mode)
      else if i = WME_AC_VI then (phyParamForAC_VI mode, bssPhyParamForAC_VI mode)
      else if i = WME_AC_VO then (phyParamForAC_VO mode, bssPhyParamForAC_VO mode)
      else (phyParamForAC_BE mode, bssPhyParamForAC_BE mode))"

definition set_phy :: "phyParamType \<Rightarrow> wmeParams \<Rightarrow> wmeParams" where
  "set_phy q p = p\<lparr>wmep_acm := ph_acm q, wmep_aifsn := ph_aifsn q, wmep_logcwmin := ph_logcwmin q,
     wmep_logcwmax := ph_logcwmax q, wmep_txopLimit := ucast (ph_txopLimit q)\<rparr>"

definition init_ac :: "wme_com \<Rightarrow> nat \<Rightarrow> ieee80211_wme_state \<Rightarrow> ieee80211_wme_state" where
  "init_ac ic i wme =
     (let (pPhyParam, pBssPhyParam) = phy_param i (ic_curmode ic)
      in wme\<lparr>wme_wmeChanParams := upd_ac i
             (set_phy (if ic_opmode ic = IEEE80211_M_HOSTAP then pPhyParam else pBssPhyParam)) (wme_wmeChanParams wme),
           wme_wmeBssChanParams := upd_ac i (set_phy pBssPhyParam) (wme_wmeBssChanParams wme)\<rparr>)"

definition ieee80211_wme_initparams :: "wme_com \<Rightarrow> wme_com option" where
  "ieee80211_wme_initparams ic =
     (if \<not> has_flag (ic_caps ic) IEEE80211_C_WME then Some ic
      else
        let wme = fold (init_ac ic) [0..<WME_NUM_AC] (ic_wme ic)
        in case ic_bss ic of
             None \<Rightarrow> Some (ic\<lparr>ic_wme := wme\<rparr>)
           | Some ni \<Rightarrow> ieee80211_wme_updateparams
               (ic\<lparr>ic_wme := wme\<lparr>wme_hipri_switch_thresh := of_nat (HIGH_PRI_SWITCH_THRESH * unat (bss_intval ni) div 100)\<rparr>\<rparr>))"

text \<open>\<open>ieee80211_ioctl_setwmeparam\<close>: the category and the set are encoded in \<open>i_len\<close>.\<close>

definition EINVAL :: nat where "EINVAL = 22"

definition IEEE80211_WMEPARAM_BSS :: u16 where "IEEE80211_WMEPARAM_BSS = 0x8000"
definition IEEE80211_WMEPARAM_VAL :: u16 where "IEEE80211_WMEPARAM_VAL = 0x7fff"

datatype wme_ioc = IEEE80211_IOC_WME_CWMIN | IEEE80211_IOC_WME_CWMAX | IEEE80211_IOC_WME_AIFS
  | IEEE80211_IOC_WME_TXOPLIMIT | IEEE80211_IOC_WME_ACM | IEEE80211_IOC_WME_ACKPOLICY

primrec wme_field :: "wme_ioc \<Rightarrow> u16 \<Rightarrow> wmeParams \<Rightarrow> wmeParams" where
  "wme_field IEEE80211_IOC_WME_CWMIN v p = p\<lparr>wmep_logcwmin := ucast v\<rparr>"
| "wme_field IEEE80211_IOC_WME_CWMAX v p = p\<lparr>wmep_logcwmax := ucast v\<rparr>"
| "wme_field IEEE80211_IOC_WME_AIFS v p = p\<lparr>wmep_aifsn := ucast v\<rparr>"
| "wme_field IEEE80211_IOC_WME_TXOPLIMIT v p = p\<lparr>wmep_txopLimit := ucast v\<rparr>"
| "wme_field IEEE80211_IOC_WME_ACM v p = p\<lparr>wmep_acm := ucast v\<rparr>"
| "wme_field IEEE80211_IOC_WME_ACKPOLICY v p = p\<lparr>wmep_noackPolicy := if v = 0 then 1 else 0\<rparr>"

definition set_wme_param :: "wme_ioc \<Rightarrow> u16 \<Rightarrow> u16 \<Rightarrow> ieee80211_wme_state \<Rightarrow> ieee80211_wme_state" where
  "set_wme_param i_type i_val i_len wme =
     (let isbss = has_flag i_len IEEE80211_WMEPARAM_BSS;
          ac = unat (i_len AND IEEE80211_WMEPARAM_VAL);
          ac = (if ac \<ge> WME_NUM_AC then WME_AC_BE else ac);
          noaggr = (\<not> has_flag (wme_flags wme) WME_F_AGGRMODE);
          chan = (case i_type of
              IEEE80211_IOC_WME_ACM \<Rightarrow> noaggr
            | IEEE80211_IOC_WME_ACKPOLICY \<Rightarrow> True
            | _ \<Rightarrow> \<not> isbss \<or> noaggr);
          f = upd_ac ac (wme_field i_type i_val)
      in if isbss
         then wme\<lparr>wme_wmeBssChanParams := f (wme_wmeBssChanParams wme),
                  wme_bssChanParams := if chan then f (wme_bssChanParams wme) else wme_bssChanParams wme\<rparr>
         else wme\<lparr>wme_wmeChanParams := f (wme_wmeChanParams wme),
                  wme_chanParams := if chan then f (wme_chanParams wme) else wme_chanParams wme\<rparr>)"

definition ieee80211_ioctl_setwmeparam :: "wme_ioc \<Rightarrow> u16 \<Rightarrow> u16 \<Rightarrow> wme_com \<Rightarrow> (nat \<times> wme_com) option" where
  "ieee80211_ioctl_setwmeparam i_type i_val i_len ic =
     (if \<not> has_flag (ic_caps ic) IEEE80211_C_WME then Some (EINVAL, ic)
      else map_option (\<lambda>ic. (0, ic))
        (ieee80211_wme_updateparams (ic\<lparr>ic_wme := set_wme_param i_type i_val i_len (ic_wme ic)\<rparr>)))"

subsection \<open>The elements\<close>

definition WME_OUI_BYTES :: bytes where "WME_OUI_BYTES = [0x00, 0x50, 0xf2]"
definition sizeof_wme_info :: nat where "sizeof_wme_info = 9"
definition sizeof_wme_param :: nat where "sizeof_wme_param = 26"

definition ieee80211_add_wme_info :: bytes where
  "ieee80211_add_wme_info = [IEEE80211_ELEMID_VENDOR, of_nat (sizeof_wme_info - 2)] @ WME_OUI_BYTES
     @ [WME_OUI_TYPE, WME_INFO_OUI_SUBTYPE, WME_VERSION, 0]"

definition WME_PARAM_ACI :: u8 where "WME_PARAM_ACI = 0x60"
definition WME_PARAM_ACM :: u8 where "WME_PARAM_ACM = 0x10"
definition WME_PARAM_AIFSN :: u8 where "WME_PARAM_AIFSN = 0x0f"
definition WME_PARAM_LOGCWMIN :: u8 where "WME_PARAM_LOGCWMIN = 0x0f"
definition WME_PARAM_LOGCWMAX :: u8 where "WME_PARAM_LOGCWMAX = 0xf0"

lemmas wme_param_defs = WME_PARAM_ACI_def WME_PARAM_ACM_def WME_PARAM_AIFSN_def WME_PARAM_LOGCWMIN_def
  WME_PARAM_LOGCWMAX_def

text \<open>The macros \<open>SM\<close> and \<open>MS\<close>, with the shift as an argument.\<close>

definition SM :: "u8 \<Rightarrow> u8 \<Rightarrow> nat \<Rightarrow> u8" where "SM v f s = push_bit s v AND f"
definition MS :: "u8 \<Rightarrow> u8 \<Rightarrow> nat \<Rightarrow> u8" where "MS v f s = drop_bit s (v AND f)"

definition wme_ac_bytes :: "nat \<Rightarrow> wmeParams \<Rightarrow> bytes" where
  "wme_ac_bytes i ac =
     [SM (of_nat i) WME_PARAM_ACI 5 OR SM (wmep_acm ac) WME_PARAM_ACM 4 OR SM (wmep_aifsn ac) WME_PARAM_AIFSN 0,
      SM (wmep_logcwmax ac) WME_PARAM_LOGCWMAX 4 OR SM (wmep_logcwmin ac) WME_PARAM_LOGCWMIN 0]
     @ ADDSHORT (ucast (wmep_txopLimit ac))"

definition ieee80211_add_wme_param :: "ieee80211_wme_state \<Rightarrow> bytes" where
  "ieee80211_add_wme_param wme =
     [IEEE80211_ELEMID_VENDOR, of_nat (sizeof_wme_param - 2)] @ WME_OUI_BYTES
     @ [WME_OUI_TYPE, WME_PARAM_OUI_SUBTYPE, WME_VERSION, cap_info (wme_bssChanParams wme), 0]
     @ concat (map (\<lambda>i. wme_ac_bytes i (cap_wmeParams (wme_bssChanParams wme) ! i)) [0..<WME_NUM_AC])"

primrec parse_acs :: "nat list \<Rightarrow> bytes \<Rightarrow> chanAccParams \<Rightarrow> chanAccParams option" where
  "parse_acs [] frm c = Some c"
| "parse_acs (i # is) frm c = do {
     f0 \<leftarrow> rd frm 0;
     f1 \<leftarrow> rd frm 1;
     t \<leftarrow> LE_READ_2 (drop 2 frm);
     parse_acs is (drop 4 frm) (upd_ac i (\<lambda>p. p\<lparr>wmep_acm := MS f0 WME_PARAM_ACM 4, wmep_aifsn := MS f0 WME_PARAM_AIFSN 0,
       wmep_logcwmin := MS f1 WME_PARAM_LOGCWMIN 0, wmep_logcwmax := MS f1 WME_PARAM_LOGCWMAX 4,
       wmep_txopLimit := ucast t\<rparr>) c) }"

definition ieee80211_parse_wmeparams :: "bytes \<Rightarrow> ieee80211_wme_state \<Rightarrow> (int \<times> ieee80211_wme_state) option" where
  "ieee80211_parse_wmeparams frm wme = do {
     len \<leftarrow> rd frm 1;
     if unat len < sizeof_wme_param - 2 then Some (- 1, wme)
     else do {
       qosinfo \<leftarrow> rd frm 8;
       let qosinfo = qosinfo AND WME_QOSINFO_COUNT in
       if qosinfo = cap_info (wme_wmeChanParams wme) then Some (0, wme)
       else do {
         c \<leftarrow> parse_acs [0..<WME_NUM_AC] (drop 10 frm) (wme_wmeChanParams wme);
         Some (1, wme\<lparr>wme_wmeChanParams := c\<lparr>cap_info := qosinfo\<rparr>\<rparr>) } } }"

text \<open>
  The WME part of \<open>ieee80211_beacon_update\<close>: the switch between the modes, and the element
  the beacon gets, \<open>None\<close> in the second component when it keeps the old one.
\<close>

definition set_hipri :: "u32 \<Rightarrow> wme_com \<Rightarrow> wme_com" where
  "set_hipri v ic = ic\<lparr>ic_wme := (ic_wme ic)\<lparr>wme_hipri_traffic := v\<rparr>\<rparr>"

definition set_wme_flags :: "u32 \<Rightarrow> wme_com \<Rightarrow> wme_com" where
  "set_wme_flags v ic = ic\<lparr>ic_wme := (ic_wme ic)\<lparr>wme_flags := v\<rparr>\<rparr>"

definition wme_switch_mode :: "wme_com \<Rightarrow> wme_com option" where
  "wme_switch_mode ic =
     (let wme = ic_wme ic
      in if has_flag (wme_flags wme) WME_F_AGGRMODE
         then (if wme_hipri_traffic wme > wme_hipri_switch_thresh wme
           then map_option (set_hipri (wme_hipri_switch_hysteresis wme))
             (ieee80211_wme_updateparams_locked (set_wme_flags (clear_flag (wme_flags wme) WME_F_AGGRMODE) ic))
           else Some (set_hipri 0 ic))
         else (if wme_hipri_traffic wme \<le> wme_hipri_switch_thresh wme
           then map_option (set_hipri 0)
             (ieee80211_wme_updateparams_locked (set_wme_flags (set_flag (wme_flags wme) WME_F_AGGRMODE) ic))
           else Some (set_hipri (wme_hipri_switch_hysteresis wme) ic)))"

definition beacon_update_wme :: "wme_com \<Rightarrow> (wme_com \<times> bytes option) option" where
  "beacon_update_wme ic =
     (if \<not> has_flag (ic_flags ic) IEEE80211_F_WME then Some (ic, None)
      else map_option (\<lambda>ic.
          if has_flag (ic_flags ic) IEEE80211_F_WMEUPDATE
          then (ic\<lparr>ic_flags := clear_flag (ic_flags ic) IEEE80211_F_WMEUPDATE\<rparr>, Some (ieee80211_add_wme_param (ic_wme ic)))
          else (ic, None))
        (wme_switch_mode ic))"

subsection \<open>The element carries the parameters\<close>

lemma u8_bit_cases: "n < LENGTH(8) \<Longrightarrow> n = 0 \<or> n = 1 \<or> n = 2 \<or> n = 3 \<or> n = 4 \<or> n = 5 \<or> n = 6 \<or> n = 7"
  by simp linarith

lemma MS_SM:
  "MS (SM a WME_PARAM_ACI 5 OR SM x WME_PARAM_ACM 4 OR SM y WME_PARAM_AIFSN 0) WME_PARAM_ACM 4 = x AND 1"
  "MS (SM a WME_PARAM_ACI 5 OR SM x WME_PARAM_ACM 4 OR SM y WME_PARAM_AIFSN 0) WME_PARAM_AIFSN 0 = y AND 15"
  "MS (SM x WME_PARAM_LOGCWMAX 4 OR SM y WME_PARAM_LOGCWMIN 0) WME_PARAM_LOGCWMIN 0 = y AND 15"
  "MS (SM x WME_PARAM_LOGCWMAX 4 OR SM y WME_PARAM_LOGCWMIN 0) WME_PARAM_LOGCWMAX 4 = x AND 15"
  by (rule bit_word_eqI, drule u8_bit_cases,
      elim disjE, simp_all add: MS_def SM_def wme_param_defs bit_and_iff bit_or_iff bit_push_bit_iff bit_drop_bit_eq)+

text \<open>What a station keeps of the parameters of one category that an access point announces.\<close>

definition take_over :: "wmeParams \<Rightarrow> wmeParams \<Rightarrow> wmeParams" where
  "take_over a p = p\<lparr>wmep_acm := wmep_acm a AND 1, wmep_aifsn := wmep_aifsn a AND 15,
     wmep_logcwmin := wmep_logcwmin a AND 15, wmep_logcwmax := wmep_logcwmax a AND 15,
     wmep_txopLimit := wmep_txopLimit a\<rparr>"

lemma parse_acs_step:
  "parse_acs (i # is) (wme_ac_bytes j a @ frm) c = parse_acs is frm (upd_ac i (take_over a) c)"
proof -
  have "(ucast (ucast t :: u16) :: u8) = t" for t by (rule bit_word_eqI) (simp add: bit_simps)
  then show ?thesis
    by (simp add: wme_ac_bytes_def MS_SM take_over_def [abs_def])
qed

lemma parse_add_wme_param:
  assumes "length (cap_wmeParams (wme_bssChanParams w)) = WME_NUM_AC" "length (cap_wmeParams (wme_wmeChanParams st)) = WME_NUM_AC"
    and "n = cap_info (wme_bssChanParams w) AND WME_QOSINFO_COUNT"
  shows "ieee80211_parse_wmeparams (ieee80211_add_wme_param w @ p) st =
    Some (if n = cap_info (wme_wmeChanParams st) then (0, st)
      else (1, st\<lparr>wme_wmeChanParams := \<lparr>cap_info = n,
        cap_wmeParams = map2 take_over (cap_wmeParams (wme_bssChanParams w)) (cap_wmeParams (wme_wmeChanParams st))\<rparr>\<rparr>))"
proof -
  obtain a0 a1 a2 a3 where a: "cap_wmeParams (wme_bssChanParams w) = [a0, a1, a2, a3]"
    using assms(1) length_4_cases unfolding WME_NUM_AC_def by metis
  obtain b0 b1 b2 b3 where b: "cap_wmeParams (wme_wmeChanParams st) = [b0, b1, b2, b3]"
    using assms(2) length_4_cases unfolding WME_NUM_AC_def by metis
  have up: "[0..<WME_NUM_AC] = [0, 1, 2, 3]" by (simp add: WME_NUM_AC_def upt_rec)
  have acs: "parse_acs [0, 1, 2, 3] (wme_ac_bytes 0 a0 @ wme_ac_bytes 1 a1 @ wme_ac_bytes 2 a2 @ wme_ac_bytes 3 a3 @ p)
      (wme_wmeChanParams st) = Some ((wme_wmeChanParams st)\<lparr>cap_wmeParams := map2 take_over [a0, a1, a2, a3] [b0, b1, b2, b3]\<rparr>)"
    by (simp only: parse_acs_step parse_acs.simps(1)) (simp add: upd_ac_def b)
  have elem: "rd (ieee80211_add_wme_param w @ p) 1 = Some 24"
    "rd (ieee80211_add_wme_param w @ p) 8 = Some (cap_info (wme_bssChanParams w))"
    "drop 10 (ieee80211_add_wme_param w @ p) =
       wme_ac_bytes 0 a0 @ wme_ac_bytes 1 a1 @ wme_ac_bytes 2 a2 @ wme_ac_bytes 3 a3 @ p"
    by (simp_all add: ieee80211_add_wme_param_def up a sizeof_wme_param_def WME_OUI_BYTES_def)
  show ?thesis
    unfolding ieee80211_parse_wmeparams_def elem bind.bind_lunit up acs assms(3) a b
    by (simp add: sizeof_wme_param_def Let_def)
qed

subsection \<open>The parameter set number\<close>

lemma cap_info_upd [simp]: "cap_info (upd_ac i f c) = cap_info c" "length (cap_wmeParams (upd_ac i f c)) = length (cap_wmeParams c)"
  by (simp_all add: upd_ac_def)

lemma cap_info_upd_if [simp]: "cap_info (if b then upd_ac i f c else c) = cap_info c"
  "length (cap_wmeParams (if b then upd_ac i f c else c)) = length (cap_wmeParams c)"
  by simp_all

lemma copy_set_simps [simp]: "cap_info (copy_set s d) = cap_info d" "length (cap_wmeParams (copy_set s d)) = length (cap_wmeParams d)"
  by (simp_all add: copy_set_def WME_NUM_AC_def upt_rec)

lemma nth_copy_set:
  assumes "length (cap_wmeParams d) = WME_NUM_AC" "i < WME_NUM_AC"
  shows "cap_wmeParams (copy_set s d) ! i = copy_access (cap_wmeParams s ! i) (cap_wmeParams d ! i)"
proof -
  have "i = 0 \<or> i = 1 \<or> i = 2 \<or> i = 3" using assms(2) unfolding WME_NUM_AC_def by linarith
  then show ?thesis
    using assms(1) by (auto simp: copy_set_def WME_NUM_AC_def upt_rec upd_ac_def numeral_2_eq_2 numeral_3_eq_3)
qed

lemma nth_upd_best_effort [simp]: "i \<noteq> WME_AC_BE \<Longrightarrow>
    cap_wmeParams (if b then upd_ac WME_AC_BE f c else c) ! i = cap_wmeParams c ! i"
  by (simp add: upd_ac_def)

lemma wme_update_flags:
  "has_flag (set_flag x IEEE80211_F_WMEUPDATE) IEEE80211_F_WME = has_flag x IEEE80211_F_WME"
  "has_flag (set_flag x IEEE80211_F_WMEUPDATE) IEEE80211_F_WMEUPDATE"
  by (simp_all add: has_flag_set_disjoint IEEE80211_F_WMEUPDATE_def IEEE80211_F_WME_def)

text \<open>
  The four access fields of every category but best effort are announced as configured; two
  states agree on what an update keeps.
\<close>

definition as_configured :: "ieee80211_wme_state \<Rightarrow> bool" where
  "as_configured w \<longleftrightarrow> (\<forall>i \<in> {WME_AC_BK, WME_AC_VI, WME_AC_VO}.
     copy_access (cap_wmeParams (wme_wmeBssChanParams w) ! i) (cap_wmeParams (wme_bssChanParams w) ! i)
       = cap_wmeParams (wme_bssChanParams w) ! i)"

definition same_config :: "wme_com \<Rightarrow> wme_com \<Rightarrow> bool" where
  "same_config a b \<longleftrightarrow> ic_opmode a = ic_opmode b \<and> ic_caps a = ic_caps b \<and>
     has_flag (ic_flags a) IEEE80211_F_WME = has_flag (ic_flags b) IEEE80211_F_WME \<and>
     wme_wmeBssChanParams (ic_wme a) = wme_wmeBssChanParams (ic_wme b)"

lemma copy_access_idem [simp]: "copy_access s (copy_access s d) = copy_access s d"
  by (simp add: copy_access_def)

lemma updateparams_locked_hostap:
  assumes "ic_opmode ic = IEEE80211_M_HOSTAP" "wf_wme (ic_wme ic)"
  obtains ic' where "ieee80211_wme_updateparams_locked ic = Some ic'" "same_config ic' ic" "wf_wme (ic_wme ic')"
    "as_configured (ic_wme ic')" "has_flag (ic_flags ic') IEEE80211_F_WMEUPDATE"
    "cap_info (wme_bssChanParams (ic_wme ic')) = (cap_info (wme_bssChanParams (ic_wme ic)) + 1) AND WME_QOSINFO_COUNT"
proof -
  have ne: "WME_AC_BK \<noteq> WME_AC_BE" "WME_AC_VI \<noteq> WME_AC_BE" "WME_AC_VO \<noteq> WME_AC_BE"
    and lt: "WME_AC_BK < WME_NUM_AC" "WME_AC_VI < WME_NUM_AC" "WME_AC_VO < WME_NUM_AC"
    by (simp_all add: ac_defs)
  have "IEEE80211_F_WMEUPDATE \<noteq> 0" by (simp add: IEEE80211_F_WMEUPDATE_def)
  then show thesis
    using assms ne lt
    by (intro that [of "the (ieee80211_wme_updateparams_locked ic)"])
      (simp_all add: ieee80211_wme_updateparams_locked_def wf_wme_def same_config_def as_configured_def Let_def
        wme_update_flags and.assoc nth_copy_set)
qed

lemma unat_count: "unat (x AND WME_QOSINFO_COUNT) = unat x mod 16"
proof -
  have "x AND WME_QOSINFO_COUNT = take_bit 4 x"
    by (simp add: WME_QOSINFO_COUNT_def take_bit_eq_mask mask_eq_exp_minus_1)
  then have "unat (x AND WME_QOSINFO_COUNT) = take_bit 4 (unat x)" by (simp only: unsigned_take_bit_eq)
  then show ?thesis by (simp add: take_bit_eq_mod)
qed

lemma unat_count_step: "unat ((c + 1) AND WME_QOSINFO_COUNT) = (unat c + 1) mod 16"
proof -
  have "unat (c + 1) = (unat c + 1) mod 256" by (simp add: unat_word_ariths)
  then show ?thesis by (simp add: unat_count mod_mod_cancel)
qed

lemma count_step:
  assumes "(c :: u8) AND WME_QOSINFO_COUNT = c"
  shows "(c + 1) AND WME_QOSINFO_COUNT \<noteq> c" "((c + 1 AND WME_QOSINFO_COUNT) + 1) AND WME_QOSINFO_COUNT \<noteq> c"
proof -
  have "unat c < 16" using unat_count [of c] assms by (metis mod_less_divisor zero_less_numeral)
  then have "(unat c + 1) mod 16 \<noteq> unat c" "((unat c + 1) mod 16 + 1) mod 16 \<noteq> unat c"
    by (cases "unat c = 15"; cases "unat c = 14"; simp)+
  then show "(c + 1) AND WME_QOSINFO_COUNT \<noteq> c" "((c + 1 AND WME_QOSINFO_COUNT) + 1) AND WME_QOSINFO_COUNT \<noteq> c"
    by (metis unat_count_step)+
qed

subsection \<open>From the configuration of the access point to the station\<close>

lemma same_config_trans: "same_config a b \<Longrightarrow> same_config b c \<Longrightarrow> same_config a c"
  by (simp add: same_config_def)

lemma set_wme_param_simps:
  "wf_wme w \<Longrightarrow> wf_wme (set_wme_param t v l w)"
  "cap_info (wme_bssChanParams (set_wme_param t v l w)) = cap_info (wme_bssChanParams w)"
  by (simp_all add: set_wme_param_def wf_wme_def Let_def)

lemma setwmeparam_hostap:
  assumes "ic_opmode ic = IEEE80211_M_HOSTAP" "has_flag (ic_caps ic) IEEE80211_C_WME" "wf_wme (ic_wme ic)"
  obtains ic' where "ieee80211_ioctl_setwmeparam t v l ic = Some (0, ic')"
    "same_config ic' (ic\<lparr>ic_wme := set_wme_param t v l (ic_wme ic)\<rparr>)" "wf_wme (ic_wme ic')"
    "as_configured (ic_wme ic')" "has_flag (ic_flags ic') IEEE80211_F_WMEUPDATE"
    "cap_info (wme_bssChanParams (ic_wme ic')) = (cap_info (wme_bssChanParams (ic_wme ic)) + 1) AND WME_QOSINFO_COUNT"
proof -
  define ic1 where "ic1 = ic\<lparr>ic_wme := set_wme_param t v l (ic_wme ic)\<rparr>"
  have "ic_opmode ic1 = IEEE80211_M_HOSTAP" "wf_wme (ic_wme ic1)"
    using assms by (simp_all add: ic1_def set_wme_param_simps)
  then obtain ic' where "ieee80211_wme_updateparams_locked ic1 = Some ic'" "same_config ic' ic1"
    "wf_wme (ic_wme ic')" "as_configured (ic_wme ic')" "has_flag (ic_flags ic') IEEE80211_F_WMEUPDATE"
    "cap_info (wme_bssChanParams (ic_wme ic')) = (cap_info (wme_bssChanParams (ic_wme ic1)) + 1) AND WME_QOSINFO_COUNT"
    using updateparams_locked_hostap by blast
  then show thesis
    using assms(2) by (intro that [of ic'])
      (simp_all add: ieee80211_ioctl_setwmeparam_def ieee80211_wme_updateparams_def ic1_def set_wme_param_simps)
qed

text \<open>A beacon that is due for an update announces the current set, possibly after one more update.\<close>

definition announcing :: "wme_com \<Rightarrow> chanAccParams \<Rightarrow> u8 \<Rightarrow> bool" where
  "announcing ic config n \<longleftrightarrow> wf_wme (ic_wme ic) \<and> as_configured (ic_wme ic) \<and>
     has_flag (ic_flags ic) IEEE80211_F_WMEUPDATE \<and> wme_wmeBssChanParams (ic_wme ic) = config \<and>
     cap_info (wme_bssChanParams (ic_wme ic)) = n"

lemma announcing_hipri [simp]: "announcing (set_hipri v ic) config n \<longleftrightarrow> announcing ic config n"
  by (simp add: announcing_def set_hipri_def wf_wme_def as_configured_def)

lemma switch_mode_hostap:
  assumes "ic_opmode ic = IEEE80211_M_HOSTAP" "announcing ic config n"
  shows "\<exists>ic'. wme_switch_mode ic = Some ic' \<and>
    (announcing ic' config n \<or> announcing ic' config ((n + 1) AND WME_QOSINFO_COUNT))"
proof -
  have upd: "\<exists>ic'. ieee80211_wme_updateparams_locked (set_wme_flags x ic) = Some ic' \<and>
      announcing ic' config ((n + 1) AND WME_QOSINFO_COUNT)" for x
  proof -
    have "ic_opmode (set_wme_flags x ic) = IEEE80211_M_HOSTAP" "wf_wme (ic_wme (set_wme_flags x ic))"
      "wme_wmeBssChanParams (ic_wme (set_wme_flags x ic)) = config"
      "cap_info (wme_bssChanParams (ic_wme (set_wme_flags x ic))) = n"
      using assms by (auto simp: set_wme_flags_def wf_wme_def announcing_def)
    then show ?thesis
      using updateparams_locked_hostap [of "set_wme_flags x ic"] unfolding announcing_def same_config_def by metis
  qed
  show ?thesis
    using assms(2) upd [of "clear_flag (wme_flags (ic_wme ic)) WME_F_AGGRMODE"]
      upd [of "set_flag (wme_flags (ic_wme ic)) WME_F_AGGRMODE"]
    by (auto simp: wme_switch_mode_def Let_def)
qed

lemma announced_accepted:
  assumes "wf_wme w" "length (cap_wmeParams (wme_wmeChanParams st)) = WME_NUM_AC"
    and "cap_info (wme_bssChanParams w) \<noteq> cap_info (wme_wmeChanParams st)"
  obtains st' where "ieee80211_parse_wmeparams (ieee80211_add_wme_param w @ p) st = Some (1, st')"
    "cap_info (wme_wmeChanParams st') = cap_info (wme_bssChanParams w)"
    "cap_wmeParams (wme_wmeChanParams st') =
       map2 take_over (cap_wmeParams (wme_bssChanParams w)) (cap_wmeParams (wme_wmeChanParams st))"
    "ieee80211_parse_wmeparams (ieee80211_add_wme_param w @ q) st' = Some (0, st')"
proof -
  define st' where "st' = st\<lparr>wme_wmeChanParams := \<lparr>cap_info = cap_info (wme_bssChanParams w),
    cap_wmeParams = map2 take_over (cap_wmeParams (wme_bssChanParams w)) (cap_wmeParams (wme_wmeChanParams st))\<rparr>\<rparr>"
  have cnt: "cap_info (wme_bssChanParams w) AND WME_QOSINFO_COUNT = cap_info (wme_bssChanParams w)"
    and len: "length (cap_wmeParams (wme_bssChanParams w)) = WME_NUM_AC"
    using assms(1) by (simp_all add: wf_wme_def)
  show thesis
    using parse_add_wme_param [OF len, of st _ p] parse_add_wme_param [OF len, of st' _ q] assms(2,3) len
    by (intro that [of st']) (simp_all add: st'_def cnt)
qed

text \<open>
  C16. WME parameters reach the stations.  When the parameters of an access point are set, the next
  beacon carries an element, and a station that holds the previous parameter set accepts it:
  it takes over the announced fields of all four access categories at the width of the element
  and the number of the set, and ignores the same element when it receives it again.  The
  announced values of the categories other than best effort are the configured ones.
\<close>

theorem wme_params_reach_station:
  assumes "ic_opmode ap = IEEE80211_M_HOSTAP" "has_flag (ic_caps ap) IEEE80211_C_WME"
    and "has_flag (ic_flags ap) IEEE80211_F_WME" "wf_wme (ic_wme ap)"
    and "length (cap_wmeParams (wme_wmeChanParams st)) = WME_NUM_AC"
    and "cap_info (wme_wmeChanParams st) = cap_info (wme_bssChanParams (ic_wme ap))"
  shows "\<exists>ap1 ap2 ie st'. ieee80211_ioctl_setwmeparam t v l ap = Some (0, ap1) \<and>
    beacon_update_wme ap1 = Some (ap2, Some ie) \<and>
    wme_wmeBssChanParams (ic_wme ap2) = wme_wmeBssChanParams (set_wme_param t v l (ic_wme ap)) \<and>
    as_configured (ic_wme ap2) \<and>
    ieee80211_parse_wmeparams (ie @ p) st = Some (1, st') \<and>
    cap_info (wme_wmeChanParams st') = cap_info (wme_bssChanParams (ic_wme ap2)) \<and>
    cap_wmeParams (wme_wmeChanParams st') =
      map2 take_over (cap_wmeParams (wme_bssChanParams (ic_wme ap2))) (cap_wmeParams (wme_wmeChanParams st)) \<and>
    ieee80211_parse_wmeparams (ie @ q) st' = Some (0, st')"
proof -
  define config where "config = wme_wmeBssChanParams (set_wme_param t v l (ic_wme ap))"
  define c where "c = cap_info (wme_bssChanParams (ic_wme ap))"
  define n where "n = (c + 1) AND WME_QOSINFO_COUNT"
  obtain ap1 where ap1: "ieee80211_ioctl_setwmeparam t v l ap = Some (0, ap1)" "ic_opmode ap1 = IEEE80211_M_HOSTAP"
    "has_flag (ic_flags ap1) IEEE80211_F_WME" "announcing ap1 config n"
    using setwmeparam_hostap [OF assms(1,2,4), of t v l] assms(1,3)
    by (auto simp: same_config_def announcing_def config_def n_def c_def)
  obtain ap2 where ap2: "wme_switch_mode ap1 = Some ap2" "announcing ap2 config n \<or> announcing ap2 config ((n + 1) AND WME_QOSINFO_COUNT)"
    using switch_mode_hostap [OF ap1(2,4)] by blast
  have "c AND WME_QOSINFO_COUNT = c" using assms(4) by (simp add: wf_wme_def c_def)
  then have "n \<noteq> c" "(n + 1) AND WME_QOSINFO_COUNT \<noteq> c" by (simp_all add: n_def count_step)
  then have ne: "cap_info (wme_bssChanParams (ic_wme ap2)) \<noteq> cap_info (wme_wmeChanParams st)"
    using ap2(2) assms(6) by (auto simp: announcing_def c_def)
  have wf: "wf_wme (ic_wme ap2)" and fl: "has_flag (ic_flags ap2) IEEE80211_F_WMEUPDATE"
    "as_configured (ic_wme ap2)" "wme_wmeBssChanParams (ic_wme ap2) = config"
    using ap2(2) by (auto simp: announcing_def)
  define ap3 where "ap3 = ap2\<lparr>ic_flags := clear_flag (ic_flags ap2) IEEE80211_F_WMEUPDATE\<rparr>"
  have "beacon_update_wme ap1 = Some (ap3, Some (ieee80211_add_wme_param (ic_wme ap2)))" "ic_wme ap3 = ic_wme ap2"
    using ap1(3) ap2(1) fl(1) by (simp_all add: beacon_update_wme_def ap3_def)
  then show ?thesis
    using ap1(1) fl announced_accepted [OF wf assms(5) ne, of p q] unfolding config_def by metis
qed

text \<open>The defaults are a well-formed configuration.\<close>

lemma initparams_wf:
  assumes "ic_opmode ic = IEEE80211_M_HOSTAP" "wf_wme (ic_wme ic)"
  obtains ic' where "ieee80211_wme_initparams ic = Some ic'" "wf_wme (ic_wme ic')" "ic_opmode ic' = IEEE80211_M_HOSTAP"
proof -
  have "wf_wme w \<Longrightarrow> wf_wme (init_ac ic i w)" for i w
    by (simp add: init_ac_def wf_wme_def split: prod.split)
  then have "wf_wme (fold (init_ac ic) xs w)" if "wf_wme w" for xs w
    using that by (induction xs arbitrary: w) simp_all
  moreover define wme where "wme = fold (init_ac ic) [0..<WME_NUM_AC] (ic_wme ic)"
  ultimately have wf: "wf_wme wme" using assms(2) by blast
  have upd: "\<exists>ic'. ieee80211_wme_updateparams (ic\<lparr>ic_wme := wme\<lparr>wme_hipri_switch_thresh := x\<rparr>\<rparr>) = Some ic' \<and>
      wf_wme (ic_wme ic') \<and> ic_opmode ic' = IEEE80211_M_HOSTAP" for x
  proof -
    define ic1 where "ic1 = ic\<lparr>ic_wme := wme\<lparr>wme_hipri_switch_thresh := x\<rparr>\<rparr>"
    have "ic_opmode ic1 = IEEE80211_M_HOSTAP" "wf_wme (ic_wme ic1)"
      using assms(1) wf by (simp_all add: ic1_def wf_wme_def)
    then show ?thesis
      using updateparams_locked_hostap [of ic1]
      unfolding ieee80211_wme_updateparams_def same_config_def ic1_def [symmetric] by metis
  qed
  have "\<exists>ic'. ieee80211_wme_initparams ic = Some ic' \<and> wf_wme (ic_wme ic') \<and> ic_opmode ic' = IEEE80211_M_HOSTAP"
    using upd assms wf unfolding ieee80211_wme_initparams_def Let_def wme_def [symmetric]
    by (cases "has_flag (ic_caps ic) IEEE80211_C_WME"; cases "ic_bss ic") simp_all
  then show thesis using that by blast
qed

definition ex_ap :: wme_com where
  "ex_ap = (let set0 = \<lparr>cap_info = 15, cap_wmeParams = replicate 4 \<lparr>wmep_acm = 0, wmep_aifsn = 2, wmep_logcwmin = 4,
       wmep_logcwmax = 10, wmep_txopLimit = 0, wmep_noackPolicy = 0\<rparr>\<rparr>
     in \<lparr>ic_ifp = True, ic_flags = IEEE80211_F_WME, ic_caps = IEEE80211_C_WME, ic_stats = (\<lambda>_. 0), ic_events = [],
       ic_opmode = IEEE80211_M_HOSTAP, ic_curmode = IEEE80211_MODE_11G, ic_sta_assoc = 3, ic_bss = None,
       ic_wme = \<lparr>wme_flags = 0, wme_hipri_traffic = 0, wme_hipri_switch_thresh = 10, wme_hipri_switch_hysteresis = 3,
         wme_wmeChanParams = set0, wme_wmeBssChanParams = set0, wme_chanParams = set0, wme_bssChanParams = set0\<rparr>\<rparr>)"

theorem wme_params_reach_station_witness:
  "\<exists>ap1 ap2 ie st'. ieee80211_ioctl_setwmeparam IEEE80211_IOC_WME_CWMIN 3 0x8002 ex_ap = Some (0, ap1) \<and>
    beacon_update_wme ap1 = Some (ap2, Some ie) \<and> ieee80211_parse_wmeparams ie (ic_wme ex_ap) = Some (1, st')"
proof -
  have "ic_opmode ex_ap = IEEE80211_M_HOSTAP" "has_flag (ic_caps ex_ap) IEEE80211_C_WME"
    "has_flag (ic_flags ex_ap) IEEE80211_F_WME" "wf_wme (ic_wme ex_ap)"
    "length (cap_wmeParams (wme_wmeChanParams (ic_wme ex_ap))) = WME_NUM_AC"
    "cap_info (wme_wmeChanParams (ic_wme ex_ap)) = cap_info (wme_bssChanParams (ic_wme ex_ap))"
    by (simp_all add: ex_ap_def Let_def has_flag_def IEEE80211_F_WME_def IEEE80211_C_WME_def wf_wme_def WME_NUM_AC_def
        WME_QOSINFO_COUNT_def)
  from wme_params_reach_station [OF this, of IEEE80211_IOC_WME_CWMIN 3 "0x8002" "[]" "[]"]
  show ?thesis by auto
qed

end
