(* ===== verification/Mgmt.thy ===== *)
theory Mgmt
  imports Wme
begin

text \<open>
  The bodies of management frames: the loops over the information elements and the checks of
  the receive routines of \<open>net80211/ieee80211_input.c\<close> (beacon and probe response, probe
  request, association request and response), and the association request that
  \<open>ieee80211_send_mgmt\<close> builds.  A routine gets the bytes of the first buffer of the frame;
  its result is the device and either the parsed values or nothing, when the frame is dropped.
  \<open>None\<close> is a read behind the end of the frame.
\<close>

subsection \<open>Device and node\<close>

datatype ieee80211_phytype = IEEE80211_T_DS | IEEE80211_T_FH | IEEE80211_T_OFDM | IEEE80211_T_TURBO

datatype ieee80211_state =
  IEEE80211_S_INIT | IEEE80211_S_SCAN | IEEE80211_S_AUTH | IEEE80211_S_ASSOC | IEEE80211_S_RUN

text \<open>What the routines read of the device and its BSS node; \<open>me_bchan\<close> is the number of the current channel.\<close>

record mgmt_env =
  me_opmode :: ieee80211_opmode
  me_state :: ieee80211_state
  me_phytype :: ieee80211_phytype
  me_bchan :: u8
  me_chan_active :: bytes
  me_bssid :: bytes
  me_esslen :: u8
  me_essid :: bytes

definition IEEE80211_NWID_LEN :: nat where "IEEE80211_NWID_LEN = 32"
definition IEEE80211_CHAN_BYTES :: nat where "IEEE80211_CHAN_BYTES = 32"
definition IEEE80211_BINTVAL_MIN :: nat where "IEEE80211_BINTVAL_MIN = 25"
definition IEEE80211_BINTVAL_MAX :: nat where "IEEE80211_BINTVAL_MAX = 1000"
definition IEEE80211_F_SCAN :: u32 where "IEEE80211_F_SCAN = 0x00000080"
definition IEEE80211_F_PUREG :: u32 where "IEEE80211_F_PUREG = 0x00000020"
definition IEEE80211_F_HIDESSID :: u32 where "IEEE80211_F_HIDESSID = 0x08000000"
definition IEEE80211_F_WPA :: u32 where "IEEE80211_F_WPA = 0x01800000"
definition IEEE80211_ELEMID_FHPARMS :: u8 where "IEEE80211_ELEMID_FHPARMS = 2"
definition IEEE80211_ELEMID_DSPARMS :: u8 where "IEEE80211_ELEMID_DSPARMS = 3"
definition IEEE80211_ELEMID_TIM :: u8 where "IEEE80211_ELEMID_TIM = 5"
definition IEEE80211_ELEMID_IBSSPARMS :: u8 where "IEEE80211_ELEMID_IBSSPARMS = 6"
definition IEEE80211_ELEMID_COUNTRY :: u8 where "IEEE80211_ELEMID_COUNTRY = 7"
definition IEEE80211_CAPINFO_ESS :: u16 where "IEEE80211_CAPINFO_ESS = 0x0001"
definition IEEE80211_CAPINFO_IBSS :: u16 where "IEEE80211_CAPINFO_IBSS = 0x0002"
definition IEEE80211_CAPINFO_PRIVACY :: u16 where "IEEE80211_CAPINFO_PRIVACY = 0x0010"
definition IEEE80211_CAPINFO_SHORT_PREAMBLE :: u16 where "IEEE80211_CAPINFO_SHORT_PREAMBLE = 0x0020"
definition IEEE80211_CAPINFO_SHORT_SLOTTIME :: u16 where "IEEE80211_CAPINFO_SHORT_SLOTTIME = 0x0400"
definition IEEE80211_REASON_ASSOC_NOT_AUTHED :: u8 where "IEEE80211_REASON_ASSOC_NOT_AUTHED = 9"
definition IEEE80211_REASON_RSN_REQUIRED :: u8 where "IEEE80211_REASON_RSN_REQUIRED = 11"
definition IEEE80211_STATUS_CAPINFO :: u16 where "IEEE80211_STATUS_CAPINFO = 10"
definition IEEE80211_STATUS_BASIC_RATE :: u16 where "IEEE80211_STATUS_BASIC_RATE = 18"

lemmas mgmt_elem_defs = elemid_defs IEEE80211_ELEMID_FHPARMS_def IEEE80211_ELEMID_DSPARMS_def
  IEEE80211_ELEMID_TIM_def IEEE80211_ELEMID_IBSSPARMS_def IEEE80211_ELEMID_COUNTRY_def

definition wf_env :: "mgmt_env \<Rightarrow> bool" where
  "wf_env e \<longleftrightarrow> length (me_chan_active e) = IEEE80211_CHAN_BYTES \<and> length (me_essid e) = IEEE80211_NWID_LEN"

subsection \<open>Elements of a frame\<close>

definition is_oui :: "u8 \<Rightarrow> u32 \<Rightarrow> u8 \<Rightarrow> bytes \<Rightarrow> bool option" where
  "is_oui minlen oui type frm = do {
     l \<leftarrow> rd frm 1;
     if l > minlen then do { w \<leftarrow> LE_READ_4 (drop 2 frm); Some (w = push_bit 24 (ucast type) OR oui) }
     else Some False }"

definition iswpaoui :: "bytes \<Rightarrow> bool option" where "iswpaoui frm = is_oui 3 WPA_OUI WPA_OUI_TYPE frm"
definition iswmeoui :: "bytes \<Rightarrow> bool option" where "iswmeoui frm = is_oui 3 WME_OUI WME_OUI_TYPE frm"

definition iswme_subtype :: "u8 \<Rightarrow> bytes \<Rightarrow> bool option" where
  "iswme_subtype t frm = do {
     b \<leftarrow> is_oui 5 WME_OUI WME_OUI_TYPE frm;
     if b then do { s \<leftarrow> rd frm 6; Some (s = t) } else Some False }"

definition iswmeparam :: "bytes \<Rightarrow> bool option" where "iswmeparam = iswme_subtype WME_PARAM_OUI_SUBTYPE"
definition iswmeinfo :: "bytes \<Rightarrow> bool option" where "iswmeinfo = iswme_subtype WME_INFO_OUI_SUBTYPE"

text \<open>The result of a routine that may drop the frame, and the verification macros.\<close>

type_synonym ('c, 's) verdict = "('c \<times> 's option) option"

definition dropped :: "stat \<Rightarrow> 'a com_scheme \<Rightarrow> ('a com_scheme, 's) verdict" where
  "dropped s ic = Some (inc_stat s ic, None)"

definition verify_length :: "nat \<Rightarrow> nat \<Rightarrow> 'a com_scheme \<Rightarrow> ('a com_scheme, 's) verdict \<Rightarrow> ('a com_scheme, 's) verdict" where
  "verify_length len minlen ic k = (if len < minlen then dropped is_rx_elem_toosmall ic else k)"

definition verify_element :: "bytes option \<Rightarrow> nat \<Rightarrow> 'a com_scheme \<Rightarrow> (bytes \<Rightarrow> ('a com_scheme, 's) verdict) \<Rightarrow>
    ('a com_scheme, 's) verdict" where
  "verify_element elem maxlen ic k =
     (case elem of
        None \<Rightarrow> dropped is_rx_elem_missing ic
      | Some e \<Rightarrow> do { l \<leftarrow> rd e 1; if unat l > maxlen then dropped is_rx_elem_toobig ic else k e })"

definition verify_ssid :: "mgmt_env \<Rightarrow> bytes \<Rightarrow> 'a com_scheme \<Rightarrow> ('a com_scheme, 's) verdict \<Rightarrow> ('a com_scheme, 's) verdict" where
  "verify_ssid e ssid ic k = do {
     l \<leftarrow> rd ssid 1;
     if l \<noteq> 0 \<and> l \<noteq> me_esslen e then dropped is_rx_ssidmismatch ic
     else if l \<noteq> 0 then
       (if length ssid < unat l + 2 \<or> length (me_essid e) < unat l then None
        else if take (unat l) (drop 2 ssid) \<noteq> take (unat l) (me_essid e) then dropped is_rx_ssidmismatch ic
        else k)
     else k }"

text \<open>The loop over the elements with the switch of a routine as its step.\<close>

function elem_loop :: "('a com_scheme \<Rightarrow> bytes \<Rightarrow> 's \<Rightarrow> ('a com_scheme, 's) verdict) \<Rightarrow>
    'a com_scheme \<Rightarrow> bytes \<Rightarrow> 's \<Rightarrow> ('a com_scheme, 's) verdict" where
  "elem_loop step ic frm s =
     (if length frm \<le> 1 then Some (ic, Some s)
      else if length frm < unat (frm ! 1) + 2 then dropped is_rx_elem_toosmall ic
      else case step ic frm s of
          None \<Rightarrow> None
        | Some (ic', None) \<Rightarrow> Some (ic', None)
        | Some (ic', Some s') \<Rightarrow> elem_loop step ic' (drop (unat (frm ! 1) + 2) frm) s')"
  by pat_completeness auto

termination
  by (relation "measure (\<lambda>(step, ic, frm, s). length frm)") auto

declare elem_loop.simps [simp del]

subsection \<open>Beacons and probe responses\<close>

record ieee80211_scanparams =
  sp_capinfo :: u16
  sp_fhdwell :: u16
  sp_chan :: u8
  sp_bchan :: u8
  sp_fhindex :: u8
  sp_erp :: u8
  sp_bintval :: u16
  sp_timoff :: u16
  sp_tim :: "bytes option"
  sp_tstamp :: "bytes option"
  sp_country :: "bytes option"
  sp_ssid :: "bytes option"
  sp_rates :: "bytes option"
  sp_xrates :: "bytes option"
  sp_wpa :: "bytes option"
  sp_wme :: "bytes option"

definition IEEE80211_FH_CHAN :: "u8 \<Rightarrow> u8 \<Rightarrow> u8" where
  "IEEE80211_FH_CHAN s pat = (s - 1) * 80 + pat"

definition kept :: "'a com_scheme \<Rightarrow> 's \<Rightarrow> ('a com_scheme, 's) verdict" where
  "kept ic s = Some (ic, Some s)"

text \<open>The switch of the loop; \<open>mlen\<close> is the length of the frame, for the offset of the TIM element.\<close>

definition beacon_elem :: "mgmt_env \<Rightarrow> nat \<Rightarrow> 'a com_scheme \<Rightarrow> bytes \<Rightarrow> ieee80211_scanparams \<Rightarrow>
    ('a com_scheme, ieee80211_scanparams) verdict" where
  "beacon_elem e mlen ic frm scan = do {
     id \<leftarrow> rd frm 0;
     len \<leftarrow> rd frm 1;
     if id = IEEE80211_ELEMID_SSID then kept ic (scan\<lparr>sp_ssid := Some frm\<rparr>)
     else if id = IEEE80211_ELEMID_RATES then kept ic (scan\<lparr>sp_rates := Some frm\<rparr>)
     else if id = IEEE80211_ELEMID_COUNTRY then kept ic (scan\<lparr>sp_country := Some frm\<rparr>)
     else if id = IEEE80211_ELEMID_FHPARMS then
       verify_length (unat len) 5 ic
         (if me_phytype e = IEEE80211_T_FH then do {
            dwell \<leftarrow> LE_READ_2 (drop 2 frm);
            s \<leftarrow> rd frm 4;
            p \<leftarrow> rd frm 5;
            i \<leftarrow> rd frm 6;
            kept ic (scan\<lparr>sp_fhdwell := dwell, sp_chan := IEEE80211_FH_CHAN s p, sp_fhindex := i\<rparr>) }
          else kept ic scan)
     else if id = IEEE80211_ELEMID_DSPARMS then
       verify_length (unat len) 1 ic
         (if me_phytype e \<noteq> IEEE80211_T_FH then do { c \<leftarrow> rd frm 2; kept ic (scan\<lparr>sp_chan := c\<rparr>) } else kept ic scan)
     else if id = IEEE80211_ELEMID_TIM then
       verify_length (unat len) 4 ic
         (kept ic (scan\<lparr>sp_tim := Some frm, sp_timoff := of_nat (mlen - length frm)\<rparr>))
     else if id = IEEE80211_ELEMID_IBSSPARMS then kept ic scan
     else if id = IEEE80211_ELEMID_XRATES then kept ic (scan\<lparr>sp_xrates := Some frm\<rparr>)
     else if id = IEEE80211_ELEMID_ERP then
       (if len \<noteq> 1 then kept (inc_stat is_rx_elem_toobig ic) scan
        else do { v \<leftarrow> rd frm 2; kept ic (scan\<lparr>sp_erp := v\<rparr>) })
     else if id = IEEE80211_ELEMID_RSN then kept ic (scan\<lparr>sp_wpa := Some frm\<rparr>)
     else if id = IEEE80211_ELEMID_VENDOR then do {
       wpa \<leftarrow> iswpaoui frm;
       if wpa then kept ic (scan\<lparr>sp_wpa := Some frm\<rparr>)
       else do {
         par \<leftarrow> iswmeparam frm;
         wme \<leftarrow> (if par then Some True else iswmeinfo frm);
         kept ic (if wme then scan\<lparr>sp_wme := Some frm\<rparr> else scan) } }
     else kept (inc_stat is_rx_elem_unknown ic) scan }"

text \<open>\<open>isclr(a, i)\<close>.\<close>

definition isclr :: "bytes \<Rightarrow> u8 \<Rightarrow> bool option" where
  "isclr a i = do { b \<leftarrow> rd a (unat i div 8); Some (\<not> bit b (unat i mod 8)) }"

text \<open>\<open>ieee80211_recv_mgmt_beacon\<close> up to the point where the frame is counted as received.\<close>

definition beacon_check :: "mgmt_env \<Rightarrow> 'a com_scheme \<Rightarrow> ieee80211_scanparams \<Rightarrow>
    ('a com_scheme, ieee80211_scanparams) verdict" where
  "beacon_check e ic scan =
     verify_element (sp_rates scan) IEEE80211_RATE_MAXSIZE ic (\<lambda>_.
     verify_element (sp_ssid scan) IEEE80211_NWID_LEN ic (\<lambda>_. do {
       clr \<leftarrow> isclr (me_chan_active e) (sp_chan scan);
       if clr then dropped is_rx_badchan ic
       else if sp_chan scan \<noteq> sp_bchan scan \<and> me_phytype e \<noteq> IEEE80211_T_FH then dropped is_rx_chanmismatch ic
       else if \<not> (IEEE80211_BINTVAL_MIN \<le> unat (sp_bintval scan) \<and> unat (sp_bintval scan) \<le> IEEE80211_BINTVAL_MAX)
       then dropped is_rx_badbintval ic
       else kept ic scan }))"

definition zero_scan :: ieee80211_scanparams where
  "zero_scan = \<lparr>sp_capinfo = 0, sp_fhdwell = 0, sp_chan = 0, sp_bchan = 0, sp_fhindex = 0, sp_erp = 0, sp_bintval = 0,
     sp_timoff = 0, sp_tim = None, sp_tstamp = None, sp_country = None, sp_ssid = None, sp_rates = None,
     sp_xrates = None, sp_wpa = None, sp_wme = None\<rparr>"

text \<open>Continue with the values of a routine that may have dropped the frame.\<close>

definition and_then :: "('c, 's) verdict \<Rightarrow> ('c \<Rightarrow> 's \<Rightarrow> ('c, 't) verdict) \<Rightarrow> ('c, 't) verdict" where
  "and_then v k = (case v of None \<Rightarrow> None | Some (ic, None) \<Rightarrow> Some (ic, None) | Some (ic, Some s) \<Rightarrow> k ic s)"

definition beacon_scan :: "mgmt_env \<Rightarrow> u16 \<Rightarrow> 'a com_scheme \<Rightarrow> bytes \<Rightarrow> ('a com_scheme, ieee80211_scanparams) verdict" where
  "beacon_scan e associd ic m0 =
     (if \<not> (has_flag (ic_flags ic) IEEE80211_F_SCAN \<or> me_opmode e = IEEE80211_M_STA \<and> associd \<noteq> 0
            \<or> me_opmode e = IEEE80211_M_IBSS)
      then dropped is_rx_mgtdiscard ic
      else
        let frm = drop sizeof_frame m0
        in verify_length (size_sub (length m0) sizeof_frame) 12 ic (do {
          bintval \<leftarrow> LE_READ_2 (drop 8 frm);
          capinfo \<leftarrow> LE_READ_2 (drop 10 frm);
          and_then (elem_loop (beacon_elem e (length m0)) ic (drop 12 frm)
            (zero_scan\<lparr>sp_tstamp := Some frm, sp_bintval := bintval, sp_capinfo := capinfo,
               sp_bchan := me_bchan e, sp_chan := me_bchan e\<rparr>)) (beacon_check e) }))"

subsection \<open>Probe requests\<close>

record req_elems =
  re_ssid :: "bytes option"
  re_rates :: "bytes option"
  re_xrates :: "bytes option"
  re_wpa :: "bytes option"
  re_wme :: "bytes option"

definition no_elems :: req_elems where
  "no_elems = \<lparr>re_ssid = None, re_rates = None, re_xrates = None, re_wpa = None, re_wme = None\<rparr>"

definition probe_req_elem :: "'a com_scheme \<Rightarrow> bytes \<Rightarrow> req_elems \<Rightarrow> ('a com_scheme, req_elems) verdict" where
  "probe_req_elem ic frm r = do {
     id \<leftarrow> rd frm 0;
     kept ic (if id = IEEE80211_ELEMID_SSID then r\<lparr>re_ssid := Some frm\<rparr>
       else if id = IEEE80211_ELEMID_RATES then r\<lparr>re_rates := Some frm\<rparr>
       else if id = IEEE80211_ELEMID_XRATES then r\<lparr>re_xrates := Some frm\<rparr>
       else r) }"

text \<open>\<open>ieee80211_recv_mgmt_probe_req\<close> up to the choice of the node that answers.\<close>

definition probe_req_scan :: "mgmt_env \<Rightarrow> 'a com_scheme \<Rightarrow> bytes \<Rightarrow> ('a com_scheme, req_elems) verdict" where
  "probe_req_scan e ic m0 =
     (if me_opmode e = IEEE80211_M_STA \<or> me_state e \<noteq> IEEE80211_S_RUN then dropped is_rx_mgtdiscard ic
      else if IEEE80211_IS_MULTICAST (i_addr2 m0) then dropped is_rx_mgtdiscard ic
      else and_then (elem_loop probe_req_elem ic (drop sizeof_frame m0) no_elems) (\<lambda>ic r.
        verify_element (re_rates r) IEEE80211_RATE_MAXSIZE ic (\<lambda>_.
        verify_element (re_ssid r) IEEE80211_NWID_LEN ic (\<lambda>ssid.
        verify_ssid e ssid ic (do {
          l \<leftarrow> rd ssid 1;
          if has_flag (ic_flags ic) IEEE80211_F_HIDESSID \<and> l = 0 then dropped is_rx_ssidmismatch ic
          else kept ic r })))))"

subsection \<open>Association requests\<close>

definition assoc_req_elem :: "'a com_scheme \<Rightarrow> bytes \<Rightarrow> req_elems \<Rightarrow> ('a com_scheme, req_elems) verdict" where
  "assoc_req_elem ic frm r = do {
     id \<leftarrow> rd frm 0;
     if id = IEEE80211_ELEMID_SSID then kept ic (r\<lparr>re_ssid := Some frm\<rparr>)
     else if id = IEEE80211_ELEMID_RATES then kept ic (r\<lparr>re_rates := Some frm\<rparr>)
     else if id = IEEE80211_ELEMID_XRATES then kept ic (r\<lparr>re_xrates := Some frm\<rparr>)
     else if id = IEEE80211_ELEMID_RSN then kept ic (r\<lparr>re_wpa := Some frm\<rparr>)
     else if id = IEEE80211_ELEMID_VENDOR then do {
       wpa \<leftarrow> iswpaoui frm;
       if wpa then kept ic (r\<lparr>re_wpa := Some frm\<rparr>)
       else do { wme \<leftarrow> iswmeinfo frm; kept ic (if wme then r\<lparr>re_wme := Some frm\<rparr> else r) } }
     else kept ic r }"

text \<open>The fields of the station's node that the request changes, and those it takes from the BSS node.\<close>

record assoc_node =
  ni_rsn :: ieee80211_rsnparms
  ni_challenge :: "bytes option"
  ni_rates :: ieee80211_rateset
  ni_txrate :: nat
  ni_rssi :: u8
  ni_rstamp :: u32
  ni_intval :: u16
  ni_capinfo :: u16
  ni_chan :: nat
  ni_fhdwell :: u16
  ni_fhindex :: u8
  ni_wpa_ie :: "bytes option"
  ni_wme_ie :: "bytes option"
  ni_flags :: u16

text \<open>
  How a request ends: dropped, an error frame to a station that is not authenticated, a
  deauthentication with a reason or a response with a status (the node leaves in both cases),
  or the node joins.
\<close>

datatype assoc_end = Send_error u8 | Deauth_leave u8 | Refuse_leave u16 | Join

definition assoc_req_scan :: "mgmt_env \<Rightarrow> bool \<Rightarrow> 'a com_scheme \<Rightarrow> bytes \<Rightarrow>
    ('a com_scheme, u16 \<times> u16 \<times> req_elems) verdict" where
  "assoc_req_scan e reassoc ic m0 =
     (if me_opmode e \<noteq> IEEE80211_M_HOSTAP \<or> me_state e \<noteq> IEEE80211_S_RUN then dropped is_rx_mgtdiscard ic
      else
        let frm = drop sizeof_frame m0
        in verify_length (size_sub (length m0) sizeof_frame) (if reassoc then 10 else 4) ic
          (if i_addr3 m0 \<noteq> me_bssid e then dropped is_rx_assoc_bss ic
           else do {
             capinfo \<leftarrow> LE_READ_2 frm;
             lintval \<leftarrow> LE_READ_2 (drop 2 frm);
             let frm = drop 4 frm; frm = (if reassoc then drop 6 frm else frm) in
             and_then (elem_loop assoc_req_elem ic frm no_elems) (\<lambda>ic r.
               verify_element (re_rates r) IEEE80211_RATE_MAXSIZE ic (\<lambda>_.
               verify_element (re_ssid r) IEEE80211_NWID_LEN ic (\<lambda>ssid.
               verify_ssid e ssid ic (kept ic (capinfo, lintval, r))))) }))"

text \<open>The security parameters of the request: the reason to refuse it, 0 if there is none.\<close>

definition assoc_req_security :: "u32 \<Rightarrow> 'a com_scheme \<Rightarrow> req_elems \<Rightarrow> ieee80211_rsnparms \<Rightarrow>
    (u8 \<times> ieee80211_rsnparms) option" where
  "assoc_req_security ub ic r rsn =
     (case re_wpa r of
        None \<Rightarrow> Some (if has_flag (ic_flags ic) IEEE80211_F_WPA then IEEE80211_REASON_RSN_REQUIRED else 0, rsn)
      | Some wpa \<Rightarrow> do {
          id \<leftarrow> rd wpa 0;
          if id \<noteq> IEEE80211_ELEMID_RSN then ieee80211_parse_wpa ub ic wpa rsn
          else ieee80211_parse_rsn ub ic wpa rsn })"

definition rates_toobig :: "bytes \<Rightarrow> bytes option \<Rightarrow> bool" where
  "rates_toobig rates xrates =
     (case xrates of None \<Rightarrow> False | Some x \<Rightarrow> unat (rates ! 1) + unat (x ! 1) > IEEE80211_RATE_MAXSIZE)"

text \<open>
  The last part: the node takes the values of the request over.  \<open>bss\<close> is the BSS node, \<open>mem\<close>
  the outcome of the allocations for the saved elements.
\<close>

definition assoc_req_install :: "bool \<Rightarrow> assoc_node \<Rightarrow> u8 \<Rightarrow> u32 \<Rightarrow> u16 \<Rightarrow> u16 \<Rightarrow> req_elems \<Rightarrow> ieee80211_rsnparms \<Rightarrow>
    assoc_node \<Rightarrow> assoc_node" where
  "assoc_req_install mem bss rssi rstamp capinfo lintval r rsn ni =
     (let ni = ni\<lparr>ni_rssi := rssi, ni_rstamp := rstamp, ni_intval := lintval, ni_capinfo := capinfo,
                  ni_chan := ni_chan bss, ni_fhdwell := ni_fhdwell bss, ni_fhindex := ni_fhindex bss\<rparr>;
          ni = (case re_wpa r of
              Some wpa \<Rightarrow> ni\<lparr>ni_rsn := rsn, ni_wpa_ie := ieee80211_saveie mem (ni_wpa_ie ni) wpa\<rparr>
            | None \<Rightarrow> ni\<lparr>ni_wpa_ie := None\<rparr>)
      in case re_wme r of
           Some wme \<Rightarrow> ni\<lparr>ni_wme_ie := ieee80211_saveie mem (ni_wme_ie ni) wme, ni_flags := set_flag (ni_flags ni) IEEE80211_NODE_QOS\<rparr>
         | None \<Rightarrow> (if ni_wme_ie ni \<noteq> None
             then ni\<lparr>ni_wme_ie := None, ni_flags := clear_flag (ni_flags ni) IEEE80211_NODE_QOS\<rparr> else ni))"

definition assoc_req_accept :: "u32 \<Rightarrow> bool \<Rightarrow> fix_env \<Rightarrow> assoc_node \<Rightarrow> u8 \<Rightarrow> u32 \<Rightarrow> bool \<Rightarrow> assoc_node \<Rightarrow>
    'a com_scheme \<Rightarrow> u16 \<times> u16 \<times> req_elems \<Rightarrow> ('a com_scheme, assoc_end \<times> assoc_node) verdict" where
  "assoc_req_accept ub mem fe bss rssi rstamp is_bss ni ic req =
     (case req of (capinfo, lintval, r) \<Rightarrow>
      if is_bss then kept (inc_stat is_rx_assoc_notauth ic) (Send_error IEEE80211_REASON_ASSOC_NOT_AUTHED, ni)
      else do {
        (reason, rsn) \<leftarrow> assoc_req_security ub ic r (ni_rsn ni);
        if reason \<noteq> 0 then kept (inc_stat is_rx_assoc_badwpaie ic) (Deauth_leave reason, ni)
        else
          let ni = ni\<lparr>ni_challenge := None\<rparr> in
          if \<not> has_flag capinfo IEEE80211_CAPINFO_ESS
          then kept (inc_stat is_rx_assoc_capmismatch ic) (Refuse_leave IEEE80211_STATUS_CAPINFO, ni)
          else do {
            rates \<leftarrow> re_rates r;
            (rate, rs, tx) \<leftarrow> ieee80211_setup_rates fe rates (re_xrates r) (ni_txrate ni);
            let ic = (if rates_toobig rates (re_xrates r) then inc_stat is_rx_rstoobig ic else ic);
                ni = ni\<lparr>ni_rates := rs, ni_txrate := tx\<rparr> in
            if has_flag rate IEEE80211_RATE_BASIC \<or> has_flag (ic_flags ic) IEEE80211_F_PUREG \<and> rate < 48
            then kept (inc_stat is_rx_assoc_norate ic) (Refuse_leave IEEE80211_STATUS_BASIC_RATE, ni)
            else kept ic (Join, assoc_req_install mem bss rssi rstamp capinfo lintval r rsn ni) } })"

definition ieee80211_recv_mgmt_assoc_req :: "u32 \<Rightarrow> bool \<Rightarrow> fix_env \<Rightarrow> mgmt_env \<Rightarrow> assoc_node \<Rightarrow> u8 \<Rightarrow> u32 \<Rightarrow> bool \<Rightarrow>
    bool \<Rightarrow> assoc_node \<Rightarrow> 'a com_scheme \<Rightarrow> bytes \<Rightarrow> ('a com_scheme, assoc_end \<times> assoc_node) verdict" where
  "ieee80211_recv_mgmt_assoc_req ub mem fe e bss rssi rstamp reassoc is_bss ni ic m0 =
     and_then (assoc_req_scan e reassoc ic m0) (assoc_req_accept ub mem fe bss rssi rstamp is_bss ni)"

text \<open>The body of an association request as \<open>ieee80211_send_mgmt\<close> writes it, and its capability field.\<close>

definition IEEE80211_F_PRIVACY :: u32 where "IEEE80211_F_PRIVACY = 0x00000010"
definition IEEE80211_F_SHPREAMBLE :: u32 where "IEEE80211_F_SHPREAMBLE = 0x00040000"
definition IEEE80211_C_SHSLOT :: u32 where "IEEE80211_C_SHSLOT = 0x00004000"

definition assoc_req_capinfo :: "bool \<Rightarrow> bool \<Rightarrow> u16 \<Rightarrow> 'a com_scheme \<Rightarrow> u16" where
  "assoc_req_capinfo ibss chan_2ghz capinfo_ni ic =
     (let capinfo = (if ibss then IEEE80211_CAPINFO_IBSS else IEEE80211_CAPINFO_ESS);
          capinfo = (if has_flag (ic_flags ic) IEEE80211_F_PRIVACY then capinfo OR IEEE80211_CAPINFO_PRIVACY else capinfo);
          capinfo = (if has_flag (ic_flags ic) IEEE80211_F_SHPREAMBLE \<and> chan_2ghz
            then capinfo OR IEEE80211_CAPINFO_SHORT_PREAMBLE else capinfo)
      in if has_flag capinfo_ni IEEE80211_CAPINFO_SHORT_SLOTTIME \<and> has_flag (ic_caps ic) IEEE80211_C_SHSLOT
         then capinfo OR IEEE80211_CAPINFO_SHORT_SLOTTIME else capinfo)"

definition assoc_req_body :: "bool \<Rightarrow> u16 \<Rightarrow> u16 \<Rightarrow> bytes \<Rightarrow> bytes \<Rightarrow> nat \<Rightarrow> ieee80211_rateset \<Rightarrow> bool \<Rightarrow> bytes option \<Rightarrow> bytes" where
  "assoc_req_body reassoc capinfo lintval bssid essid esslen rs wme opt_ie =
     ADDSHORT capinfo @ ADDSHORT lintval @ (if reassoc then bssid else [])
     @ ieee80211_add_ssid essid esslen @ ieee80211_add_rates rs @ ieee80211_add_xrates rs
     @ (if wme then ieee80211_add_wme_info else []) @ (case opt_ie of Some ie \<Rightarrow> ie | None \<Rightarrow> [])"

subsection \<open>Association responses and beacons of the own access point\<close>

definition IEEE80211_F_SHSLOT :: u32 where "IEEE80211_F_SHSLOT = 0x00000400"

text \<open>The driver's \<open>ic_updateslot\<close> hook reads the flag and is left out.\<close>

definition ieee80211_set_shortslottime :: "bool \<Rightarrow> 'a com_scheme \<Rightarrow> 'a com_scheme" where
  "ieee80211_set_shortslottime onoff ic =
     ic\<lparr>ic_flags := if onoff then set_flag (ic_flags ic) IEEE80211_F_SHSLOT else clear_flag (ic_flags ic) IEEE80211_F_SHSLOT\<rparr>"

definition set_useprot :: "bool \<Rightarrow> 'a com_scheme \<Rightarrow> 'a com_scheme" where
  "set_useprot on ic =
     ic\<lparr>ic_flags := if on then set_flag (ic_flags ic) IEEE80211_F_USEPROT else clear_flag (ic_flags ic) IEEE80211_F_USEPROT\<rparr>"

definition set_shpreamble :: "bool \<Rightarrow> 'a com_scheme \<Rightarrow> 'a com_scheme" where
  "set_shpreamble on ic =
     ic\<lparr>ic_flags := if on then clear_flag (set_flag (ic_flags ic) IEEE80211_F_SHPREAMBLE) IEEE80211_F_USEBARKER
        else set_flag (clear_flag (ic_flags ic) IEEE80211_F_SHPREAMBLE) IEEE80211_F_USEBARKER\<rparr>"

text \<open>The BSS node as a station uses it; its \<open>ni_flags\<close> are those of \<open>ic_bss\<close>.\<close>

record sta_bss =
  sb_rates :: ieee80211_rateset
  sb_txrate :: nat
  sb_capinfo :: u16
  sb_associd :: u16
  sb_erp :: u8
  sb_tstamp :: bytes
  sb_bssid :: bytes
  sb_dtim_count :: u8
  sb_dtim_period :: u8
  sb_bmiss_count :: nat

definition upd_bss_flags :: "(u16 \<Rightarrow> u16) \<Rightarrow> wme_com \<Rightarrow> wme_com option" where
  "upd_bss_flags f ic = map_option (\<lambda>b. ic\<lparr>ic_bss := Some (b\<lparr>bss_flags := f (bss_flags b)\<rparr>)\<rparr>) (ic_bss ic)"

definition assoc_resp_elem :: "'a com_scheme \<Rightarrow> bytes \<Rightarrow> req_elems \<Rightarrow> ('a com_scheme, req_elems) verdict" where
  "assoc_resp_elem ic frm r = do {
     id \<leftarrow> rd frm 0;
     if id = IEEE80211_ELEMID_RATES then kept ic (r\<lparr>re_rates := Some frm\<rparr>)
     else if id = IEEE80211_ELEMID_XRATES then kept ic (r\<lparr>re_xrates := Some frm\<rparr>)
     else if id = IEEE80211_ELEMID_VENDOR then do {
       wme \<leftarrow> iswmeoui frm;
       kept ic (if wme then r\<lparr>re_wme := Some frm\<rparr> else r) }
     else kept ic r }"

definition assoc_resp_wme :: "bytes option \<Rightarrow> wme_com \<Rightarrow> wme_com option" where
  "assoc_resp_wme wme ic =
     (case wme of
        None \<Rightarrow> upd_bss_flags (\<lambda>f. clear_flag f IEEE80211_NODE_QOS) ic
      | Some w \<Rightarrow> do {
          (v, st) \<leftarrow> ieee80211_parse_wmeparams w (ic_wme ic);
          let ic = ic\<lparr>ic_wme := st\<rparr> in
          if v \<ge> 0 then do { ic \<leftarrow> upd_bss_flags (\<lambda>f. set_flag f IEEE80211_NODE_QOS) ic; ieee80211_wme_updateparams ic }
          else upd_bss_flags (\<lambda>f. clear_flag f IEEE80211_NODE_QOS) ic })"

definition assoc_resp_config :: "sta_bss \<Rightarrow> wme_com \<Rightarrow> wme_com" where
  "assoc_resp_config ni ic =
     (let a = (ic_curmode ic = IEEE80211_MODE_11A);
          ic = set_shpreamble (a \<or> has_flag (sb_capinfo ni) IEEE80211_CAPINFO_SHORT_PREAMBLE) ic;
          ic = ieee80211_set_shortslottime (a \<or> has_flag (sb_capinfo ni) IEEE80211_CAPINFO_SHORT_SLOTTIME) ic
      in set_useprot (ic_curmode ic = IEEE80211_MODE_11G \<and> has_flag (sb_erp ni) IEEE80211_ERP_USE_PROTECTION) ic)"

text \<open>The state the routine asks for and the node; dropped when it returns without a request.\<close>

definition assoc_resp_accept :: "fix_env \<Rightarrow> sta_bss \<Rightarrow> u16 \<Rightarrow> u16 \<Rightarrow> wme_com \<Rightarrow> req_elems \<Rightarrow>
    (wme_com, ieee80211_state \<times> sta_bss) verdict" where
  "assoc_resp_accept fe ni capinfo associd ic r =
     verify_element (re_rates r) IEEE80211_RATE_MAXSIZE ic (\<lambda>rates. do {
       (rate, rs, tx) \<leftarrow> ieee80211_setup_rates fe rates (re_xrates r) (sb_txrate ni);
       let ic = (if rates_toobig rates (re_xrates r) then inc_stat is_rx_rstoobig ic else ic);
           ni = ni\<lparr>sb_rates := rs, sb_txrate := tx\<rparr> in
       if has_flag rate IEEE80211_RATE_BASIC
       then kept (inc_stat is_rx_assoc_norate ic) (IEEE80211_S_SCAN, ni)
       else
         let ni = ni\<lparr>sb_capinfo := capinfo, sb_associd := associd\<rparr> in do {
         ic \<leftarrow> assoc_resp_wme (re_wme r) ic;
         kept (assoc_resp_config ni ic) (IEEE80211_S_RUN, ni) } })"

definition ieee80211_recv_mgmt_assoc_resp :: "fix_env \<Rightarrow> mgmt_env \<Rightarrow> sta_bss \<Rightarrow> wme_com \<Rightarrow> bytes \<Rightarrow>
    (wme_com, ieee80211_state \<times> sta_bss) verdict" where
  "ieee80211_recv_mgmt_assoc_resp fe e ni ic m0 =
     (if me_opmode e \<noteq> IEEE80211_M_STA \<or> me_state e \<noteq> IEEE80211_S_ASSOC then dropped is_rx_mgtdiscard ic
      else
        let frm = drop sizeof_frame m0
        in verify_length (size_sub (length m0) sizeof_frame) 6 ic (do {
          capinfo \<leftarrow> LE_READ_2 frm;
          status \<leftarrow> LE_READ_2 (drop 2 frm);
          if status \<noteq> 0 then dropped is_rx_auth_fail ic
          else do {
            associd \<leftarrow> LE_READ_2 (drop 4 frm);
            and_then (elem_loop assoc_resp_elem ic (drop 6 frm) no_elems) (assoc_resp_accept fe ni capinfo associd) } }))"

text \<open>
  What a beacon of the own access point changes (the block of \<open>ieee80211_recv_mgmt_beacon\<close> for an
  associated station, whose node is \<open>ic_bss\<close>; the scan module also gets the beacon during a
  background scan).  The protection and the slot time follow the values the node had before.
\<close>

definition beacon_sta_flags :: "ieee80211_scanparams \<Rightarrow> sta_bss \<Rightarrow> wme_com \<Rightarrow> wme_com \<times> sta_bss" where
  "beacon_sta_flags scan ni ic =
     (let ic = (if sb_erp ni \<noteq> sp_erp scan
           then set_useprot (ic_curmode ic = IEEE80211_MODE_11G \<and> has_flag (sb_erp ni) IEEE80211_ERP_USE_PROTECTION) ic
           else ic);
          ni = ni\<lparr>sb_erp := sp_erp scan\<rparr>
      in if has_flag (sb_capinfo ni XOR sp_capinfo scan) IEEE80211_CAPINFO_SHORT_SLOTTIME
         then (ieee80211_set_shortslottime (ic_curmode ic = IEEE80211_MODE_11A \<or>
                 has_flag (sb_capinfo ni) IEEE80211_CAPINFO_SHORT_SLOTTIME) ic, ni\<lparr>sb_capinfo := sp_capinfo scan\<rparr>)
         else (ic, ni))"

definition beacon_sta_wme :: "bytes option \<Rightarrow> wme_com \<Rightarrow> wme_com option" where
  "beacon_sta_wme wme ic =
     (case wme of
        None \<Rightarrow> Some ic
      | Some w \<Rightarrow> do {
          bss \<leftarrow> ic_bss ic;
          if has_flag (bss_flags bss) IEEE80211_NODE_QOS then do {
            (v, st) \<leftarrow> ieee80211_parse_wmeparams w (ic_wme ic);
            if v > 0 then ieee80211_wme_updateparams (ic\<lparr>ic_wme := st\<rparr>) else Some (ic\<lparr>ic_wme := st\<rparr>) }
          else Some ic })"

definition beacon_sta_tim :: "bytes option \<Rightarrow> sta_bss \<Rightarrow> sta_bss option" where
  "beacon_sta_tim tim ni =
     (case tim of
        None \<Rightarrow> Some ni
      | Some t \<Rightarrow> do { c \<leftarrow> rd t 2; p \<leftarrow> rd t 3; Some (ni\<lparr>sb_dtim_count := c, sb_dtim_period := p\<rparr>) })"

definition beacon_sta_update :: "ieee80211_scanparams \<Rightarrow> sta_bss \<Rightarrow> wme_com \<Rightarrow> (wme_com \<times> sta_bss) option" where
  "beacon_sta_update scan ni ic = do {
     ts \<leftarrow> sp_tstamp scan;
     let (ic, ni) = beacon_sta_flags scan (ni\<lparr>sb_tstamp := take 8 ts\<rparr>) ic in do {
     ic \<leftarrow> beacon_sta_wme (sp_wme scan) ic;
     ni \<leftarrow> beacon_sta_tim (sp_tim scan) ni;
     Some (ic, ni\<lparr>sb_bmiss_count := 0\<rparr>) } }"

subsection \<open>No read behind the frame\<close>

definition elem_at :: "bytes \<Rightarrow> bool" where
  "elem_at frm \<longleftrightarrow> 2 \<le> length frm \<and> unat (frm ! 1) + 2 \<le> length frm"

text \<open>A routine that does not crash, and whose values have a property if it keeps the frame.\<close>

definition safe :: "('s \<Rightarrow> bool) \<Rightarrow> ('c, 's) verdict \<Rightarrow> bool" where
  "safe Q v = (case v of None \<Rightarrow> False | Some (ic, None) \<Rightarrow> True | Some (ic, Some s) \<Rightarrow> Q s)"

named_theorems safe_rules "composition of routines that do not crash"

lemma safe_simps [simp, safe_rules]: "safe Q (dropped s ic)" "safe Q (kept ic x) \<longleftrightarrow> Q x"
  by (simp_all add: safe_def dropped_def kept_def)

lemma safe_not_None: "safe Q v \<Longrightarrow> v \<noteq> None"
  by (cases v) (simp_all add: safe_def)

lemma safe_and_then [safe_rules]:
  assumes v: "safe P v" and k: "\<And>ic s. P s \<Longrightarrow> safe Q (k ic s)"
  shows "safe Q (and_then v k)"
proof -
  obtain ic s where r: "v = Some (ic, s)" using v by (cases v) (auto simp: safe_def)
  show ?thesis
  proof (cases s)
    case None
    then show ?thesis by (simp add: r and_then_def safe_def)
  next
    case (Some t)
    then have "P t" using v r by (simp add: safe_def)
    then show ?thesis using k Some r by (simp add: and_then_def)
  qed
qed

lemma safe_if [safe_rules]: "(b \<Longrightarrow> safe Q x) \<Longrightarrow> (\<not> b \<Longrightarrow> safe Q y) \<Longrightarrow> safe Q (if b then x else y)"
  by simp

lemma safe_verify_length [safe_rules]:
  "(minlen \<le> len \<Longrightarrow> safe Q k) \<Longrightarrow> safe Q (verify_length len minlen ic k)"
  by (simp add: verify_length_def)

lemma safe_verify_element [safe_rules]:
  assumes "\<And>e. elem = Some e \<Longrightarrow> elem_at e" "\<And>e. elem = Some e \<Longrightarrow> unat (e ! 1) \<le> maxlen \<Longrightarrow> safe Q (k e)"
  shows "safe Q (verify_element elem maxlen ic k)"
  using assms by (cases elem) (auto simp: verify_element_def elem_at_def not_less)

lemma safe_verify_ssid [safe_rules]:
  assumes "elem_at ssid" "unat (ssid ! 1) \<le> IEEE80211_NWID_LEN" "wf_env e" "safe Q k"
  shows "safe Q (verify_ssid e ssid ic k)"
  using assms by (auto simp: verify_ssid_def elem_at_def wf_env_def)

lemma safe_bind [safe_rules]: "x = Some y \<Longrightarrow> safe Q (k y) \<Longrightarrow> safe Q (x \<bind> k)"
  by simp

lemma elem_loop_safe:
  assumes step: "\<And>ic frm s. elem_at frm \<Longrightarrow> P s \<Longrightarrow> safe P (step ic frm s)" and "P s"
  shows "safe P (elem_loop step ic frm s)"
  using assms(2)
proof (induction frm arbitrary: ic s rule: measure_induct_rule [where f = length])
  case (less frm)
  show ?case
  proof (cases "elem_at frm")
    case True
    then have e: "\<not> length frm \<le> 1" "\<not> length frm < unat (frm ! 1) + 2"
      by (auto simp: elem_at_def)
    then have "elem_loop step ic frm s = and_then (step ic frm s) (\<lambda>ic s. elem_loop step ic (drop (unat (frm ! 1) + 2) frm) s)"
      by (subst elem_loop.simps) (simp only: and_then_def if_False)
    moreover have "length (drop (unat (frm ! 1) + 2) frm) < length frm" using e by auto
    ultimately show ?thesis
      using less.IH by (auto intro: safe_and_then [OF step [OF True less.prems]])
  next
    case False
    then show ?thesis using less.prems by (subst elem_loop.simps) (auto simp: elem_at_def safe_def dropped_def)
  qed
qed

lemma elem_atD: "elem_at frm \<Longrightarrow> i \<le> 1 \<or> i < unat (frm ! 1) + 2 \<Longrightarrow> rd frm i = Some (frm ! i)"
  by (auto simp: elem_at_def)

lemma oui_some:
  assumes "elem_at frm" "3 \<le> minlen"
  shows "\<exists>b. is_oui minlen oui t frm = Some b"
proof -
  have "frm ! 1 > minlen \<Longrightarrow> 4 \<le> unat (frm ! 1)" using assms(2) unfolding word_less_nat_alt word_le_nat_alt by simp
  then have "frm ! 1 > minlen \<Longrightarrow> \<exists>w. LE_READ_4 (drop 2 frm) = Some w"
    using assms(1) by (intro LE_READ_some) (auto simp: elem_at_def le_diff_conv2)
  then show ?thesis using elem_atD [OF assms(1), of 1] by (auto simp: is_oui_def)
qed

lemma iswpaoui_some: "elem_at frm \<Longrightarrow> \<exists>b. iswpaoui frm = Some b" "elem_at frm \<Longrightarrow> \<exists>b. iswmeoui frm = Some b"
  by (simp_all add: iswpaoui_def iswmeoui_def oui_some)

lemma iswme_subtype_some:
  assumes "elem_at frm"
  shows "\<exists>b. iswme_subtype t frm = Some b"
proof (cases "frm ! 1 > 5")
  case True
  then have "6 < unat (frm ! 1) + 2" by (simp add: word_less_nat_alt)
  then have "rd frm 6 = Some (frm ! 6)" using elem_atD [OF assms, of 6] by simp
  moreover obtain b where "is_oui 5 WME_OUI WME_OUI_TYPE frm = Some b" using oui_some [OF assms, of 5] by auto
  ultimately show ?thesis by (cases b) (auto simp: iswme_subtype_def)
next
  case False
  then show ?thesis using elem_atD [OF assms, of 1] by (auto simp: iswme_subtype_def is_oui_def)
qed

text \<open>The elements a routine keeps are complete elements of the frame.\<close>

definition ptr_ok :: "bytes option \<Rightarrow> bool" where
  "ptr_ok p \<longleftrightarrow> (\<forall>e. p = Some e \<longrightarrow> elem_at e)"

lemma ptr_ok_simps [simp]: "ptr_ok None" "ptr_ok (Some e) \<longleftrightarrow> elem_at e"
  by (simp_all add: ptr_ok_def)

definition scan_ok :: "ieee80211_scanparams \<Rightarrow> bool" where
  "scan_ok s \<longleftrightarrow> ptr_ok (sp_ssid s) \<and> ptr_ok (sp_rates s) \<and> ptr_ok (sp_xrates s) \<and> ptr_ok (sp_wpa s) \<and>
     ptr_ok (sp_wme s) \<and> sp_tstamp s \<noteq> None \<and> (\<forall>e. sp_tim s = Some e \<longrightarrow> elem_at e \<and> 4 \<le> unat (e ! 1))"

definition req_ok :: "req_elems \<Rightarrow> bool" where
  "req_ok r \<longleftrightarrow> ptr_ok (re_ssid r) \<and> ptr_ok (re_rates r) \<and> ptr_ok (re_xrates r) \<and> ptr_ok (re_wpa r) \<and> ptr_ok (re_wme r)"

lemma elem_at_rd: "elem_at frm \<Longrightarrow> rd frm 0 = Some (frm ! 0)" "elem_at frm \<Longrightarrow> rd frm 1 = Some (frm ! 1)"
  using elem_atD [of frm 0] elem_atD [of frm 1] by simp_all

lemma scan_ok_upd:
  assumes "scan_ok s" "elem_at frm"
  shows "scan_ok (s\<lparr>sp_ssid := Some frm\<rparr>)" "scan_ok (s\<lparr>sp_rates := Some frm\<rparr>)" "scan_ok (s\<lparr>sp_xrates := Some frm\<rparr>)"
    "scan_ok (s\<lparr>sp_wpa := Some frm\<rparr>)" "scan_ok (s\<lparr>sp_wme := Some frm\<rparr>)" "scan_ok (s\<lparr>sp_country := Some frm\<rparr>)"
    "scan_ok (s\<lparr>sp_fhdwell := d, sp_chan := c, sp_fhindex := i\<rparr>)" "scan_ok (s\<lparr>sp_chan := c\<rparr>)" "scan_ok (s\<lparr>sp_erp := v\<rparr>)"
    "4 \<le> unat (frm ! 1) \<Longrightarrow> scan_ok (s\<lparr>sp_tim := Some frm, sp_timoff := t\<rparr>)"
  using assms by (simp_all add: scan_ok_def)

lemma beacon_elem_safe:
  assumes "elem_at frm" "scan_ok s"
  shows "safe scan_ok (beacon_elem e mlen ic frm s)"
proof -
  obtain a b c where o: "iswpaoui frm = Some a" "iswmeparam frm = Some b" "iswmeinfo frm = Some c"
    using assms(1) iswpaoui_some iswme_subtype_some unfolding iswmeparam_def iswmeinfo_def by metis
  have r: "i < unat (frm ! 1) + 2 \<Longrightarrow> rd frm i = Some (frm ! i)" for i
    using assms(1) by (auto simp: elem_at_def)
  have fh: "safe scan_ok (verify_length (unat (frm ! 1)) 5 ic
      (if me_phytype e = IEEE80211_T_FH then do {
            dwell \<leftarrow> LE_READ_2 (drop 2 frm);
            s' \<leftarrow> rd frm 4;
            p \<leftarrow> rd frm 5;
            i \<leftarrow> rd frm 6;
            kept ic (s\<lparr>sp_fhdwell := dwell, sp_chan := IEEE80211_FH_CHAN s' p, sp_fhindex := i\<rparr>) }
          else kept ic s))"
  proof (intro safe_verify_length)
    assume len: "5 \<le> unat (frm ! 1)"
    then obtain v where "LE_READ_2 (drop 2 frm) = Some v"
      using assms(1) LE_READ_some(1) [of "drop 2 frm"] by (auto simp: elem_at_def le_diff_conv2)
    then show "safe scan_ok (if me_phytype e = IEEE80211_T_FH then do {
            dwell \<leftarrow> LE_READ_2 (drop 2 frm);
            s' \<leftarrow> rd frm 4;
            p \<leftarrow> rd frm 5;
            i \<leftarrow> rd frm 6;
            kept ic (s\<lparr>sp_fhdwell := dwell, sp_chan := IEEE80211_FH_CHAN s' p, sp_fhindex := i\<rparr>) }
          else kept ic s)"
      using len assms by (simp add: r scan_ok_upd [OF assms(2,1)])
  qed
  have erp: "frm ! 1 = 1 \<Longrightarrow> rd frm 2 = Some (frm ! 2)" using r [of 2] by simp
  show ?thesis
    unfolding beacon_elem_def elem_at_rd [OF assms(1)] bind.bind_lunit o
    by (intro safe_if fh safe_verify_length) (simp_all add: scan_ok_upd [OF assms(2,1)] scan_ok_upd(10) [OF assms(2,1), unfolded One_nat_def] assms r erp o)
qed

lemma req_elem_safe:
  assumes "elem_at frm" "req_ok r"
  shows "safe req_ok (probe_req_elem ic frm r)" "safe req_ok (assoc_req_elem ic frm r)" "safe req_ok (assoc_resp_elem ic frm r)"
proof -
  obtain a b c where "iswpaoui frm = Some a" "iswmeoui frm = Some b" "iswmeinfo frm = Some c"
    using assms(1) iswpaoui_some iswme_subtype_some unfolding iswmeinfo_def by metis
  then show "safe req_ok (probe_req_elem ic frm r)" "safe req_ok (assoc_req_elem ic frm r)" "safe req_ok (assoc_resp_elem ic frm r)"
    using assms by (simp_all add: probe_req_elem_def assoc_req_elem_def assoc_resp_elem_def elem_at_rd req_ok_def)
qed

lemma no_elems_ok: "req_ok no_elems"
  by (simp add: req_ok_def no_elems_def)

lemma isclr_some: "wf_env e \<Longrightarrow> \<exists>b. isclr (me_chan_active e) c = Some b"
proof -
  have "unat c < 256" using unsigned_less [of c] by simp
  then show "wf_env e \<Longrightarrow> ?thesis" by (simp add: isclr_def wf_env_def IEEE80211_CHAN_BYTES_def less_mult_imp_div_less)
qed

lemma beacon_scan_safe:
  assumes "wf_env e" "sizeof_frame \<le> length m0"
  shows "safe scan_ok (beacon_scan e associd ic m0)"
proof -
  define frm where "frm = drop sizeof_frame m0"
  have chk: "safe scan_ok (beacon_check e ic s)" if "scan_ok s" for ic s
  proof -
    obtain b where "isclr (me_chan_active e) (sp_chan s) = Some b" using isclr_some [OF assms(1)] by blast
    then show ?thesis
      using that unfolding beacon_check_def
      by (intro safe_verify_element) (auto simp: scan_ok_def)
  qed
  have sc: "safe scan_ok (and_then (elem_loop (beacon_elem e (length m0)) ic (drop 12 frm)
      (zero_scan\<lparr>sp_tstamp := Some frm, sp_bintval := b, sp_capinfo := c, sp_bchan := me_bchan e, sp_chan := me_bchan e\<rparr>))
      (beacon_check e))" for b c
    by (rule safe_and_then [where P = scan_ok], rule elem_loop_safe, erule (1) beacon_elem_safe)
      (simp_all add: chk scan_ok_def zero_scan_def)
  have "12 \<le> length frm \<Longrightarrow> \<exists>v. LE_READ_2 (drop 8 frm) = Some v" "12 \<le> length frm \<Longrightarrow> \<exists>v. LE_READ_2 (drop 10 frm) = Some v"
    by (intro LE_READ_some; simp)+
  then show ?thesis
    using assms(2) sc by (auto simp: beacon_scan_def Let_def verify_length_def simp flip: frm_def) (auto simp: frm_def)
qed

lemma setup_rates_some:
  assumes "unat (rates ! 1) \<le> IEEE80211_RATE_MAXSIZE"
  shows "\<exists>rate rs tx. ieee80211_setup_rates fe rates xrates t = Some (rate, rs, tx)"
proof -
  have "setup_rates rates xrates \<noteq> None" using assms by (simp add: setup_rates_def Let_def split: option.split)
  then show ?thesis unfolding ieee80211_setup_rates_def by (metis not_None_eq option.map(2) prod.exhaust)
qed

lemma assoc_req_accept_safe:
  assumes "\<And>rates. re_rates (snd (snd req)) = Some rates \<Longrightarrow> unat (rates ! 1) \<le> IEEE80211_RATE_MAXSIZE"
    and "re_rates (snd (snd req)) \<noteq> None" "req_ok (snd (snd req))"
  shows "assoc_req_accept ub mem fe bss rssi rstamp is_bss ni ic req \<noteq> None"
proof -
  obtain c l r where req: "req = (c, l, r)" by (metis prod.exhaust)
  obtain rates where rates: "re_rates r = Some rates" "unat (rates ! 1) \<le> IEEE80211_RATE_MAXSIZE"
    using assms(1,2) by (auto simp: req)
  obtain rate rset tx where fx: "ieee80211_setup_rates fe rates (re_xrates r) (ni_txrate ni) = Some (rate, rset, tx)"
    using setup_rates_some [OF rates(2)] by blast
  have "assoc_req_security ub ic r (ni_rsn ni) \<noteq> None"
  proof (cases "re_wpa r")
    case (Some w)
    then have w: "elem_at w" using assms(3) by (simp add: req req_ok_def)
    then show ?thesis
      using parse_security_safe [of w ub ic "ni_rsn ni"]
      by (simp add: assoc_req_security_def Some elem_at_rd elem_at_def)
  qed (simp add: assoc_req_security_def)
  then obtain reason rsn where "assoc_req_security ub ic r (ni_rsn ni) = Some (reason, rsn)" by auto
  then show ?thesis
    using rates(1) fx by (simp add: req assoc_req_accept_def Let_def kept_def)
qed

lemma assoc_req_scan_safe:
  assumes "wf_env e" "sizeof_frame \<le> length m0"
  shows "safe (\<lambda>(c, l, r). req_ok r \<and> (\<exists>rates. re_rates r = Some rates \<and> unat (rates ! 1) \<le> IEEE80211_RATE_MAXSIZE))
    (assoc_req_scan e reassoc ic m0)" (is "safe ?Q _")
proof -
  define frm where "frm = drop sizeof_frame m0"
  have loop: "safe req_ok (elem_loop assoc_req_elem ic f no_elems)" for f
    by (intro elem_loop_safe req_elem_safe no_elems_ok)
  have chk: "safe ?Q (verify_element (re_rates r) IEEE80211_RATE_MAXSIZE ic (\<lambda>_.
      verify_element (re_ssid r) IEEE80211_NWID_LEN ic (\<lambda>ssid. verify_ssid e ssid ic (kept ic (c, l, r)))))"
    if "req_ok r" for r c l ic
    using that assms(1) by (intro safe_verify_element safe_verify_ssid) (auto simp: req_ok_def)
  have rest: "safe ?Q (and_then (elem_loop assoc_req_elem ic f no_elems) (\<lambda>ic r.
      verify_element (re_rates r) IEEE80211_RATE_MAXSIZE ic (\<lambda>_.
      verify_element (re_ssid r) IEEE80211_NWID_LEN ic (\<lambda>ssid. verify_ssid e ssid ic (kept ic (c, l, r))))))" for f c l
    by (rule safe_and_then [OF loop]) (rule chk)
  have read: "4 \<le> length frm \<Longrightarrow> \<exists>v. LE_READ_2 frm = Some v" "4 \<le> length frm \<Longrightarrow> \<exists>v. LE_READ_2 (drop 2 frm) = Some v"
    by (intro LE_READ_some; simp)+
  have size: "size_sub (length m0) sizeof_frame = length frm" using assms(2) by (simp add: frm_def)
  show ?thesis
    unfolding assoc_req_scan_def Let_def frm_def [symmetric] size
  proof (intro safe_if safe_verify_length safe_simps(1))
    assume "(if reassoc then 10 else 4) \<le> length frm"
    then obtain c l where "LE_READ_2 frm = Some c" "LE_READ_2 (drop 2 frm) = Some l"
      using read by (cases reassoc) auto
    then show "safe ?Q (do {
        capinfo \<leftarrow> LE_READ_2 frm;
        lintval \<leftarrow> LE_READ_2 (drop 2 frm);
        and_then (elem_loop assoc_req_elem ic (if reassoc then drop 6 (drop 4 frm) else drop 4 frm) no_elems) (\<lambda>ic r.
          verify_element (re_rates r) IEEE80211_RATE_MAXSIZE ic (\<lambda>_.
          verify_element (re_ssid r) IEEE80211_NWID_LEN ic (\<lambda>ssid. verify_ssid e ssid ic (kept ic (capinfo, lintval, r))))) })"
      by (simp only: bind.bind_lunit rest)
  qed
qed

lemma assoc_req_safe:
  assumes "wf_env e" "sizeof_frame \<le> length m0"
  shows "ieee80211_recv_mgmt_assoc_req ub mem fe e bss rssi rstamp reassoc is_bss ni ic m0 \<noteq> None"
proof -
  have "safe (\<lambda>_. True) (ieee80211_recv_mgmt_assoc_req ub mem fe e bss rssi rstamp reassoc is_bss ni ic m0)"
    unfolding ieee80211_recv_mgmt_assoc_req_def
  proof (rule safe_and_then [OF assoc_req_scan_safe [OF assms]])
    fix ic :: "'a com_scheme" and req :: "u16 \<times> u16 \<times> req_elems"
    assume q: "case req of (c, l, r) \<Rightarrow> req_ok r \<and> (\<exists>rates. re_rates r = Some rates \<and> unat (rates ! 1) \<le> IEEE80211_RATE_MAXSIZE)"
    then have "assoc_req_accept ub mem fe bss rssi rstamp is_bss ni ic req \<noteq> None"
      by (intro assoc_req_accept_safe) (auto split: prod.splits)
    then show "safe (\<lambda>_. True) (assoc_req_accept ub mem fe bss rssi rstamp is_bss ni ic req)"
      by (auto simp: safe_def split: option.split)
  qed
  then show ?thesis by (rule safe_not_None)
qed

lemma probe_req_safe:
  assumes "wf_env e"
  shows "probe_req_scan e ic m0 \<noteq> None"
proof -
  have loop: "safe req_ok (elem_loop probe_req_elem ic f no_elems)" for f
    by (intro elem_loop_safe req_elem_safe no_elems_ok)
  have "safe req_ok (probe_req_scan e ic m0)"
    unfolding probe_req_scan_def
    using assms by (intro safe_if safe_simps(1) safe_and_then [OF loop] safe_verify_element safe_verify_ssid)
      (auto simp: req_ok_def elem_at_rd [unfolded One_nat_def])
  then show ?thesis by (rule safe_not_None)
qed

lemma parse_acs_some:
  assumes "4 * length is \<le> length frm"
  shows "\<exists>c'. parse_acs is frm c = Some c'"
  using assms
proof (induction "is" arbitrary: frm c)
  case (Cons i "is")
  have "2 \<le> length (drop 2 frm)" using Cons.prems by simp
  then obtain t where "LE_READ_2 (drop 2 frm) = Some t" using LE_READ_some(1) by blast
  moreover have "0 < length frm" "1 < length frm" using Cons.prems by auto
  then have "rd frm 0 = Some (frm ! 0)" "rd frm 1 = Some (frm ! 1)" by simp_all
  ultimately show ?case using Cons.IH [of "drop 4 frm"] Cons.prems by simp
qed simp

lemma parse_wmeparams_some:
  assumes "elem_at frm"
  shows "\<exists>v st'. ieee80211_parse_wmeparams frm st = Some (v, st')"
proof (cases "unat (frm ! 1) < sizeof_wme_param - 2")
  case True
  then show ?thesis using elem_at_rd(2) [OF assms] by (simp add: ieee80211_parse_wmeparams_def)
next
  case False
  then have len: "26 \<le> length frm" using assms by (simp add: sizeof_wme_param_def elem_at_def)
  then have "4 * length [0..<WME_NUM_AC] \<le> length (drop 10 frm)" by (simp add: WME_NUM_AC_def)
  then obtain c where "parse_acs [0..<WME_NUM_AC] (drop 10 frm) (wme_wmeChanParams st) = Some c"
    using parse_acs_some by blast
  moreover have "rd frm 8 = Some (frm ! 8)" using len by simp
  ultimately show ?thesis
    using False elem_at_rd(2) [OF assms] by (simp add: ieee80211_parse_wmeparams_def Let_def)
qed

lemma updateparams_some: "ic_bss ic \<noteq> None \<Longrightarrow> \<exists>ic'. ieee80211_wme_updateparams ic = Some ic'"
  by (auto simp: ieee80211_wme_updateparams_def ieee80211_wme_updateparams_locked_def Let_def)

lemma assoc_resp_wme_some:
  assumes "ic_bss ic \<noteq> None" "ptr_ok wme"
  shows "\<exists>ic'. assoc_resp_wme wme ic = Some ic'"
proof (cases wme)
  case None
  then show ?thesis using assms(1) by (auto simp: assoc_resp_wme_def upd_bss_flags_def)
next
  case (Some w)
  obtain v st where p: "ieee80211_parse_wmeparams w (ic_wme ic) = Some (v, st)"
    using parse_wmeparams_some assms(2) Some by fastforce
  obtain b where b: "ic_bss ic = Some b" using assms(1) by blast
  show ?thesis
    using updateparams_some [of "ic\<lparr>ic_wme := st, ic_bss := Some (b\<lparr>bss_flags := set_flag (bss_flags b) IEEE80211_NODE_QOS\<rparr>)\<rparr>"]
    by (simp add: assoc_resp_wme_def Some p b upd_bss_flags_def Let_def)
qed

lemma bss_inc_stat [simp]: "ic_bss (inc_stat s ic) = ic_bss ic"
  by (simp add: inc_stat_def)

text \<open>A loop whose step never changes the device.\<close>

lemma elem_loop_kept:
  assumes step: "\<And>frm s. elem_at frm \<Longrightarrow> P s \<Longrightarrow> \<exists>s'. step ic frm s = kept ic s' \<and> P s'" and "P s"
  shows "elem_loop step ic frm s = dropped is_rx_elem_toosmall ic \<or> (\<exists>s'. elem_loop step ic frm s = kept ic s' \<and> P s')"
  using assms(2)
proof (induction frm arbitrary: s rule: measure_induct_rule [where f = length])
  case (less frm)
  show ?case
  proof (cases "elem_at frm")
    case True
    then obtain s' where s: "step ic frm s = kept ic s'" "P s'" using step less.prems by blast
    have e: "\<not> length frm \<le> 1" "\<not> length frm < unat (frm ! 1) + 2" using True by (auto simp: elem_at_def)
    then have "elem_loop step ic frm s = elem_loop step ic (drop (unat (frm ! 1) + 2) frm) s'"
      by (subst elem_loop.simps) (simp only: s kept_def if_False option.case prod.case)
    then show ?thesis using less.IH [of "drop (unat (frm ! 1) + 2) frm" s'] s(2) e by auto
  next
    case False
    then have "elem_loop step ic frm s = dropped is_rx_elem_toosmall ic \<or> elem_loop step ic frm s = kept ic s"
      by (subst elem_loop.simps, subst elem_loop.simps) (auto simp: elem_at_def kept_def)
    then show ?thesis using less.prems by blast
  qed
qed

lemma assoc_resp_step:
  assumes "elem_at frm" "req_ok r"
  shows "\<exists>r'. assoc_resp_elem ic frm r = kept ic r' \<and> req_ok r'"
proof -
  obtain b where "iswmeoui frm = Some b" using assms(1) iswpaoui_some by blast
  then show ?thesis
    using assms by (auto simp: assoc_resp_elem_def elem_at_rd req_ok_def)
qed

lemma assoc_resp_accept_some:
  assumes "ic_bss ic \<noteq> None" "req_ok r"
  shows "assoc_resp_accept fe ni capinfo associd ic r \<noteq> None"
proof (cases "re_rates r")
  case (Some rates)
  have el: "rd rates 1 = Some (rates ! 1)" using assms(2) Some elem_at_rd(2) by (simp add: req_ok_def)
  have w: "\<exists>ic'. assoc_resp_wme (re_wme r) ic = Some ic'" "\<exists>ic'. assoc_resp_wme (re_wme r) (inc_stat is_rx_rstoobig ic) = Some ic'"
    using assms by (intro assoc_resp_wme_some; simp add: req_ok_def)+
  show ?thesis
  proof (cases "unat (rates ! 1) \<le> IEEE80211_RATE_MAXSIZE")
    case True
    then obtain rate rs tx where "ieee80211_setup_rates fe rates (re_xrates r) (sb_txrate ni) = Some (rate, rs, tx)"
      using setup_rates_some by blast
    then show ?thesis
      using el w True by (auto simp: assoc_resp_accept_def verify_element_def Some dropped_def kept_def Let_def)
  qed (use el in \<open>simp add: assoc_resp_accept_def verify_element_def Some dropped_def\<close>)
qed (simp add: assoc_resp_accept_def verify_element_def dropped_def)

lemma assoc_resp_safe:
  assumes "ic_bss ic \<noteq> None" "sizeof_frame \<le> length m0"
  shows "ieee80211_recv_mgmt_assoc_resp fe e ni ic m0 \<noteq> None"
proof -
  define frm where "frm = drop sizeof_frame m0"
  have loop: "and_then (elem_loop assoc_resp_elem ic f no_elems) (assoc_resp_accept fe ni c a) \<noteq> None" for f c a
    using elem_loop_kept [where step = assoc_resp_elem and ic = ic and frm = f, OF assoc_resp_step no_elems_ok]
      assoc_resp_accept_some [OF assms(1)]
    by (auto simp: and_then_def dropped_def kept_def)
  have "6 \<le> length frm \<Longrightarrow> \<exists>v. LE_READ_2 frm = Some v" "6 \<le> length frm \<Longrightarrow> \<exists>v. LE_READ_2 (drop 2 frm) = Some v"
    "6 \<le> length frm \<Longrightarrow> \<exists>v. LE_READ_2 (drop 4 frm) = Some v"
    by (intro LE_READ_some; simp)+
  moreover have "size_sub (length m0) sizeof_frame = length frm" using assms(2) by (simp add: frm_def)
  ultimately show ?thesis
    using loop unfolding ieee80211_recv_mgmt_assoc_resp_def Let_def [of "drop sizeof_frame m0"]
    by (auto simp: verify_length_def dropped_def simp flip: frm_def)
qed

lemma beacon_sta_wme_some:
  assumes "ic_bss ic \<noteq> None" "ptr_ok wme"
  shows "\<exists>ic'. beacon_sta_wme wme ic = Some ic'"
proof (cases wme)
  case (Some w)
  obtain v st where p: "ieee80211_parse_wmeparams w (ic_wme ic) = Some (v, st)"
    using parse_wmeparams_some assms(2) Some by fastforce
  obtain b where "ic_bss ic = Some b" using assms(1) by blast
  then show ?thesis
    using updateparams_some [of "ic\<lparr>ic_wme := st\<rparr>"] by (simp add: beacon_sta_wme_def Some p)
qed (simp add: beacon_sta_wme_def)

lemma beacon_sta_update_safe:
  assumes "ic_bss ic \<noteq> None" "scan_ok scan"
  shows "beacon_sta_update scan ni ic \<noteq> None"
proof -
  obtain ts where ts: "sp_tstamp scan = Some ts" using assms(2) by (auto simp: scan_ok_def)
  obtain ic1 ni1 where f: "beacon_sta_flags scan (ni\<lparr>sb_tstamp := take 8 ts\<rparr>) ic = (ic1, ni1)" by fastforce
  have "ic_bss ic1 = ic_bss ic"
    using arg_cong [OF f, of "ic_bss \<circ> fst"]
    by (simp add: beacon_sta_flags_def set_useprot_def ieee80211_set_shortslottime_def Let_def split: if_splits)
  then obtain ic2 where w: "beacon_sta_wme (sp_wme scan) ic1 = Some ic2"
    using beacon_sta_wme_some [of ic1 "sp_wme scan"] assms by (auto simp: scan_ok_def)
  have "\<exists>ni2. beacon_sta_tim (sp_tim scan) ni1 = Some ni2"
    using assms(2) by (cases "sp_tim scan") (simp_all add: beacon_sta_tim_def scan_ok_def elem_at_def)
  then show ?thesis using w f by (auto simp: beacon_sta_update_def ts)
qed

text \<open>The routines only count in the device: its BSS node stays.\<close>

definition keeps_bss :: "wme_bss option \<Rightarrow> (wme_com, 's) verdict \<Rightarrow> bool" where
  "keeps_bss b v \<longleftrightarrow> (\<forall>ic s. v = Some (ic, s) \<longrightarrow> ic_bss ic = b)"

lemma keeps_bss_rules:
  "ic_bss ic = b \<Longrightarrow> keeps_bss b (kept ic s)"
  "ic_bss ic = b \<Longrightarrow> keeps_bss b (dropped st ic)"
  "ic_bss ic = b \<Longrightarrow> keeps_bss b k \<Longrightarrow> keeps_bss b (verify_length len minlen ic k)"
  "ic_bss ic = b \<Longrightarrow> (\<And>e. keeps_bss b (f e)) \<Longrightarrow> keeps_bss b (verify_element el maxlen ic f)"
  "(\<And>y. keeps_bss b (g y)) \<Longrightarrow> keeps_bss b (x \<bind> g)"
  "keeps_bss b k \<Longrightarrow> keeps_bss b k' \<Longrightarrow> keeps_bss b (if c then k else k')"
  "keeps_bss b v \<Longrightarrow> (\<And>ic s. ic_bss ic = b \<Longrightarrow> keeps_bss b (h ic s)) \<Longrightarrow> keeps_bss b (and_then v h)"
proof -
  show "ic_bss ic = b \<Longrightarrow> (\<And>e. keeps_bss b (f e)) \<Longrightarrow> keeps_bss b (verify_element el maxlen ic f)"
    by (cases el; cases "rd (the el) 1") (simp_all add: verify_element_def keeps_bss_def dropped_def)
  show "(\<And>y. keeps_bss b (g y)) \<Longrightarrow> keeps_bss b (x \<bind> g)" by (cases x) (simp_all add: keeps_bss_def)
  show "keeps_bss b (and_then v h)" if v: "keeps_bss b v" and h: "\<And>ic s. ic_bss ic = b \<Longrightarrow> keeps_bss b (h ic s)"
  proof (cases v)
    case None
    then show ?thesis by (simp add: and_then_def keeps_bss_def)
  next
    case (Some p)
    obtain i t where p: "p = (i, t)" by fastforce
    have i: "ic_bss i = b" using v unfolding Some p keeps_bss_def by simp
    show ?thesis
    proof (cases t)
      case None
      then show ?thesis using i by (simp add: and_then_def Some p keeps_bss_def)
    next
      fix s assume "t = Some s"
      then show ?thesis using h [OF i] by (simp add: and_then_def Some p)
    qed
  qed
qed (simp_all add: keeps_bss_def kept_def dropped_def verify_length_def)

lemma elem_loop_keeps_bss:
  assumes step: "\<And>ic frm s. ic_bss ic = b \<Longrightarrow> keeps_bss b (step ic frm s)" and "ic_bss ic = b"
  shows "keeps_bss b (elem_loop step ic frm s)"
  using assms(2)
proof (induction frm arbitrary: ic s rule: measure_induct_rule [where f = length])
  case (less frm)
  show ?case
  proof (cases "elem_at frm")
    case True
    then have e: "\<not> length frm \<le> 1" "\<not> length frm < unat (frm ! 1) + 2"
      by (auto simp: elem_at_def)
    then have "elem_loop step ic frm s = and_then (step ic frm s) (\<lambda>ic s. elem_loop step ic (drop (unat (frm ! 1) + 2) frm) s)"
      by (subst elem_loop.simps) (simp only: and_then_def if_False)
    moreover have "length (drop (unat (frm ! 1) + 2) frm) < length frm" using e by auto
    ultimately show ?thesis
      by (simp only: keeps_bss_rules(7) [OF step [OF less.prems]] less.IH)
  next
    case False
    then show ?thesis
      using less.prems by (subst elem_loop.simps) (auto simp: elem_at_def keeps_bss_def dropped_def)
  qed
qed

lemma beacon_scan_keeps_bss: "keeps_bss (ic_bss ic) (beacon_scan e associd ic m0)"
proof -
  have "keeps_bss b (beacon_elem e mlen ic frm s)" if "ic_bss ic = b" for b mlen frm s and ic :: wme_com
    unfolding beacon_elem_def using that by (intro keeps_bss_rules) simp_all
  moreover have "keeps_bss b (beacon_check e ic s)" if "ic_bss ic = b" for b s and ic :: wme_com
    unfolding beacon_check_def using that by (intro keeps_bss_rules) simp_all
  ultimately show ?thesis
    unfolding beacon_scan_def Let_def by (intro keeps_bss_rules elem_loop_keeps_bss) simp_all
qed


subsection \<open>An association request and its outcome\<close>

text \<open>A complete element and nothing else.\<close>

definition tlv :: "bytes \<Rightarrow> bool" where
  "tlv t \<longleftrightarrow> 2 \<le> length t \<and> length t = unat (t ! 1) + 2"

lemma tlv_elem_at: "tlv t \<Longrightarrow> elem_at (t @ p)" "tlv t \<Longrightarrow> (t @ p) ! 0 = t ! 0" "tlv t \<Longrightarrow> (t @ p) ! 1 = t ! 1"
  by (auto simp: tlv_def elem_at_def nth_append)

lemma elem_loop_tlv:
  assumes "tlv t"
  shows "elem_loop step ic (t @ p) s = and_then (step ic (t @ p) s) (\<lambda>ic s. elem_loop step ic p s)"
proof -
  have "\<not> length (t @ p) \<le> 1" "\<not> length (t @ p) < unat ((t @ p) ! 1) + 2" "drop (unat ((t @ p) ! 1) + 2) (t @ p) = p"
    using assms by (auto simp: tlv_def nth_append)
  then show ?thesis by (subst elem_loop.simps) (simp only: and_then_def if_False)
qed

lemma elem_loop_Nil: "elem_loop step ic [] s = kept ic s"
  by (subst elem_loop.simps) (simp add: kept_def)

lemma unat_of_nat_u8: "n < 256 \<Longrightarrow> unat (of_nat n :: u8) = n"
  by (simp add: unsigned_of_nat take_bit_nat_eq_self)

lemma tlv_elements:
  "length essid = IEEE80211_NWID_LEN \<Longrightarrow> n \<le> IEEE80211_NWID_LEN \<Longrightarrow> tlv (ieee80211_add_ssid essid n)"
  "wf_rateset rs \<Longrightarrow> tlv (ieee80211_add_rates rs)"
  "wf_rateset rs \<Longrightarrow> ieee80211_add_xrates rs \<noteq> [] \<Longrightarrow> tlv (ieee80211_add_xrates rs)"
  "tlv ieee80211_add_wme_info"
  by (auto simp: tlv_def ieee80211_add_ssid_def ieee80211_add_rates_def ieee80211_add_xrates_def
      ieee80211_add_wme_info_def IEEE80211_NWID_LEN_def wf_rateset_def rate_defs Let_def unat_of_nat_u8
      sizeof_wme_info_def WME_OUI_BYTES_def simp del: of_nat_diff split: if_splits)

lemma assoc_req_elem_tlv:
  "assoc_req_elem ic (ieee80211_add_ssid essid n @ p) r = kept ic (r\<lparr>re_ssid := Some (ieee80211_add_ssid essid n @ p)\<rparr>)"
  "assoc_req_elem ic (ieee80211_add_rates rs @ p) r = kept ic (r\<lparr>re_rates := Some (ieee80211_add_rates rs @ p)\<rparr>)"
  "ieee80211_add_xrates rs \<noteq> [] \<Longrightarrow>
     assoc_req_elem ic (ieee80211_add_xrates rs @ p) r = kept ic (r\<lparr>re_xrates := Some (ieee80211_add_xrates rs @ p)\<rparr>)"
  "assoc_req_elem ic (ieee80211_add_wme_info @ p) r = kept ic (r\<lparr>re_wme := Some (ieee80211_add_wme_info @ p)\<rparr>)"
  by (simp_all add: assoc_req_elem_def ieee80211_add_ssid_def ieee80211_add_rates_def ieee80211_add_xrates_def
      ieee80211_add_wme_info_def mgmt_elem_defs IEEE80211_ELEMID_RATES_def IEEE80211_ELEMID_XRATES_def Let_def
      sizeof_wme_info_def WME_OUI_BYTES_def iswpaoui_def iswmeinfo_def iswme_subtype_def is_oui_def
      LE_READ_4_def oui_defs split: if_splits)

text \<open>The element the supplicant adds to the request: an RSN or a WPA element, or none.\<close>

definition opt_ie_ok :: "bytes option \<Rightarrow> bool" where
  "opt_ie_ok opt_ie \<longleftrightarrow> (\<forall>ie. opt_ie = Some ie \<longrightarrow> tlv ie \<and>
     (ie ! 0 = IEEE80211_ELEMID_RSN \<or> ie ! 0 = IEEE80211_ELEMID_VENDOR \<and> iswpaoui ie = Some True))"

lemma assoc_req_elem_opt:
  assumes "opt_ie_ok (Some ie)"
  shows "assoc_req_elem ic ie r = kept ic (r\<lparr>re_wpa := Some ie\<rparr>)"
proof -
  have "elem_at ie" using assms tlv_elem_at(1) [of ie "[]"] by (simp add: opt_ie_ok_def)
  then show ?thesis
    using assms by (auto simp: opt_ie_ok_def assoc_req_elem_def elem_at_rd mgmt_elem_defs)
qed

text \<open>What the access point reads from the elements of a request.\<close>

definition req_elems_of :: "bytes \<Rightarrow> nat \<Rightarrow> ieee80211_rateset \<Rightarrow> bool \<Rightarrow> bytes option \<Rightarrow> req_elems" where
  "req_elems_of essid esslen rs wme opt_ie =
     (let ie = (case opt_ie of Some ie \<Rightarrow> ie | None \<Rightarrow> []);
          w = (if wme then ieee80211_add_wme_info else []) @ ie;
          x = ieee80211_add_xrates rs @ w;
          rt = ieee80211_add_rates rs @ x
      in \<lparr>re_ssid = Some (ieee80211_add_ssid essid esslen @ rt), re_rates = Some rt,
          re_xrates = (if ieee80211_add_xrates rs = [] then None else Some x), re_wpa = opt_ie,
          re_wme = (if wme then Some w else None)\<rparr>)"

lemma assoc_req_loop:
  assumes "length essid = IEEE80211_NWID_LEN" "esslen \<le> IEEE80211_NWID_LEN" "wf_rateset rs" "opt_ie_ok opt_ie"
  shows "elem_loop assoc_req_elem ic (ieee80211_add_ssid essid esslen @ ieee80211_add_rates rs @ ieee80211_add_xrates rs
      @ (if wme then ieee80211_add_wme_info else []) @ (case opt_ie of Some ie \<Rightarrow> ie | None \<Rightarrow> [])) no_elems
    = kept ic (req_elems_of essid esslen rs wme opt_ie)"
proof -
  have at: "and_then (kept ic s) k = k ic s" for s and k :: "'a com_scheme \<Rightarrow> req_elems \<Rightarrow> ('a com_scheme, req_elems) verdict"
    by (simp add: and_then_def kept_def)
  have opt: "elem_loop assoc_req_elem ic (case opt_ie of Some ie \<Rightarrow> ie | None \<Rightarrow> []) r =
      kept ic (case opt_ie of Some ie \<Rightarrow> r\<lparr>re_wpa := Some ie\<rparr> | None \<Rightarrow> r)" for r
  proof (cases opt_ie)
    case (Some ie)
    then have "elem_loop assoc_req_elem ic (ie @ []) r = and_then (assoc_req_elem ic (ie @ []) r) (\<lambda>ic s. elem_loop assoc_req_elem ic [] s)"
      using assms(4) by (intro elem_loop_tlv) (simp add: opt_ie_ok_def)
    then show ?thesis
      using assoc_req_elem_opt [of ie ic r] assms(4) Some by (simp add: at elem_loop_Nil)
  qed (simp add: elem_loop_Nil)
  have wme: "elem_loop assoc_req_elem ic ((if wme then ieee80211_add_wme_info else []) @ p) r =
      elem_loop assoc_req_elem ic p (if wme then r\<lparr>re_wme := Some (ieee80211_add_wme_info @ p)\<rparr> else r)" for p r
    by (simp add: elem_loop_tlv tlv_elements(4) assoc_req_elem_tlv(4) at)
  have xr: "elem_loop assoc_req_elem ic (ieee80211_add_xrates rs @ p) r =
      elem_loop assoc_req_elem ic p (if ieee80211_add_xrates rs = [] then r else r\<lparr>re_xrates := Some (ieee80211_add_xrates rs @ p)\<rparr>)" for p r
    using assms(3) by (cases "ieee80211_add_xrates rs = []") (simp_all add: elem_loop_tlv tlv_elements(3) assoc_req_elem_tlv(3) at)
  show ?thesis
    using assms(1-3)
    by (simp add: elem_loop_tlv tlv_elements assoc_req_elem_tlv at xr wme opt)
      (simp add: req_elems_of_def no_elems_def Let_def split: option.split)
qed

lemma setup_rates_suffix:
  assumes "tlv t" "\<And>x. xo = Some x \<Longrightarrow> tlv x"
  shows "setup_rates (t @ p) (map_option (\<lambda>x. x @ q) xo) = setup_rates t xo"
    "rates_toobig (t @ p) (map_option (\<lambda>x. x @ q) xo) = rates_toobig t xo"
proof -
  have el: "(y @ z) ! 1 = y ! 1" "take (unat (y ! 1)) (drop 2 (y @ z)) = drop 2 y"
    "n \<le> unat (y ! 1) \<Longrightarrow> take n (drop 2 (y @ z)) = take n (drop 2 y)" "take (unat (y ! 1)) (drop 2 y) = drop 2 y"
    if "tlv y" for y z n
    using that by (auto simp: tlv_def nth_append)
  show "setup_rates (t @ p) (map_option (\<lambda>x. x @ q) xo) = setup_rates t xo"
    using assms by (cases xo) (simp_all add: setup_rates_def Let_def el del: drop_append take_append One_nat_def)
  show "rates_toobig (t @ p) (map_option (\<lambda>x. x @ q) xo) = rates_toobig t xo"
    using assms by (cases xo) (simp_all add: rates_toobig_def el del: One_nat_def)
qed

lemma assoc_req_scan_body:
  assumes "wf_env e" "me_opmode e = IEEE80211_M_HOSTAP" "me_state e = IEEE80211_S_RUN"
    and "length hdr = sizeof_frame" "i_addr3 hdr = me_bssid e" "length bssid = 6"
    and "unat (me_esslen e) \<le> IEEE80211_NWID_LEN" "wf_rateset rs" "opt_ie_ok opt_ie"
  shows "assoc_req_scan e reassoc ic
      (hdr @ assoc_req_body reassoc capinfo lintval bssid (me_essid e) (unat (me_esslen e)) rs wme opt_ie)
    = kept ic (capinfo, lintval, req_elems_of (me_essid e) (unat (me_esslen e)) rs wme opt_ie)"
proof -
  define b where "b = ieee80211_add_ssid (me_essid e) (unat (me_esslen e)) @ ieee80211_add_rates rs @ ieee80211_add_xrates rs
      @ (if wme then ieee80211_add_wme_info else []) @ (case opt_ie of Some ie \<Rightarrow> ie | None \<Rightarrow> [])"
  define r where "r = req_elems_of (me_essid e) (unat (me_esslen e)) rs wme opt_ie"
  have env: "length (me_essid e) = IEEE80211_NWID_LEN" using assms(1) by (simp add: wf_env_def)
  have loop: "elem_loop assoc_req_elem ic b no_elems = kept ic r"
    unfolding b_def r_def by (rule assoc_req_loop [OF env assms(7-9)])
  have a3: "i_addr3 (hdr @ x) = me_bssid e" for x
    using assms(4,5) by (simp add: i_addr3_def sizeof_frame_def)
  have rates: "rd (ieee80211_add_rates rs @ p) 1 = Some (of_nat (min 8 (rs_nrates rs)))" for p
    by (simp add: ieee80211_add_rates_def rate_defs Let_def min_def)
  have n: "unat (of_nat (min 8 (rs_nrates rs)) :: u8) = min 8 (rs_nrates rs)" by (rule unat_of_nat_u8) simp
  have ssid: "rd (ieee80211_add_ssid essid k @ p) 1 = Some (of_nat k)" for essid k p
    by (simp add: ieee80211_add_ssid_def)
  have chk: "verify_element (re_rates r) IEEE80211_RATE_MAXSIZE ic (\<lambda>_. verify_element (re_ssid r) IEEE80211_NWID_LEN ic
      (\<lambda>ssid. verify_ssid e ssid ic (kept ic v))) = kept ic v" for v :: "u16 \<times> u16 \<times> req_elems"
    using assms(7) env
    by (simp add: r_def req_elems_of_def Let_def verify_element_def rates n ssid verify_ssid_def IEEE80211_RATE_MAXSIZE_def
        del: One_nat_def of_nat_min)
      (simp add: ieee80211_add_ssid_def)
  have at: "and_then (kept ic r) k = k ic r" for k :: "'a com_scheme \<Rightarrow> req_elems \<Rightarrow> ('a com_scheme, u16 \<times> u16 \<times> req_elems) verdict"
    by (simp add: and_then_def kept_def)
  have body: "assoc_req_body reassoc capinfo lintval bssid (me_essid e) (unat (me_esslen e)) rs wme opt_ie =
      ADDSHORT capinfo @ ADDSHORT lintval @ (if reassoc then bssid else []) @ b"
    by (simp add: assoc_req_body_def b_def)
  have two: "length (ADDSHORT v) = 2" "drop 2 (ADDSHORT v @ p) = p" for v p by (simp_all add: ADDSHORT_def)
  show ?thesis
    unfolding body r_def [symmetric] assoc_req_scan_def Let_def a3
    using assms(2-4,6) by (cases reassoc) (simp_all add: verify_length_def two loop at chk)
qed

lemma assoc_capinfo_ess: "has_flag (assoc_req_capinfo False chan_2ghz c ic) IEEE80211_CAPINFO_ESS"
  by (simp add: assoc_req_capinfo_def Let_def has_flag_def IEEE80211_CAPINFO_ESS_def
      IEEE80211_CAPINFO_PRIVACY_def IEEE80211_CAPINFO_SHORT_PREAMBLE_def IEEE80211_CAPINFO_SHORT_SLOTTIME_def)

lemma set_flag_has: "x \<noteq> 0 \<Longrightarrow> has_flag (set_flag f x) x"
  by (simp add: has_flag_def set_flag_def bit.conj_disj_distrib2)

text \<open>The negotiation refuses the rates of a request.\<close>

definition rates_refused :: "'a com_scheme \<Rightarrow> u8 \<Rightarrow> bool" where
  "rates_refused ic rate \<longleftrightarrow> has_flag rate IEEE80211_RATE_BASIC \<or> has_flag (ic_flags ic) IEEE80211_F_PUREG \<and> rate < 48"

lemma setup_rates_body:
  assumes "wf_rateset rs"
  shows "\<exists>rs'. wf_rateset rs' \<and> rs_list rs' = rs_list rs \<and>
    setup_rates (ieee80211_add_rates rs @ p) (if ieee80211_add_xrates rs = [] then None else Some (ieee80211_add_xrates rs @ q)) = Some rs'"
    "\<not> rates_toobig (ieee80211_add_rates rs @ p) (if ieee80211_add_xrates rs = [] then None else Some (ieee80211_add_xrates rs @ q))"
proof -
  let ?xo = "if ieee80211_add_xrates rs = [] then None else Some (ieee80211_add_xrates rs)"
  have q: "(if ieee80211_add_xrates rs = [] then None else Some (ieee80211_add_xrates rs @ q)) = map_option (\<lambda>x. x @ q) ?xo"
    by simp
  have x: "tlv x" if "?xo = Some x" for x using that tlv_elements(3) [OF assms] by (auto split: if_splits)
  have s: "setup_rates (ieee80211_add_rates rs @ p) (map_option (\<lambda>x. x @ q) ?xo) = setup_rates (ieee80211_add_rates rs) ?xo"
    by (rule setup_rates_suffix(1) [OF tlv_elements(2) [OF assms]]) (rule x)
  have t: "rates_toobig (ieee80211_add_rates rs @ p) (map_option (\<lambda>x. x @ q) ?xo) = rates_toobig (ieee80211_add_rates rs) ?xo"
    by (rule setup_rates_suffix(2) [OF tlv_elements(2) [OF assms]]) (rule x)
  obtain rs' where rs': "setup_rates (ieee80211_add_rates rs) ?xo = Some rs'" "wf_rateset rs'" "rs_list rs' = rs_list rs"
    using setup_rates_add [OF assms refl] by auto
  have "setup_rates (ieee80211_add_rates rs @ p) (if ieee80211_add_xrates rs = [] then None else Some (ieee80211_add_xrates rs @ q)) = Some rs'"
    unfolding q s by (rule rs'(1))
  with rs'(2,3) show "\<exists>rs'. wf_rateset rs' \<and> rs_list rs' = rs_list rs \<and>
    setup_rates (ieee80211_add_rates rs @ p) (if ieee80211_add_xrates rs = [] then None else Some (ieee80211_add_xrates rs @ q)) = Some rs'"
    by (intro exI [of _ rs'] conjI)
  have "unat (of_nat (rs_nrates rs - 8) :: u8) = rs_nrates rs - 8"
    using assms by (intro unat_of_nat_u8) (auto simp: wf_rateset_def rate_defs)
  then show "\<not> rates_toobig (ieee80211_add_rates rs @ p) (if ieee80211_add_xrates rs = [] then None else Some (ieee80211_add_xrates rs @ q))"
    unfolding q t using assms
    by (simp add: rates_toobig_def ieee80211_add_rates_def ieee80211_add_xrates_def rate_defs Let_def wf_rateset_def unat_of_nat_u8
        del: of_nat_diff)
qed


definition ex_mgmt_env :: mgmt_env where
  "ex_mgmt_env = \<lparr>me_opmode = IEEE80211_M_HOSTAP, me_state = IEEE80211_S_RUN, me_phytype = IEEE80211_T_OFDM, me_bchan = 6,
     me_chan_active = replicate 32 255, me_bssid = replicate 6 0, me_esslen = 3, me_essid = [110, 101, 116] @ replicate 29 0\<rparr>"

definition ex_rates :: "u8 \<Rightarrow> ieee80211_rateset" where
  "ex_rates v = \<lparr>rs_nrates = 1, rs_rates = v # replicate 14 0\<rparr>"

definition ex_fe :: fix_env where
  "ex_fe = \<lparr>fe_flags = 15, fe_fixed_rate = -1, fe_hostap = True, fe_srs = ex_rates 108\<rparr>"

definition ex_node :: assoc_node where
  "ex_node = \<lparr>ni_rsn = ex_rsn, ni_challenge = Some [], ni_rates = ex_rates 2, ni_txrate = 0, ni_rssi = 0, ni_rstamp = 0,
     ni_intval = 0, ni_capinfo = 0, ni_chan = 6, ni_fhdwell = 0, ni_fhindex = 0, ni_wpa_ie = None, ni_wme_ie = None, ni_flags = 0\<rparr>"

lemma ex_mgmt_env_wf: "wf_env ex_mgmt_env" "sizeof_frame \<le> length (replicate 24 0 @ x :: bytes)"
  by (simp_all add: ex_mgmt_env_def wf_env_def IEEE80211_CHAN_BYTES_def IEEE80211_NWID_LEN_def sizeof_frame_def)


lemma ex_fix_rate:
  assumes "wf_rateset rs" "rs_list rs = [108]"
  shows "ieee80211_fix_rate ex_fe rs 0 = (108, rs, 0)"
proof -
  have "length (rs_list rs) = rs_nrates rs" using assms(1) by (simp add: wf_rateset_def rs_list_def)
  then have n: "rs_nrates rs = 1" by (simp add: assms(2))
  obtain t where t: "rs_rates rs = 108 # t" using assms(2) n by (cases "rs_rates rs") (simp_all add: rs_list_def)
  have rs: "rs\<lparr>rs_rates := 108 # t\<rparr> = rs" by (simp add: t [symmetric])
  show ?thesis
    using n rs
    by (simp add: ieee80211_fix_rate_def Let_def ex_fe_def ex_rates_def fix_rate_loop.simps fix_rate_step_def rate_flag_defs
        rate_defs has_flag_def clear_flag_def sort_pass_def t RV_def rs_list_def)
qed


end
