(* ===== verification/Auth.thy ===== *)
theory Auth
  imports Mgmt Acl
begin

text \<open>
  Authentication: the receive routines for open and shared key authentication
  (\<open>net80211/ieee80211_input.c\<close>), the authentication frames of \<open>ieee80211_send_mgmt\<close>
  (\<open>ieee80211_output.c\<close>), and the node operations they use (\<open>ieee80211_node.c\<close>).  A routine
  gets the node of the sender, or the BSS node when the sender has none, and yields the
  device, the node and the frames and state changes it asks for.  \<open>None\<close> is a read behind the
  end of the frame.
\<close>

subsection \<open>State\<close>

datatype ieee80211_authmode =
    IEEE80211_AUTH_NONE | IEEE80211_AUTH_OPEN | IEEE80211_AUTH_SHARED | IEEE80211_AUTH_8021X
  | IEEE80211_AUTH_AUTO | IEEE80211_AUTH_WPA

record auth_node =
  an_authmode :: ieee80211_authmode
  an_challenge :: "bytes option"
  an_flags :: u16
  an_refcnt :: nat
  an_inact_reload :: int
  an_rssi :: u8
  an_rstamp :: u32
  an_fails :: nat

text \<open>
  What the routines read of the device, the outcome of the allocations of a node and of a
  challenge, the bytes the random generator delivers, and the values that come with the frame.
\<close>

record auth_env =
  ae_opmode :: ieee80211_opmode
  ae_state :: ieee80211_state
  ae_bss_authmode :: ieee80211_authmode
  ae_inact_run :: int
  ae_inact_init :: int
  ae_acl :: "aclstate option"

record auth_input =
  ai_node_mem :: bool
  ai_challenge_mem :: bool
  ai_random :: bytes
  ai_rssi :: u8
  ai_rstamp :: u32

datatype auth_act = Send_mgmt u32 | Send_err u32 | New_state ieee80211_state

definition IEEE80211_CHALLENGE_LEN :: nat where "IEEE80211_CHALLENGE_LEN = 128"
definition IEEE80211_ELEMID_CHALLENGE :: u8 where "IEEE80211_ELEMID_CHALLENGE = 16"
definition IEEE80211_AUTH_ALG_OPEN :: u16 where "IEEE80211_AUTH_ALG_OPEN = 0"
definition IEEE80211_AUTH_ALG_SHARED :: u16 where "IEEE80211_AUTH_ALG_SHARED = 1"
definition IEEE80211_AUTH_OPEN_REQUEST :: u16 where "IEEE80211_AUTH_OPEN_REQUEST = 1"
definition IEEE80211_AUTH_OPEN_RESPONSE :: u16 where "IEEE80211_AUTH_OPEN_RESPONSE = 2"
definition IEEE80211_AUTH_SHARED_REQUEST :: u16 where "IEEE80211_AUTH_SHARED_REQUEST = 1"
definition IEEE80211_AUTH_SHARED_CHALLENGE :: u16 where "IEEE80211_AUTH_SHARED_CHALLENGE = 2"
definition IEEE80211_AUTH_SHARED_RESPONSE :: u16 where "IEEE80211_AUTH_SHARED_RESPONSE = 3"
definition IEEE80211_AUTH_SHARED_PASS :: u16 where "IEEE80211_AUTH_SHARED_PASS = 4"
definition IEEE80211_STATUS_UNSPECIFIED :: u32 where "IEEE80211_STATUS_UNSPECIFIED = 1"
definition IEEE80211_STATUS_ALG :: u32 where "IEEE80211_STATUS_ALG = 13"
definition IEEE80211_STATUS_SEQUENCE :: u32 where "IEEE80211_STATUS_SEQUENCE = 14"
definition IEEE80211_STATUS_CHALLENGE :: u32 where "IEEE80211_STATUS_CHALLENGE = 15"
definition IEEE80211_REASON_MIC_FAILURE :: u32 where "IEEE80211_REASON_MIC_FAILURE = 14"
definition IEEE80211_NODE_AUTH :: u16 where "IEEE80211_NODE_AUTH = 0x0001"
definition IEEE80211_NODE_AREF :: u16 where "IEEE80211_NODE_AREF = 0x0020"
definition IEEE80211_F_COUNTERM :: u32 where "IEEE80211_F_COUNTERM = 0x04000000"

lemmas auth_const_defs = IEEE80211_CHALLENGE_LEN_def IEEE80211_ELEMID_CHALLENGE_def IEEE80211_AUTH_ALG_OPEN_def
  IEEE80211_AUTH_ALG_SHARED_def IEEE80211_AUTH_OPEN_REQUEST_def IEEE80211_AUTH_OPEN_RESPONSE_def
  IEEE80211_AUTH_SHARED_REQUEST_def IEEE80211_AUTH_SHARED_CHALLENGE_def IEEE80211_AUTH_SHARED_RESPONSE_def
  IEEE80211_AUTH_SHARED_PASS_def
lemmas auth_status_defs = IEEE80211_STATUS_UNSPECIFIED_def IEEE80211_STATUS_ALG_def IEEE80211_STATUS_SEQUENCE_def
  IEEE80211_STATUS_CHALLENGE_def

subsection \<open>Nodes\<close>

definition ieee80211_node_authorize :: "auth_env \<Rightarrow> auth_node \<Rightarrow> auth_node" where
  "ieee80211_node_authorize e ni =
     ni\<lparr>an_flags := set_flag (an_flags ni) IEEE80211_NODE_AUTH, an_inact_reload := ae_inact_run e\<rparr>"

definition ieee80211_node_unauthorize :: "auth_node \<Rightarrow> auth_node" where
  "ieee80211_node_unauthorize ni = ni\<lparr>an_flags := clear_flag (an_flags ni) IEEE80211_NODE_AUTH\<rparr>"

text \<open>\<open>ieee80211_dup_bss\<close>: a new node, which inherits the authentication mode of the BSS node.\<close>

definition ieee80211_dup_bss :: "auth_env \<Rightarrow> bool \<Rightarrow> auth_node option" where
  "ieee80211_dup_bss e mem =
     (if mem then Some \<lparr>an_authmode = ae_bss_authmode e, an_challenge = None, an_flags = 0, an_refcnt = 1,
        an_inact_reload = ae_inact_init e, an_rssi = 0, an_rstamp = 0, an_fails = 0\<rparr> else None)"

text \<open>The node of the transaction with its reference, which a node gets once; \<open>None\<close> when there is no memory.\<close>

definition ref_or_dup :: "auth_env \<Rightarrow> auth_input \<Rightarrow> bool \<Rightarrow> auth_node \<Rightarrow> auth_node option" where
  "ref_or_dup e i is_bss ni =
     map_option (\<lambda>n. n\<lparr>an_flags := set_flag (an_flags n) IEEE80211_NODE_AREF\<rparr>)
       (if is_bss then ieee80211_dup_bss e (ai_node_mem i)
        else Some (if has_flag (an_flags ni) IEEE80211_NODE_AREF then ni else ni\<lparr>an_refcnt := an_refcnt ni + 1\<rparr>))"

text \<open>\<open>alloc_challenge\<close>: whether the node has a buffer; the callers fill all of it.\<close>

definition alloc_challenge :: "auth_input \<Rightarrow> auth_node \<Rightarrow> bool" where
  "alloc_challenge i ni \<longleftrightarrow> an_challenge ni \<noteq> None \<or> ai_challenge_mem i"

subsection \<open>Open authentication\<close>

text \<open>The device, the node (and whether it is the BSS node) and what the routine asks for.\<close>

type_synonym 'a auth_result = "'a com_scheme \<times> (bool \<times> auth_node) \<times> auth_act list"

definition next_seq :: "u16 \<Rightarrow> u32" where "next_seq seq = ucast seq + 1"

definition ieee80211_auth_open :: "auth_env \<Rightarrow> auth_input \<Rightarrow> 'a com_scheme \<Rightarrow> bool \<Rightarrow> auth_node \<Rightarrow> u16 \<Rightarrow> u16 \<Rightarrow> 'a auth_result" where
  "ieee80211_auth_open e i ic is_bss ni seq status =
     (if an_authmode ni = IEEE80211_AUTH_SHARED
      then (inc_stat is_rx_bad_auth ic, (is_bss, ni),
        if ae_opmode e = IEEE80211_M_HOSTAP then [Send_err (next_seq seq OR push_bit 16 IEEE80211_STATUS_ALG)] else [])
      else case ae_opmode e of
        IEEE80211_M_HOSTAP \<Rightarrow>
          if ae_state e \<noteq> IEEE80211_S_RUN \<or> seq \<noteq> IEEE80211_AUTH_OPEN_REQUEST
          then (inc_stat is_rx_bad_auth ic, (is_bss, ni), [])
          else (case ref_or_dup e i is_bss ni of
              None \<Rightarrow> (inc_stat is_rx_nodealloc ic, (is_bss, ni), [])
            | Some n \<Rightarrow> (ic, (False, if an_authmode n \<noteq> IEEE80211_AUTH_8021X then ieee80211_node_authorize e n else n),
                [Send_mgmt (next_seq seq)]))
      | IEEE80211_M_STA \<Rightarrow>
          if ae_state e \<noteq> IEEE80211_S_AUTH \<or> seq \<noteq> IEEE80211_AUTH_OPEN_RESPONSE
          then (inc_stat is_rx_bad_auth ic, (is_bss, ni), [])
          else if status \<noteq> 0
          then (inc_stat is_rx_auth_fail ic, (is_bss, if is_bss then ni else ni\<lparr>an_fails := an_fails ni + 1\<rparr>),
            [New_state IEEE80211_S_SCAN])
          else (ic, (is_bss, ni), [New_state IEEE80211_S_ASSOC])
      | _ \<Rightarrow> (ic, (is_bss, ni), []))"

subsection \<open>Shared key authentication\<close>

text \<open>The label \<open>bad\<close>.\<close>

definition auth_bad :: "auth_env \<Rightarrow> u16 \<Rightarrow> u32 \<Rightarrow> auth_act list" where
  "auth_bad e seq estatus =
     (if ae_opmode e = IEEE80211_M_HOSTAP then [Send_err (next_seq seq OR push_bit 16 estatus)]
      else if ae_opmode e = IEEE80211_M_STA \<and> ae_state e = IEEE80211_S_AUTH then [New_state IEEE80211_S_SCAN]
      else [])"

text \<open>The challenge element of the frame: an error, or the element if there is one.\<close>

definition auth_challenge :: "bytes \<Rightarrow> u16 \<Rightarrow> (u32 + bytes option)" where
  "auth_challenge frm seq =
     (if length frm > 1 \<and> unat (frm ! 1) + 2 > length frm then Inl IEEE80211_STATUS_CHALLENGE
      else
        let challenge = (if length frm > 1 \<and> frm ! 0 = IEEE80211_ELEMID_CHALLENGE then Some frm else None)
        in if seq = IEEE80211_AUTH_SHARED_CHALLENGE \<or> seq = IEEE80211_AUTH_SHARED_RESPONSE
           then (case challenge of
               None \<Rightarrow> Inl IEEE80211_STATUS_CHALLENGE
             | Some c \<Rightarrow> if unat (c ! 1) \<noteq> IEEE80211_CHALLENGE_LEN then Inl IEEE80211_STATUS_CHALLENGE else Inr (Some c))
           else Inr challenge)"

definition auth_shared_hostap :: "auth_env \<Rightarrow> auth_input \<Rightarrow> 'a com_scheme \<Rightarrow> bool \<Rightarrow> auth_node \<Rightarrow> u16 \<Rightarrow> bytes option \<Rightarrow>
    'a auth_result option" where
  "auth_shared_hostap e i ic is_bss ni seq challenge =
     (if ae_state e \<noteq> IEEE80211_S_RUN then Some (ic, (is_bss, ni), auth_bad e seq IEEE80211_STATUS_ALG)
      else if seq = IEEE80211_AUTH_SHARED_REQUEST then
        (case ref_or_dup e i is_bss ni of
           None \<Rightarrow> Some (inc_stat is_rx_nodealloc ic, (is_bss, ni), [])
         | Some n \<Rightarrow>
             let n = n\<lparr>an_rssi := ai_rssi i, an_rstamp := ai_rstamp i\<rparr>
             in if \<not> alloc_challenge i n then Some (ic, (False, n), [])
                else Some (ic, (False, n\<lparr>an_challenge := Some (take IEEE80211_CHALLENGE_LEN (ai_random i))\<rparr>),
                  [Send_mgmt (next_seq seq)]))
      else if seq = IEEE80211_AUTH_SHARED_RESPONSE then
        (if is_bss then Some (ic, (is_bss, ni), [])
         else case an_challenge ni of
             None \<Rightarrow> Some (inc_stat is_rx_bad_auth ic, (is_bss, ni), auth_bad e seq IEEE80211_STATUS_CHALLENGE)
           | Some c \<Rightarrow> do {
               ch \<leftarrow> challenge;
               l \<leftarrow> rd ch 1;
               if length ch < unat l + 2 \<or> length c < unat l then None
               else if take (unat l) c \<noteq> take (unat l) (drop 2 ch)
               then Some (inc_stat is_rx_auth_fail ic, (is_bss, ni), auth_bad e seq IEEE80211_STATUS_CHALLENGE)
               else Some (ic, (is_bss, ieee80211_node_authorize e ni), [Send_mgmt (next_seq seq)]) })
      else Some (inc_stat is_rx_bad_auth ic, (is_bss, ni), auth_bad e seq IEEE80211_STATUS_SEQUENCE))"

definition auth_shared_sta :: "auth_env \<Rightarrow> auth_input \<Rightarrow> 'a com_scheme \<Rightarrow> bool \<Rightarrow> auth_node \<Rightarrow> u16 \<Rightarrow> u16 \<Rightarrow> bytes option \<Rightarrow>
    'a auth_result option" where
  "auth_shared_sta e i ic is_bss ni seq status challenge =
     (if ae_state e \<noteq> IEEE80211_S_AUTH then Some (ic, (is_bss, ni), [])
      else if seq = IEEE80211_AUTH_SHARED_PASS then
        (let ni = ni\<lparr>an_challenge := None\<rparr>
         in if status \<noteq> 0
            then Some (inc_stat is_rx_auth_fail ic, (is_bss, if is_bss then ni else ni\<lparr>an_fails := an_fails ni + 1\<rparr>), [])
            else Some (ic, (is_bss, ni), [New_state IEEE80211_S_ASSOC]))
      else if seq = IEEE80211_AUTH_SHARED_CHALLENGE then
        (if \<not> alloc_challenge i ni then Some (ic, (is_bss, ni), [])
         else do {
           ch \<leftarrow> challenge;
           l \<leftarrow> rd ch 1;
           if length ch < unat l + 2 then None
           else Some (ic, (is_bss, ni\<lparr>an_challenge := Some (take (unat l) (drop 2 ch))\<rparr>), [Send_mgmt (next_seq seq)]) })
      else Some (inc_stat is_rx_bad_auth ic, (is_bss, ni), []))"

text \<open>\<open>ieee80211_auth_shared\<close>; \<open>frm\<close> is the frame behind the three fixed fields.\<close>

definition ieee80211_auth_shared :: "auth_env \<Rightarrow> auth_input \<Rightarrow> 'a com_scheme \<Rightarrow> bytes \<Rightarrow> bool \<Rightarrow> auth_node \<Rightarrow> u16 \<Rightarrow> u16 \<Rightarrow>
    'a auth_result option" where
  "ieee80211_auth_shared e i ic frm is_bss ni seq status =
     (if \<not> has_flag (ic_flags ic) IEEE80211_F_PRIVACY then Some (ic, (is_bss, ni), auth_bad e seq IEEE80211_STATUS_ALG)
      else if an_authmode ni \<noteq> IEEE80211_AUTH_AUTO \<and> an_authmode ni \<noteq> IEEE80211_AUTH_SHARED
      then Some (inc_stat is_rx_bad_auth ic, (is_bss, ni), auth_bad e seq IEEE80211_STATUS_ALG)
      else case auth_challenge frm seq of
          Inl estatus \<Rightarrow> Some (inc_stat is_rx_bad_auth ic, (is_bss, ni), auth_bad e seq estatus)
        | Inr challenge \<Rightarrow>
            (case ae_opmode e of
               IEEE80211_M_HOSTAP \<Rightarrow> auth_shared_hostap e i ic is_bss ni seq challenge
             | IEEE80211_M_STA \<Rightarrow> auth_shared_sta e i ic is_bss ni seq status challenge
             | _ \<Rightarrow> Some (ic, (is_bss, ni), [])))"

definition ieee80211_recv_mgmt_auth :: "auth_env \<Rightarrow> auth_input \<Rightarrow> 'a com_scheme \<Rightarrow> bool \<Rightarrow> auth_node \<Rightarrow> bytes \<Rightarrow>
    'a auth_result option" where
  "ieee80211_recv_mgmt_auth e i ic is_bss ni m0 =
     (let frm = drop sizeof_frame m0
      in if size_sub (length m0) sizeof_frame < 6 then Some (inc_stat is_rx_elem_toosmall ic, (is_bss, ni), [])
         else do {
           algo \<leftarrow> LE_READ_2 frm;
           seq \<leftarrow> LE_READ_2 (drop 2 frm);
           status \<leftarrow> LE_READ_2 (drop 4 frm);
           if (case ae_acl e of None \<Rightarrow> False | Some a \<Rightarrow> \<not> acl_check a (i_addr2 m0))
           then Some (inc_stat is_rx_acl ic, (is_bss, ni),
             if ae_opmode e = IEEE80211_M_HOSTAP then [Send_mgmt (next_seq seq OR push_bit 16 IEEE80211_STATUS_UNSPECIFIED)] else [])
           else if has_flag (ic_flags ic) IEEE80211_F_COUNTERM
           then Some (inc_stat is_rx_auth_countermeasures ic, (is_bss, ni),
             if ae_opmode e = IEEE80211_M_HOSTAP then [Send_mgmt IEEE80211_REASON_MIC_FAILURE] else [])
           else if algo = IEEE80211_AUTH_ALG_SHARED then ieee80211_auth_shared e i ic (drop 6 frm) is_bss ni seq status
           else if algo = IEEE80211_AUTH_ALG_OPEN then Some (ieee80211_auth_open e i ic is_bss ni seq status)
           else Some (inc_stat is_rx_auth_unsupported ic, (is_bss, ni),
             if ae_opmode e = IEEE80211_M_HOSTAP then [Send_mgmt (next_seq seq OR push_bit 16 IEEE80211_STATUS_ALG)] else []) })"

text \<open>
  The authentication frame of \<open>ieee80211_send_mgmt\<close>: its body, and whether it is to be encrypted.
  \<open>mode\<close> is the authentication mode of the BSS node.
\<close>

definition auth_body :: "ieee80211_authmode \<Rightarrow> bytes option \<Rightarrow> u32 \<Rightarrow> bytes \<times> bool" where
  "auth_body mode chal arg =
     (let status = drop_bit 16 arg;
          arg = arg AND 0xffff;
          has_challenge = ((arg = ucast IEEE80211_AUTH_SHARED_CHALLENGE \<or> arg = ucast IEEE80211_AUTH_SHARED_RESPONSE) \<and>
            chal \<noteq> None);
          is_shared_key = (has_challenge \<or> arg \<ge> ucast IEEE80211_AUTH_SHARED_RESPONSE \<or>
            arg = ucast IEEE80211_AUTH_SHARED_REQUEST \<and> mode = IEEE80211_AUTH_SHARED);
          need_challenge = (has_challenge \<and> status = 0)
      in (ADDSHORT (if is_shared_key then IEEE80211_AUTH_ALG_SHARED else IEEE80211_AUTH_ALG_OPEN)
          @ ADDSHORT (ucast arg) @ ADDSHORT (ucast status)
          @ (if need_challenge then [IEEE80211_ELEMID_CHALLENGE, of_nat IEEE80211_CHALLENGE_LEN]
               @ take IEEE80211_CHALLENGE_LEN (the chal) else []),
          need_challenge \<and> arg = ucast IEEE80211_AUTH_SHARED_RESPONSE))"

subsection \<open>Authorization needs the answer to the challenge\<close>

text \<open>
  The frames of one station, as an access point processes them: the frames so far, with what came
  with them, the device and the node.  An association discards the challenge; when the node
  leaves, the next frame is handled with the BSS node again.
\<close>

inductive auth_run :: "auth_env \<Rightarrow> auth_node \<Rightarrow> (auth_input \<times> bytes) list \<Rightarrow> 'a com_scheme \<Rightarrow> bool \<times> auth_node \<Rightarrow> bool"
  for e bss where
  start: "auth_run e bss [] ic (True, bss)"
| frame: "auth_run e bss h ic (b, ni) \<Longrightarrow> IEEE80211_CHALLENGE_LEN \<le> length (ai_random i) \<Longrightarrow>
    ieee80211_recv_mgmt_auth e i ic b ni m = Some (ic', n', acts) \<Longrightarrow> auth_run e bss (h @ [(i, m)]) ic' n'"
| associated: "auth_run e bss h ic (False, ni) \<Longrightarrow> auth_run e bss h ic (False, ni\<lparr>an_challenge := None\<rparr>)"
| left: "auth_run e bss h ic (False, ni) \<Longrightarrow> auth_run e bss h ic (True, bss)"

text \<open>A frame that answers the challenge \<open>c\<close>.\<close>

definition answers :: "bytes \<Rightarrow> bytes \<Rightarrow> bool" where
  "answers c m \<longleftrightarrow> LE_READ_2 (drop sizeof_frame m) = Some IEEE80211_AUTH_ALG_SHARED \<and>
     LE_READ_2 (drop 2 (drop sizeof_frame m)) = Some IEEE80211_AUTH_SHARED_RESPONSE \<and>
     take IEEE80211_CHALLENGE_LEN (drop 8 (drop sizeof_frame m)) = c"

definition authorized :: "auth_node \<Rightarrow> bool" where
  "authorized ni = has_flag (an_flags ni) IEEE80211_NODE_AUTH"

lemma auth_bits [simp]:
  "has_flag (set_flag f IEEE80211_NODE_AREF) IEEE80211_NODE_AUTH = has_flag f IEEE80211_NODE_AUTH"
  "has_flag (set_flag f IEEE80211_NODE_AUTH) IEEE80211_NODE_AUTH"
  by (simp_all add: has_flag_set_disjoint IEEE80211_NODE_AREF_def IEEE80211_NODE_AUTH_def set_flag_has)

lemma has_flag_zero [simp]: "\<not> has_flag 0 x"
  by (simp add: has_flag_def)

lemma ref_or_dup_simps:
  assumes "ref_or_dup e i b ni = Some n"
  shows "an_authmode n = (if b then ae_bss_authmode e else an_authmode ni)" "authorized n \<longleftrightarrow> \<not> b \<and> authorized ni"
    "an_challenge n = (if b then None else an_challenge ni)"
  using assms
  by (auto simp: ref_or_dup_def ieee80211_dup_bss_def authorized_def split: if_splits)

lemma auth_challenge_response:
  assumes "auth_challenge frm IEEE80211_AUTH_SHARED_RESPONSE = Inr ch"
  shows "ch = Some frm \<and> rd frm 1 = Some (frm ! 1) \<and> unat (frm ! 1) = IEEE80211_CHALLENGE_LEN \<and>
    IEEE80211_CHALLENGE_LEN + 2 \<le> length frm"
  using assms by (auto simp: auth_challenge_def Let_def split: if_splits)

text \<open>What a frame can change of a node: start a transaction, answer the challenge, or nothing.\<close>

definition node_step :: "auth_env \<Rightarrow> auth_input \<Rightarrow> (bytes \<Rightarrow> bool) \<Rightarrow> bool \<times> auth_node \<Rightarrow> bool \<times> auth_node \<Rightarrow> bool" where
  "node_step e i answer s s' \<longleftrightarrow> s' = s \<or>
     \<not> fst s' \<and> an_authmode (snd s') = (if fst s then ae_bss_authmode e else an_authmode (snd s)) \<and>
       (authorized (snd s') \<longrightarrow> \<not> fst s \<and> authorized (snd s)) \<and>
       an_challenge (snd s') \<in> {if fst s then None else an_challenge (snd s), Some (take IEEE80211_CHALLENGE_LEN (ai_random i))} \<or>
     (\<exists>c. \<not> fst s \<and> an_challenge (snd s) = Some c \<and> answer c \<and> s' = (False, ieee80211_node_authorize e (snd s)))"

lemma shared_hostap_step:
  assumes "auth_shared_hostap e i ic b ni seq ch = Some (ic', s', acts)" "auth_challenge frm seq = Inr ch"
    and "\<And>c. an_challenge ni = Some c \<Longrightarrow> length c = IEEE80211_CHALLENGE_LEN"
  shows "node_step e i (\<lambda>c. seq = IEEE80211_AUTH_SHARED_RESPONSE \<and> take IEEE80211_CHALLENGE_LEN (drop 2 frm) = c) (b, ni) s'"
proof (cases "ae_state e \<noteq> IEEE80211_S_RUN")
  case True
  then show ?thesis using assms(1) by (simp add: auth_shared_hostap_def node_step_def)
next
  case run: False
  consider "seq = IEEE80211_AUTH_SHARED_REQUEST" | "seq = IEEE80211_AUTH_SHARED_RESPONSE"
    | "seq \<noteq> IEEE80211_AUTH_SHARED_REQUEST" "seq \<noteq> IEEE80211_AUTH_SHARED_RESPONSE" by blast
  then show ?thesis
  proof cases
    case 1
    show ?thesis
    proof (cases "ref_or_dup e i b ni")
      case (Some n)
      note r = ref_or_dup_simps [OF Some]
      show ?thesis
        using assms(1) run 1 Some r
        by (auto simp: auth_shared_hostap_def node_step_def Let_def authorized_def split: if_splits)
    qed (use assms(1) run 1 in \<open>simp add: auth_shared_hostap_def node_step_def\<close>)
  next
    case 2
    then have c: "ch = Some frm" "rd frm 1 = Some (frm ! 1)" "unat (frm ! 1) = IEEE80211_CHALLENGE_LEN"
      "IEEE80211_CHALLENGE_LEN + 2 \<le> length frm" "seq \<noteq> IEEE80211_AUTH_SHARED_REQUEST"
      using auth_challenge_response assms(2) by (auto simp: auth_const_defs)
    show ?thesis
    proof (cases "an_challenge ni")
      case (Some x)
      then show ?thesis
        using assms(1) run 2 c assms(3) [OF Some]
        by (auto simp: auth_shared_hostap_def node_step_def split: if_splits)
    qed (use assms(1) run 2 c in \<open>auto simp: auth_shared_hostap_def node_step_def split: if_splits\<close>)
  next
    case 3
    then show ?thesis using assms(1) run by (simp add: auth_shared_hostap_def node_step_def)
  qed
qed

lemma auth_frame_step:
  assumes "ieee80211_recv_mgmt_auth e i ic b ni m = Some (ic', s', acts)" "ae_opmode e = IEEE80211_M_HOSTAP"
    and "an_authmode ni = IEEE80211_AUTH_SHARED"
    and "\<And>c. an_challenge ni = Some c \<Longrightarrow> length c = IEEE80211_CHALLENGE_LEN"
  shows "node_step e i (\<lambda>c. answers c m) (b, ni) s'"
proof -
  define frm where "frm = drop sizeof_frame m"
  have same: "node_step e i P (b, ni) (b, ni)" for P by (simp add: node_step_def)
  show ?thesis
  proof (cases "size_sub (length m) sizeof_frame < 6")
    case True
    then show ?thesis using assms(1) same by (simp add: ieee80211_recv_mgmt_auth_def Let_def)
  next
    case False
    then obtain algo seq status where f: "LE_READ_2 frm = Some algo" "LE_READ_2 (drop 2 frm) = Some seq"
        "LE_READ_2 (drop 4 frm) = Some status"
      using assms(1) by (auto simp: ieee80211_recv_mgmt_auth_def Let_def bind_eq_Some_conv simp flip: frm_def)
    consider "s' = (b, ni)" | "algo = IEEE80211_AUTH_ALG_SHARED" "ieee80211_auth_shared e i ic (drop 6 frm) b ni seq status = Some (ic', s', acts)"
      | "ieee80211_auth_open e i ic b ni seq status = (ic', s', acts)"
      using assms(1) False f
      by (auto simp: ieee80211_recv_mgmt_auth_def Let_def simp flip: frm_def split: if_splits)
    then show ?thesis
    proof cases
      case 1
      then show ?thesis by (simp add: same)
    next
      case 3
      then show ?thesis using assms(3) same by (simp add: ieee80211_auth_open_def)
    next
      case 2
      show ?thesis
      proof (cases "auth_challenge (drop 6 frm) seq")
        case (Inr ch)
        then consider "s' = (b, ni)" | "auth_shared_hostap e i ic b ni seq ch = Some (ic', s', acts)"
          using 2(2) assms(2,3) by (auto simp: ieee80211_auth_shared_def split: if_splits)
        then show ?thesis
        proof cases
          case 2
          have "answers c m" if "seq = IEEE80211_AUTH_SHARED_RESPONSE \<and> take IEEE80211_CHALLENGE_LEN (drop 2 (drop 6 frm)) = c" for c
            using that f \<open>algo = _\<close> by (simp add: answers_def flip: frm_def)
          then show ?thesis
            using shared_hostap_step [OF 2 Inr assms(4)] unfolding node_step_def by blast
        qed (simp add: same)
      qed (use 2 assms(3) same in \<open>auto simp: ieee80211_auth_shared_def split: if_splits\<close>)
    qed
  qed
qed

text \<open>Among the frames are a first one and a later one that answers the challenge drawn with the first.\<close>

definition answered :: "(auth_input \<times> bytes) list \<Rightarrow> bool" where
  "answered h \<longleftrightarrow> (\<exists>h1 i1 m1 h2 i2 m2 h3. h = h1 @ (i1, m1) # h2 @ (i2, m2) # h3 \<and>
     answers (take IEEE80211_CHALLENGE_LEN (ai_random i1)) m2)"

lemma answered_mono: "answered h \<Longrightarrow> answered (h @ [x])"
  by (fastforce simp: answered_def)

lemma answered_now:
  assumes "(i, m) \<in> set h" "answers (take IEEE80211_CHALLENGE_LEN (ai_random i)) m'"
  shows "answered (h @ [(i', m')])"
  using split_list [OF assms(1)] assms(2) unfolding answered_def by fastforce

definition run_inv :: "auth_node \<Rightarrow> (auth_input \<times> bytes) list \<Rightarrow> bool \<times> auth_node \<Rightarrow> bool" where
  "run_inv bss h s \<longleftrightarrow> (if fst s then snd s = bss
     else an_authmode (snd s) = IEEE80211_AUTH_SHARED \<and>
       (\<forall>c. an_challenge (snd s) = Some c \<longrightarrow> length c = IEEE80211_CHALLENGE_LEN \<and>
          (\<exists>(i, m) \<in> set h. c = take IEEE80211_CHALLENGE_LEN (ai_random i))) \<and>
       (authorized (snd s) \<longrightarrow> answered h))"

lemma run_inv_step:
  assumes "run_inv bss h s" "node_step e i (\<lambda>c. answers c m) s s'" "IEEE80211_CHALLENGE_LEN \<le> length (ai_random i)"
    and "an_authmode bss = IEEE80211_AUTH_SHARED" "ae_bss_authmode e = IEEE80211_AUTH_SHARED" "an_challenge bss = None"
  shows "run_inv bss (h @ [(i, m)]) s'"
proof -
  obtain b ni b' ni' where s: "s = (b, ni)" "s' = (b', ni')" by fastforce
  have keep: "run_inv bss (h @ [(i, m)]) s" using assms(1) answered_mono [of h "(i, m)"] by (auto simp: run_inv_def)
  have mode: "(if b then ae_bss_authmode e else an_authmode ni) = IEEE80211_AUTH_SHARED"
    using assms(1,5) by (simp add: s run_inv_def split: if_splits)
  consider "s' = s"
    | "\<not> b'" "an_authmode ni' = IEEE80211_AUTH_SHARED" "authorized ni' \<Longrightarrow> \<not> b \<and> authorized ni"
      "an_challenge ni' \<in> {if b then None else an_challenge ni, Some (take IEEE80211_CHALLENGE_LEN (ai_random i))}"
    | c where "\<not> b" "an_challenge ni = Some c" "answers c m" "s' = (False, ieee80211_node_authorize e ni)"
    using assms(2) unfolding node_step_def s fst_conv snd_conv mode by blast
  then show ?thesis
  proof cases
    case 1
    then show ?thesis using keep by simp
  next
    case 2
    then show ?thesis using keep assms(3) unfolding s by (auto simp: run_inv_def split: if_splits)
  next
    case 3
    then have "answered (h @ [(i, m)])"
      using assms(1) answered_now [of _ _ h m i] unfolding s run_inv_def by fastforce
    then show ?thesis
      using keep 3 unfolding s by (auto simp: run_inv_def ieee80211_node_authorize_def)
  qed
qed

text \<open>
  C5. Shared key authentication.  In an access point that requires shared keys, whatever frames a
  station sends, and in whatever order nodes are created, associate and leave between them, the
  station's node is authorized only if the access point drew a challenge for one of its frames and
  a later frame of it carried exactly the bytes of that challenge.
\<close>

theorem shared_key_required:
  assumes "auth_run e bss h ic (False, ni)" "authorized ni"
    and "ae_opmode e = IEEE80211_M_HOSTAP" "ae_bss_authmode e = IEEE80211_AUTH_SHARED"
    and "an_authmode bss = IEEE80211_AUTH_SHARED" "an_challenge bss = None"
  shows "\<exists>h1 i1 m1 h2 i2 m2 h3. h = h1 @ (i1, m1) # h2 @ (i2, m2) # h3 \<and>
    answers (take IEEE80211_CHALLENGE_LEN (ai_random i1)) m2"
proof -
  have "run_inv bss h s" if "auth_run e bss h ic s" for h s and ic :: "'a com_scheme"
    using that
  proof induction
    case (frame h ic b ni i m ic' n' acts)
    have "an_authmode ni = IEEE80211_AUTH_SHARED" "\<And>c. an_challenge ni = Some c \<Longrightarrow> length c = IEEE80211_CHALLENGE_LEN"
      using frame.IH assms(5,6) by (auto simp: run_inv_def split: if_splits)
    from auth_frame_step [OF frame.hyps(3) assms(3) this] show ?case
      using run_inv_step [OF frame.IH _ frame.hyps(2) assms(5,4,6)] by blast
  qed (auto simp: run_inv_def authorized_def)
  from this [OF assms(1)] show ?thesis using assms(2) by (simp add: run_inv_def answered_def)
qed

subsection \<open>The handshake\<close>

lemma recv_auth_body:
  assumes "length hdr = sizeof_frame" "ae_acl e = None" "\<not> has_flag (ic_flags ic) IEEE80211_F_COUNTERM"
  shows "ieee80211_recv_mgmt_auth e i ic b ni (hdr @ ADDSHORT IEEE80211_AUTH_ALG_SHARED @ ADDSHORT seq @ ADDSHORT status @ p) =
    ieee80211_auth_shared e i ic p b ni seq status"
proof -
  have two: "length (ADDSHORT v) = 2" "drop 2 (ADDSHORT v @ p) = p" for v p by (simp_all add: ADDSHORT_def)
  have "drop 4 (ADDSHORT a @ ADDSHORT b @ p) = p" "drop 6 (ADDSHORT a @ ADDSHORT b @ ADDSHORT c @ p) = p" for a b c p
    by (simp_all add: ADDSHORT_def)
  then show ?thesis using assms by (simp add: ieee80211_recv_mgmt_auth_def Let_def two)
qed

definition challenge_ie :: "bytes \<Rightarrow> bytes" where
  "challenge_ie c = [IEEE80211_ELEMID_CHALLENGE, of_nat IEEE80211_CHALLENGE_LEN] @ c"

lemma auth_challenge_ie:
  assumes "length c = IEEE80211_CHALLENGE_LEN"
  shows "auth_challenge (challenge_ie c) seq = Inr (Some (challenge_ie c))" "auth_challenge [] 1 = Inr None" "auth_challenge [] 4 = Inr None"
    "rd (challenge_ie c) 1 = Some 128" "drop 2 (challenge_ie c) = c" "length (challenge_ie c) = 130"
  using assms by (simp_all add: auth_challenge_def challenge_ie_def auth_const_defs Let_def)

lemma auth_bodies:
  assumes "length c = IEEE80211_CHALLENGE_LEN"
  shows "fst (auth_body IEEE80211_AUTH_SHARED None 1) = ADDSHORT IEEE80211_AUTH_ALG_SHARED @ ADDSHORT 1 @ ADDSHORT 0 @ []"
    "fst (auth_body mode (Some c) 2) = ADDSHORT IEEE80211_AUTH_ALG_SHARED @ ADDSHORT 2 @ ADDSHORT 0 @ challenge_ie c"
    "auth_body mode (Some c) 3 = (ADDSHORT IEEE80211_AUTH_ALG_SHARED @ ADDSHORT 3 @ ADDSHORT 0 @ challenge_ie c, True)"
    "fst (auth_body mode co 4) = ADDSHORT IEEE80211_AUTH_ALG_SHARED @ ADDSHORT 4 @ ADDSHORT 0 @ []"
  using assms by (simp_all add: auth_body_def Let_def auth_const_defs challenge_ie_def)

text \<open>
  C17. The shared key handshake.  With shared keys configured on both sides, the four frames that
  the routines send in turn authenticate the station: the access point answers the request with a
  fresh challenge, the station returns it and asks for the frame to be encrypted, the access point
  authorizes the station's node, and the station, with its challenge discarded, associates.
\<close>

theorem shared_key_handshake:
  assumes ap: "ae_opmode ap = IEEE80211_M_HOSTAP" "ae_state ap = IEEE80211_S_RUN" "ae_bss_authmode ap = IEEE80211_AUTH_SHARED" "ae_acl ap = None"
    and sta: "ae_opmode sta = IEEE80211_M_STA" "ae_state sta = IEEE80211_S_AUTH" "ae_bss_authmode sta = IEEE80211_AUTH_SHARED" "ae_acl sta = None"
    and flags: "has_flag (ic_flags ic) IEEE80211_F_PRIVACY" "\<not> has_flag (ic_flags ic) IEEE80211_F_COUNTERM"
      "has_flag (ic_flags sc) IEEE80211_F_PRIVACY" "\<not> has_flag (ic_flags sc) IEEE80211_F_COUNTERM"
    and nodes: "an_authmode bss = IEEE80211_AUTH_SHARED" "an_authmode ni = IEEE80211_AUTH_SHARED"
    and mem: "ai_node_mem i" "ai_challenge_mem i" "ai_challenge_mem j" "IEEE80211_CHALLENGE_LEN \<le> length (ai_random i)"
    and hdr: "length h1 = sizeof_frame" "length h2 = sizeof_frame" "length h3 = sizeof_frame" "length h4 = sizeof_frame"
  shows "\<exists>n c. c = take IEEE80211_CHALLENGE_LEN (ai_random i) \<and> an_challenge n = Some c \<and>
    ieee80211_recv_mgmt_auth ap i ic True bss (h1 @ fst (auth_body (ae_bss_authmode sta) None 1)) = Some (ic, (False, n), [Send_mgmt 2]) \<and>
    ieee80211_recv_mgmt_auth sta j sc True ni (h2 @ fst (auth_body (ae_bss_authmode ap) (an_challenge n) 2)) =
      Some (sc, (True, ni\<lparr>an_challenge := Some c\<rparr>), [Send_mgmt 3]) \<and>
    snd (auth_body (ae_bss_authmode sta) (Some c) 3) \<and>
    ieee80211_recv_mgmt_auth ap i' ic False n (h3 @ fst (auth_body (ae_bss_authmode sta) (Some c) 3)) =
      Some (ic, (False, ieee80211_node_authorize ap n), [Send_mgmt 4]) \<and>
    ieee80211_recv_mgmt_auth sta j' sc True (ni\<lparr>an_challenge := Some c\<rparr>) (h4 @ fst (auth_body (ae_bss_authmode ap) (an_challenge n) 4)) =
      Some (sc, (True, ni\<lparr>an_challenge := None\<rparr>), [New_state IEEE80211_S_ASSOC])"
proof -
  define c where "c = take IEEE80211_CHALLENGE_LEN (ai_random i)"
  define n where "n = \<lparr>an_authmode = IEEE80211_AUTH_SHARED, an_challenge = Some c, an_flags = set_flag 0 IEEE80211_NODE_AREF,
      an_refcnt = 1, an_inact_reload = ae_inact_init ap, an_rssi = ai_rssi i, an_rstamp = ai_rstamp i, an_fails = 0\<rparr>"
  have len: "length c = IEEE80211_CHALLENGE_LEN" using mem(4) by (simp add: c_def)
  note bodies = auth_bodies [OF len] and ie = auth_challenge_ie [OF len]
  have seqs: "next_seq 1 = 2" "next_seq 2 = 3" "next_seq 3 = 4" by (simp_all add: next_seq_def)
  have n': "an_challenge n = Some c" "an_authmode n = IEEE80211_AUTH_SHARED" by (simp_all add: n_def)
  have s1: "ieee80211_recv_mgmt_auth ap i ic True bss (h1 @ fst (auth_body IEEE80211_AUTH_SHARED None 1)) = Some (ic, (False, n), [Send_mgmt 2])"
    unfolding bodies recv_auth_body [OF hdr(1) ap(4) flags(2)]
    using ap flags(1) nodes(1) mem(1,2) ie(2)
    by (simp add: ieee80211_auth_shared_def auth_shared_hostap_def ref_or_dup_def ieee80211_dup_bss_def alloc_challenge_def
        IEEE80211_AUTH_SHARED_REQUEST_def seqs n_def c_def Let_def)
  have s2: "ieee80211_recv_mgmt_auth sta j sc True ni (h2 @ fst (auth_body IEEE80211_AUTH_SHARED (an_challenge n) 2)) =
      Some (sc, (True, ni\<lparr>an_challenge := Some c\<rparr>), [Send_mgmt 3])"
    unfolding n' bodies recv_auth_body [OF hdr(2) sta(4) flags(4)]
    using sta flags(3) nodes(2) mem(3) ie len
    by (simp add: ieee80211_auth_shared_def auth_shared_sta_def alloc_challenge_def auth_const_defs seqs ie(4) [unfolded One_nat_def])
  have s3: "ieee80211_recv_mgmt_auth ap i' ic False n (h3 @ fst (auth_body IEEE80211_AUTH_SHARED (Some c) 3)) =
      Some (ic, (False, ieee80211_node_authorize ap n), [Send_mgmt 4])"
    unfolding bodies fst_conv recv_auth_body [OF hdr(3) ap(4) flags(2)]
    using ap flags(1) n' ie len
    by (simp add: ieee80211_auth_shared_def auth_shared_hostap_def auth_const_defs seqs ie(4) [unfolded One_nat_def])
  have s4: "ieee80211_recv_mgmt_auth sta j' sc True (ni\<lparr>an_challenge := Some c\<rparr>) (h4 @ fst (auth_body IEEE80211_AUTH_SHARED (an_challenge n) 4)) =
      Some (sc, (True, ni\<lparr>an_challenge := None\<rparr>), [New_state IEEE80211_S_ASSOC])"
    unfolding bodies recv_auth_body [OF hdr(4) sta(4) flags(4)]
    using sta flags(3) nodes(2) ie(3)
    by (simp add: ieee80211_auth_shared_def auth_shared_sta_def auth_const_defs)
  have s5: "snd (auth_body IEEE80211_AUTH_SHARED (Some c) 3)" unfolding bodies by simp
  show ?thesis
    unfolding ap(3) sta(3)
    by (rule exI [of _ n], rule exI [of _ c]) (intro conjI c_def n'(1) s1 s2 s3 s4 s5)
qed

definition ex_ap_auth :: auth_env where
  "ex_ap_auth = \<lparr>ae_opmode = IEEE80211_M_HOSTAP, ae_state = IEEE80211_S_RUN, ae_bss_authmode = IEEE80211_AUTH_SHARED,
     ae_inact_run = 20, ae_inact_init = 2, ae_acl = None\<rparr>"

definition ex_sta_auth :: auth_env where
  "ex_sta_auth = \<lparr>ae_opmode = IEEE80211_M_STA, ae_state = IEEE80211_S_AUTH, ae_bss_authmode = IEEE80211_AUTH_SHARED,
     ae_inact_run = 20, ae_inact_init = 2, ae_acl = None\<rparr>"

definition ex_auth_node :: auth_node where
  "ex_auth_node = \<lparr>an_authmode = IEEE80211_AUTH_SHARED, an_challenge = None, an_flags = 0, an_refcnt = 1, an_inact_reload = 2,
     an_rssi = 0, an_rstamp = 0, an_fails = 0\<rparr>"

definition ex_input :: auth_input where
  "ex_input = \<lparr>ai_node_mem = True, ai_challenge_mem = True, ai_random = replicate 128 7, ai_rssi = 30, ai_rstamp = 0\<rparr>"

definition ex_privacy :: com where "ex_privacy = ex_com\<lparr>ic_flags := IEEE80211_F_PRIVACY\<rparr>"

lemmas ex_auth_defs = ex_ap_auth_def ex_sta_auth_def ex_auth_node_def ex_input_def ex_privacy_def

lemma ex_auth_facts:
  "has_flag (ic_flags ex_privacy) IEEE80211_F_PRIVACY" "\<not> has_flag (ic_flags ex_privacy) IEEE80211_F_COUNTERM"
  "length (replicate 24 0 :: bytes) = sizeof_frame" "IEEE80211_CHALLENGE_LEN \<le> length (ai_random ex_input)"
  by (simp_all add: ex_auth_defs has_flag_def IEEE80211_F_PRIVACY_def IEEE80211_F_COUNTERM_def sizeof_frame_def
      IEEE80211_CHALLENGE_LEN_def)

theorem shared_key_handshake_witness:
  "\<exists>n. ieee80211_recv_mgmt_auth ex_ap_auth ex_input ex_privacy False n
     (replicate 24 0 @ fst (auth_body IEEE80211_AUTH_SHARED (Some (replicate 128 7)) 3)) =
       Some (ex_privacy, (False, ieee80211_node_authorize ex_ap_auth n), [Send_mgmt 4])"
proof -
  have ap: "ae_opmode ex_ap_auth = IEEE80211_M_HOSTAP" "ae_state ex_ap_auth = IEEE80211_S_RUN"
    "ae_bss_authmode ex_ap_auth = IEEE80211_AUTH_SHARED" "ae_acl ex_ap_auth = None" by (simp_all add: ex_auth_defs)
  have sta: "ae_opmode ex_sta_auth = IEEE80211_M_STA" "ae_state ex_sta_auth = IEEE80211_S_AUTH"
    "ae_bss_authmode ex_sta_auth = IEEE80211_AUTH_SHARED" "ae_acl ex_sta_auth = None" by (simp_all add: ex_auth_defs)
  have mem: "an_authmode ex_auth_node = IEEE80211_AUTH_SHARED" "ai_node_mem ex_input" "ai_challenge_mem ex_input"
    "take IEEE80211_CHALLENGE_LEN (ai_random ex_input) = replicate 128 7"
    by (simp_all add: ex_auth_defs IEEE80211_CHALLENGE_LEN_def)
  from shared_key_handshake [OF ap sta ex_auth_facts(1,2,1,2) mem(1,1,2,3,3) ex_auth_facts(4,3,3,3,3), of ex_input ex_input]
  show ?thesis unfolding sta(3) mem(4) by blast
qed

text \<open>The request and the answer of a station as the access point of the example sees them.\<close>

definition ex_history :: "(auth_input \<times> bytes) list" where
  "ex_history = [(ex_input, replicate 24 0 @ fst (auth_body IEEE80211_AUTH_SHARED None 1)),
     (ex_input, replicate 24 0 @ fst (auth_body IEEE80211_AUTH_SHARED (Some (replicate 128 7)) 3))]"

lemma ex_auth_run: "\<exists>ni. auth_run ex_ap_auth ex_auth_node ex_history ex_privacy (False, ni) \<and> authorized ni"
proof -
  have len: "length (replicate 128 7 :: bytes) = IEEE80211_CHALLENGE_LEN" by (simp add: IEEE80211_CHALLENGE_LEN_def)
  note bodies = auth_bodies [OF len] and ie = auth_challenge_ie [OF len]
  have acl: "ae_acl ex_ap_auth = None" by (simp add: ex_auth_defs)
  define n where "n = ex_auth_node\<lparr>an_challenge := Some (replicate 128 7), an_flags := IEEE80211_NODE_AREF, an_rssi := 30\<rparr>"
  have "ieee80211_recv_mgmt_auth ex_ap_auth ex_input ex_privacy True ex_auth_node
      (replicate 24 0 @ fst (auth_body IEEE80211_AUTH_SHARED None 1)) = Some (ex_privacy, (False, n), [Send_mgmt 2])"
    unfolding bodies recv_auth_body [OF ex_auth_facts(3) acl ex_auth_facts(2)]
    using ex_auth_facts(1) ie(2)
    by (simp add: ieee80211_auth_shared_def auth_shared_hostap_def ref_or_dup_def ieee80211_dup_bss_def alloc_challenge_def
        IEEE80211_AUTH_SHARED_REQUEST_def IEEE80211_CHALLENGE_LEN_def next_seq_def n_def set_flag_def ex_ap_auth_def ex_auth_node_def
        ex_input_def Let_def)
  from auth_run.frame [OF auth_run.start ex_auth_facts(4) this]
  have run: "auth_run ex_ap_auth ex_auth_node [(ex_input, replicate 24 0 @ fst (auth_body IEEE80211_AUTH_SHARED None 1))] ex_privacy (False, n)"
    by simp
  have "ieee80211_recv_mgmt_auth ex_ap_auth ex_input ex_privacy False n
      (replicate 24 0 @ fst (auth_body IEEE80211_AUTH_SHARED (Some (replicate 128 7)) 3)) =
    Some (ex_privacy, (False, ieee80211_node_authorize ex_ap_auth n), [Send_mgmt 4])"
    unfolding bodies fst_conv recv_auth_body [OF ex_auth_facts(3) acl ex_auth_facts(2)]
    using ex_auth_facts(1) ie
    by (simp add: ieee80211_auth_shared_def auth_shared_hostap_def auth_const_defs next_seq_def n_def ex_ap_auth_def
        ex_auth_node_def ie(4) [unfolded One_nat_def])
  from auth_run.frame [OF run ex_auth_facts(4) this]
  have "auth_run ex_ap_auth ex_auth_node ex_history ex_privacy (False, ieee80211_node_authorize ex_ap_auth n)"
    by (simp add: ex_history_def)
  moreover have "authorized (ieee80211_node_authorize ex_ap_auth n)" by (simp add: authorized_def ieee80211_node_authorize_def IEEE80211_NODE_AUTH_def)
  ultimately show ?thesis by blast
qed

theorem shared_key_required_witness:
  "\<exists>h1 i1 m1 h2 i2 m2 h3. ex_history = h1 @ (i1, m1) # h2 @ (i2, m2) # h3 \<and>
    answers (take IEEE80211_CHALLENGE_LEN (ai_random i1)) m2"
proof -
  obtain ni where "auth_run ex_ap_auth ex_auth_node ex_history ex_privacy (False, ni)" "authorized ni" using ex_auth_run by blast
  from shared_key_required [OF this] show ?thesis by (simp add: ex_ap_auth_def ex_auth_node_def)
qed

text \<open>
  An access point that accepts both methods answers an open request of a station that has started a
  shared key transaction with a shared key challenge frame: the sender deduces the method from the
  challenge of the node.
\<close>

lemma open_response_is_challenge:
  assumes "an_authmode ni = IEEE80211_AUTH_AUTO" "an_challenge ni = Some c" "length c = IEEE80211_CHALLENGE_LEN"
    and "ae_opmode e = IEEE80211_M_HOSTAP" "ae_state e = IEEE80211_S_RUN"
  shows "\<exists>n. ieee80211_auth_open e i ic False ni IEEE80211_AUTH_OPEN_REQUEST 0 = (ic, (False, n), [Send_mgmt 2]) \<and>
    fst (auth_body IEEE80211_AUTH_AUTO (an_challenge n) 2) =
      ADDSHORT IEEE80211_AUTH_ALG_SHARED @ ADDSHORT 2 @ ADDSHORT 0 @ challenge_ie c"
proof -
  obtain n where n: "ref_or_dup e i False ni = Some n" "an_challenge n = Some c"
    using ref_or_dup_simps(3) [of e i False ni] assms(2) by (auto simp: ref_or_dup_def)
  then show ?thesis
    using assms auth_bodies(2) [OF assms(3)]
    by (auto simp: ieee80211_auth_open_def next_seq_def IEEE80211_AUTH_OPEN_REQUEST_def ieee80211_node_authorize_def)
qed

text \<open>The answer during countermeasures carries the reason as its sequence number, and the status of success.\<close>

lemma countermeasures_answer: "fst (auth_body mode chal IEEE80211_REASON_MIC_FAILURE) =
    ADDSHORT IEEE80211_AUTH_ALG_SHARED @ ADDSHORT 14 @ ADDSHORT 0"
  by (simp add: auth_body_def Let_def auth_const_defs IEEE80211_REASON_MIC_FAILURE_def)

end
