(* ===== verification/Spec2Isabelle.thy ===== *)
theory Spec2Isabelle
  imports Mbuf Frame Com Rc4 Wep Michael Tkip Aes_Ccm Ccmp Acl Rates Amrr Rssadapt Crypto_Frames Mgmt Auth
begin

text \<open>
  A verification library for the net80211 wireless stack.
\<close>

end
